(* ===== verification/Go_Prelude.thy ===== *)
theory Go_Prelude
  imports
    Main
    "HOL-Library.Word"
    "HOL-Library.Multiset"
    "HOL-Library.Char_ord"
    "HOL-Library.List_Lexorder"
    "HOL-Library.Sublist"
begin

text \<open>
  The vocabulary the component theories share: Go's fixed-width integers, its errors as
  values of a datatype with the \<open>errors.Is\<close> chain walk, the result type of fallible code,
  the sequencing combinator for code that threads a state and may fail, and the generic
  lemmas on lists and words used by more than one component.

  An \<open>int64\<close> is an \<^typ>\<open>int\<close> whose value lies in the signed 64-bit range
  (\<open>int64_range\<close>); arithmetic on it is followed by \<open>wrap64\<close> where the program does
  arithmetic. A \<open>uint64\<close> is a \<^typ>\<open>64 word\<close>. A \<open>float64\<close> is its IEEE bit pattern, a
  \<^typ>\<open>64 word\<close>: the program stores, copies and compares the bit patterns only, through
  \<open>math.Float64bits\<close> and \<open>math.Float64frombits\<close>, which are the identity here. A Go
  \<open>string\<close> is a byte sequence; \<^typ>\<open>string\<close> is a list of 8-bit characters ordered
  lexicographically by character code, which is Go's string order.
\<close>

unbundle bit_operations_syntax

named_theorems go_inv \<open>an operation keeps its component's invariant\<close>
named_theorems go_frame \<open>a field an operation does not write is unchanged\<close>
named_theorems bit_lists \<open>how an operation acts on the bit list it stands for\<close>

type_synonym byte = "8 word"
type_synonym uint8 = "8 word"
type_synonym uint16 = "16 word"
type_synonym uint32 = "32 word"
type_synonym uint64 = "64 word"
type_synonym int64 = int
type_synonym float64 = "64 word"

section \<open>Signed 64-bit integers\<close>

definition int64_range :: "int \<Rightarrow> bool" where
  "int64_range x \<longleftrightarrow> - (2 ^ 63) \<le> x \<and> x < 2 ^ 63"

definition wrap64 :: "int \<Rightarrow> int" where
  "wrap64 x = signed_take_bit 63 x"

text \<open>The conversions \<open>uint64(x)\<close> and \<open>int64(u)\<close>.\<close>

definition to_uint64 :: "int64 \<Rightarrow> uint64" where
  "to_uint64 x = word_of_int x"

definition to_int64 :: "uint64 \<Rightarrow> int64" where
  "to_int64 u = sint u"

section \<open>Errors and results\<close>

text \<open>
  An \<open>error\<close> of the program: the sentinel values it compares with, an error made by
  \<open>fmt.Errorf\<close> with no wrapped cause, one that wraps a cause with \<open>%w\<close>, and a run-time
  panic.
\<close>

datatype go_error =
    EOF
  | ErrUnexpectedEOF
  | ErrOverflow
  | ErrNoDataPoints
  | ErrInvalidPartition
  | ErrNotExist
  | ErrClosed
  | Errorf string
  | Wrapf string go_error
  | Panic string

type_synonym 'a result = "go_error + 'a"

text \<open>\<open>errors.Is(err, target)\<close>: the target occurs in the chain of wrapped errors.\<close>

fun errors_Is :: "go_error \<Rightarrow> go_error \<Rightarrow> bool" where
  "errors_Is (Wrapf s e) t = (Wrapf s e = t \<or> errors_Is e t)"
| "errors_Is e t = (e = t)"

text \<open>
  Sequencing of code that may fail and changes a state on both outcomes: the error is
  handed on together with the state it left.
\<close>

definition andThen :: "'a result \<times> 's \<Rightarrow> ('a \<Rightarrow> 's \<Rightarrow> 'b result \<times> 't) \<Rightarrow> ('s \<Rightarrow> 't) \<Rightarrow> 'b result \<times> 't"
  where
  "andThen r f g = (case r of (Inl e, s) \<Rightarrow> (Inl e, g s) | (Inr x, s) \<Rightarrow> f x s)"

section \<open>Strings and bytes\<close>

text \<open>The conversions between \<open>string\<close> and \<open>[]byte\<close>.\<close>

definition string_bytes :: "string \<Rightarrow> byte list" where
  "string_bytes s = map of_char s"

definition bytes_string :: "byte list \<Rightarrow> string" where
  "bytes_string bs = map (\<lambda>b. char_of (unat b)) bs"

text \<open>\<open>strconv.Itoa\<close> of a number that is not negative.\<close>

fun itoa :: "nat \<Rightarrow> string" where
  "itoa n = (if n < 10 then [char_of (48 + n)] else itoa (n div 10) @ [char_of (48 + n mod 10)])"

declare itoa.simps [simp del]

definition is_digit :: "char \<Rightarrow> bool" where
  "is_digit c \<longleftrightarrow> 48 \<le> (of_char c :: nat) \<and> (of_char c :: nat) \<le> 57"

lemma is_digit_char_of: "k < 10 \<Longrightarrow> is_digit (char_of (48 + k :: nat))"
  by (simp add: is_digit_def)

lemma itoa_digits: "list_all is_digit (itoa n) \<and> itoa n \<noteq> []"
proof (induction n rule: itoa.induct)
  case (1 n)
  show ?case
  proof (cases "n < 10")
    case True
    thus ?thesis by (subst (1 2) itoa.simps) (simp add: is_digit_char_of)
  next
    case False
    thus ?thesis using 1 by (subst (1 2) itoa.simps) (simp add: is_digit_char_of)
  qed
qed

lemma is_digit_simps [simp]:
  "\<not> is_digit (CHR ''-'')" "\<not> is_digit (CHR ''+'')" "\<not> is_digit (CHR '','')" "\<not> is_digit (CHR 0x0A)"
  by (simp_all add: is_digit_def)

lemma itoa_chars: "c \<in> set (itoa n) \<Longrightarrow> is_digit c"
  using itoa_digits [of n] by (simp add: list_all_iff)

section \<open>Sorting\<close>

text \<open>
  \<open>sort.Slice(xs, less)\<close> with \<open>less\<close> comparing a key: a permutation in ascending order of the
  key. It is not stable, so the order of equal keys is left open: the code that sorts takes
  the sorting function as a parameter and the locale states what Go documents of it.
\<close>

locale slice_sort =
  fixes key :: "'a \<Rightarrow> 'k::linorder"
    and srt :: "'a list \<Rightarrow> 'a list"
  assumes mset_srt [simp]: "mset (srt xs) = mset xs"
    and sorted_srt: "sorted (map key (srt xs))"
begin

lemma set_srt [simp]: "set (srt xs) = set xs"
  by (metis mset_srt set_mset_mset)

lemma length_srt [simp]: "length (srt xs) = length xs"
  by (metis mset_srt size_mset)

lemma srt_eq_Nil [simp]: "srt xs = [] \<longleftrightarrow> xs = []"
  by (metis length_0_conv length_srt)

lemma distinct_keys_srt: "distinct (map key (srt xs)) \<longleftrightarrow> distinct (map key xs)"
  by (metis mset_eq_imp_distinct_iff mset_map mset_srt)

text \<open>With distinct keys the result does not depend on the order of the input.\<close>

lemma srt_cong_mset:
  assumes "mset xs = mset ys" "distinct (map key xs)"
  shows "srt xs = srt ys"
proof -
  have set: "set xs = set ys" using assms(1) by (metis set_mset_mset)
  have dist: "distinct (map key ys)" using assms by (metis mset_eq_imp_distinct_iff mset_map)
  have inj: "inj_on key (set xs)" using assms(2) by (simp add: distinct_map)
  show ?thesis
  proof (rule map_sorted_distinct_set_unique [of key])
    show "inj_on key (set (srt xs) \<union> set (srt ys))" using set inj by simp
    show "distinct (map key (srt xs))" "distinct (map key (srt ys))"
      using assms(2) dist by (simp_all only: distinct_keys_srt)
    show "set (srt xs) = set (srt ys)" using set by simp
  qed (rule sorted_srt)+
qed

end

text \<open>The library's stable sort is such a sorting function for every key.\<close>

interpretation stable_sort: slice_sort key "sort_key key"
  by unfold_locales simp_all

section \<open>Lemmas on the integers\<close>

lemma wrap64_id [simp]: "int64_range x \<Longrightarrow> wrap64 x = x"
  by (simp add: wrap64_def int64_range_def signed_take_bit_int_eq_self)

lemma int64_range_wrap64 [simp, intro]: "int64_range (wrap64 x)"
  using signed_take_bit_int_less_exp [of 63 x] signed_take_bit_int_greater_eq_minus_exp [of 63 x]
  by (simp add: wrap64_def int64_range_def)

lemma int64_range_to_int64 [simp, intro]: "int64_range (to_int64 u)"
  using sint_greater_eq [of u] sint_less [of u] by (simp add: to_int64_def int64_range_def)

lemma to_int64_to_uint64: "to_int64 (to_uint64 x) = wrap64 x"
  by (simp add: to_int64_def to_uint64_def wrap64_def sint_sbintrunc')

lemma to_int64_to_uint64_id [simp]: "int64_range x \<Longrightarrow> to_int64 (to_uint64 x) = x"
  by (simp add: to_int64_to_uint64)

lemma to_uint64_to_int64 [simp]: "to_uint64 (to_int64 u) = u"
  by (simp add: to_int64_def to_uint64_def)

lemma to_uint64_wrap64 [simp]: "to_uint64 (wrap64 x) = to_uint64 x"
  by (metis to_int64_to_uint64 to_uint64_to_int64)

lemma to_uint64_add: "to_uint64 (x + y) = to_uint64 x + to_uint64 y"
  by (simp add: to_uint64_def)

lemma to_uint64_diff: "to_uint64 (x - y) = to_uint64 x - to_uint64 y"
  by (simp add: to_uint64_def)

lemma to_int64_inject: "int64_range x \<Longrightarrow> to_uint64 x = u \<Longrightarrow> to_int64 u = x"
  by auto

lemma to_uint64_not: "to_uint64 (NOT x) = NOT (to_uint64 x)"
  by (simp add: to_uint64_def not_eq_complement)

lemma int64_range_not: "int64_range x \<Longrightarrow> int64_range (NOT x)"
  by (simp add: int64_range_def not_eq_complement)

text \<open>The simplifier turns a left shift by one into a multiplication by two.\<close>

lemma bit_mult_2_iff [simp]:
  "bit (w * 2) n \<longleftrightarrow> n < LENGTH('a) \<and> n \<noteq> 0 \<and> bit (w :: 'a::len word) (n - 1)"
  by (subst mult.commute) (simp add: bit_double_iff)

lemma xor_eq_0_iff: "v XOR w = 0 \<longleftrightarrow> v = (w :: 'a::len word)"
  by (auto simp: bit_eq_iff bit_simps)

section \<open>Lemmas on strings\<close>

lemma of_char_char_of_unat: "of_char (char_of (unat b)) = (b :: byte)"
proof -
  have "unat b < 256" using unsigned_less [of b, where 'a = nat] by simp
  hence "of_char (char_of (unat b)) = unat b" by simp
  hence "of_nat (of_char (char_of (unat b)) :: nat) = b" by simp
  thus ?thesis by (simp only: of_nat_of_char)
qed

lemma char_of_unat_of_char: "char_of (unat (of_char c :: byte)) = c"
proof -
  have "unat (of_char c :: byte) = unat (of_nat (of_char c :: nat) :: byte)"
    by (simp only: of_nat_of_char)
  also have "\<dots> = of_char c"
    using nat_of_char_less_256 [of c] by (simp add: unat_of_nat del: of_nat_of_char)
  finally show ?thesis by simp
qed

lemma bytes_string_string_bytes [simp]: "bytes_string (string_bytes s) = s"
  by (induction s) (simp_all add: bytes_string_def string_bytes_def char_of_unat_of_char)

lemma string_bytes_bytes_string [simp]: "string_bytes (bytes_string bs) = bs"
  by (induction bs) (simp_all add: bytes_string_def string_bytes_def of_char_char_of_unat)

lemma length_string_bytes [simp]: "length (string_bytes s) = length s"
  by (simp add: string_bytes_def)

lemma string_bytes_inject [simp]: "string_bytes s = string_bytes t \<longleftrightarrow> s = t"
  by (metis bytes_string_string_bytes)

lemma bytes_string_inject [simp]: "bytes_string s = bytes_string t \<longleftrightarrow> s = t"
  by (metis string_bytes_bytes_string)

section \<open>Lemmas on results\<close>

lemma andThen_Inr [simp]: "andThen (Inr x, s) f g = f x s"
  by (simp add: andThen_def)

lemma andThen_Inl [simp]: "andThen (Inl e, s) f g = (Inl e, g s)"
  by (simp add: andThen_def)

lemma errors_Is_refl [simp]: "errors_Is e e"
  by (cases e) auto

end
