(* ===== verification/Data_Model.thy ===== *)
theory Data_Model
  imports Go_Prelude
begin

text \<open>
  The data types of the public interface in \<open>src/storage.go\<close> and \<open>src/label.go\<close>: data
  points, labels, rows and the timestamp precision.
\<close>

record DataPoint =
  dp_Value :: float64
  dp_Timestamp :: int64

record Label =
  l_Name :: string
  l_Value :: string

record Row =
  row_Metric :: string
  row_Labels :: "Label list"
  row_DataPoint :: DataPoint

text \<open>
  \<open>TimestampPrecision\<close> is a string type with four named values; any other string takes the
  default branch of the program's switches.
\<close>

datatype TimestampPrecision =
    Nanoseconds
  | Microseconds
  | Milliseconds
  | Seconds
  | OtherPrecision string

abbreviation row_Timestamp :: "Row \<Rightarrow> int64" where
  "row_Timestamp r \<equiv> dp_Timestamp (row_DataPoint r)"

abbreviation point :: "int64 \<Rightarrow> float64 \<Rightarrow> DataPoint" where
  "point t v \<equiv> \<lparr>dp_Value = v, dp_Timestamp = t\<rparr>"

text \<open>The timestamps of points are Go \<open>int64\<close> values.\<close>

definition point_ok :: "DataPoint \<Rightarrow> bool" where
  "point_ok p \<longleftrightarrow> int64_range (dp_Timestamp p)"

text \<open>
  What the program leaves to the Go runtime and library: how \<open>sort.Slice\<close> orders labels of the
  same name and points of the same timestamp, and in which order \<open>sync.Map.Range\<close> visits the
  metrics of a partition.
\<close>

record Runtime =
  sortLabels :: "Label list \<Rightarrow> Label list"
  sortPoints :: "DataPoint list \<Rightarrow> DataPoint list"
  rangeNames :: "string list \<Rightarrow> string list"

definition runtime_ok :: "Runtime \<Rightarrow> bool" where
  "runtime_ok R \<longleftrightarrow> slice_sort l_Name (sortLabels R) \<and> slice_sort dp_Timestamp (sortPoints R)
     \<and> (\<forall>ns. mset (rangeNames R ns) = mset ns)"

text \<open>An instance: stable sorts, and metrics visited in the order they were stored.\<close>

definition stable_runtime :: Runtime where
  "stable_runtime = \<lparr>sortLabels = sort_key l_Name, sortPoints = sort_key dp_Timestamp,
     rangeNames = (\<lambda>ns. ns)\<rparr>"

lemma runtime_ok_stable [simp]: "runtime_ok stable_runtime"
  by (simp add: runtime_ok_def stable_runtime_def stable_sort.slice_sort_axioms)

lemma runtime_ok_sorts:
  assumes "runtime_ok R"
  shows "slice_sort l_Name (sortLabels R)" "slice_sort dp_Timestamp (sortPoints R)"
    "mset (rangeNames R ns) = mset ns"
  using assms by (simp_all add: runtime_ok_def)

end
