(* ===== verification/Bit_Stream.thy ===== *)
theory Bit_Stream
  imports Go_Prelude
begin

text \<open>
  The bit stream of \<open>src/bstream.go\<close>: the writer \<open>bstream\<close>, which packs bits into bytes
  from the most significant bit down, and the buffered reader \<open>bstreamReader\<close>. Every
  operation is given its meaning on the list of bits it stands for: a write appends bits,
  a read takes them from the front of what is left.
\<close>

section \<open>The writer\<close>

text \<open>\<open>b_count\<close> is the number of bits still free in the last byte.\<close>

record bstream =
  b_stream :: "byte list"
  b_count :: uint8

definition new_bstream :: bstream where
  "new_bstream = \<lparr>b_stream = [], b_count = 0\<rparr>"

definition bstream_bytes :: "bstream \<Rightarrow> byte list" where
  "bstream_bytes b = b_stream b"

definition bstream_reset :: "bstream \<Rightarrow> bstream" where
  "bstream_reset b = b\<lparr>b_stream := [], b_count := 0\<rparr>"

text \<open>
  The two writers share their first step: a full (or missing) last byte is followed by a
  fresh zero byte. The index \<open>len(b.stream) - 1\<close> is then in range by \<open>bstream_ok\<close> below.
\<close>

definition fresh_byte :: "bstream \<Rightarrow> bstream" where
  "fresh_byte b =
     (if b_count b = 0 then b\<lparr>b_stream := b_stream b @ [0], b_count := 8\<rparr> else b)"

definition writeBit :: "bstream \<Rightarrow> bool \<Rightarrow> bstream" where
  "writeBit b bt =
     (let b = fresh_byte b;
          i = length (b_stream b) - 1;
          b = (if bt
               then b\<lparr>b_stream := (b_stream b)
                       [i := (b_stream b ! i) OR push_bit (unat (b_count b - 1)) 1]\<rparr>
               else b)
      in b\<lparr>b_count := b_count b - 1\<rparr>)"

definition writeByte :: "bstream \<Rightarrow> byte \<Rightarrow> bstream" where
  "writeByte b byt =
     (let b = fresh_byte b;
          i = length (b_stream b) - 1;
          b = b\<lparr>b_stream := (b_stream b)
                  [i := (b_stream b ! i) OR drop_bit (unat (8 - b_count b)) byt]\<rparr>;
          b = b\<lparr>b_stream := b_stream b @ [0]\<rparr>
      in b\<lparr>b_stream := (b_stream b)[i + 1 := push_bit (unat (b_count b)) byt]\<rparr>)"

text \<open>The two loops of \<open>writeBits\<close>: whole bytes from the top of \<open>u\<close>, then single bits.\<close>

function writeBits_bytes :: "bstream \<Rightarrow> uint64 \<Rightarrow> int \<Rightarrow> bstream \<times> uint64 \<times> int" where
  "writeBits_bytes b u nbits =
     (if 8 \<le> nbits
      then writeBits_bytes (writeByte b (ucast (drop_bit 56 u))) (push_bit 8 u) (nbits - 8)
      else (b, u, nbits))"
  by pat_completeness auto
termination
  by (relation "measure (\<lambda>(b, u, nbits). nat nbits)") auto

function writeBits_bits :: "bstream \<Rightarrow> uint64 \<Rightarrow> int \<Rightarrow> bstream" where
  "writeBits_bits b u nbits =
     (if 0 < nbits
      then writeBits_bits (writeBit b (drop_bit 63 u = 1)) (push_bit 1 u) (nbits - 1)
      else b)"
  by pat_completeness auto
termination
  by (relation "measure (\<lambda>(b, u, nbits). nat nbits)") auto

declare writeBits_bytes.simps [simp del] writeBits_bits.simps [simp del]

definition writeBits :: "bstream \<Rightarrow> uint64 \<Rightarrow> int \<Rightarrow> bstream" where
  "writeBits b u nbits =
     (let u = push_bit (unat (64 - word_of_int nbits :: uint64)) u;
          (b, u, nbits) = writeBits_bytes b u nbits
      in writeBits_bits b u nbits)"

section \<open>The reader\<close>

record bstreamReader =
  r_stream :: "byte list"
  r_streamOffset :: nat
  r_buffer :: uint64
  r_valid :: uint8

definition newBReader :: "byte list \<Rightarrow> bstreamReader" where
  "newBReader bs = \<lparr>r_stream = bs, r_streamOffset = 0, r_buffer = 0, r_valid = 0\<rparr>"

text \<open>\<open>binary.BigEndian.Uint64\<close> on a slice of at least eight bytes.\<close>

definition BigEndian_Uint64 :: "byte list \<Rightarrow> uint64" where
  "BigEndian_Uint64 bs =
     ucast (bs ! 7) OR push_bit 8 (ucast (bs ! 6)) OR push_bit 16 (ucast (bs ! 5))
     OR push_bit 24 (ucast (bs ! 4)) OR push_bit 32 (ucast (bs ! 3))
     OR push_bit 40 (ucast (bs ! 2)) OR push_bit 48 (ucast (bs ! 1))
     OR push_bit 56 (ucast (bs ! 0))"

text \<open>The loop of the slow path of \<open>loadNextBuffer\<close>, over \<open>b.stream[b.streamOffset:]\<close>.\<close>

definition load_bytes :: "nat \<Rightarrow> byte list \<Rightarrow> uint64" where
  "load_bytes nbytes bs =
     foldl (\<lambda>buffer i. buffer OR push_bit (8 * (nbytes - i - 1)) (ucast (bs ! i)))
       0 [0..<nbytes]"

definition loadNextBuffer :: "uint8 \<Rightarrow> bstreamReader \<Rightarrow> bool \<times> bstreamReader" where
  "loadNextBuffer nbits r =
     (let off = r_streamOffset r; len = length (r_stream r) in
      if len \<le> off then (False, r)
      else if off + 8 < len
      then (True, r\<lparr>r_buffer := BigEndian_Uint64 (drop off (r_stream r)),
                    r_streamOffset := off + 8, r_valid := 64\<rparr>)
      else
        (let nbytes = unat (nbits div 8 + 1);
             nbytes = (if len < off + nbytes then len - off else nbytes)
         in (True, r\<lparr>r_buffer := load_bytes nbytes (drop off (r_stream r)),
                     r_streamOffset := off + nbytes, r_valid := word_of_nat (nbytes * 8)\<rparr>)))"

definition readBitFast :: "bstreamReader \<Rightarrow> bool result \<times> bstreamReader" where
  "readBitFast r =
     (if r_valid r = 0 then (Inl EOF, r)
      else let r = r\<lparr>r_valid := r_valid r - 1\<rparr>;
               bitmask = push_bit (unat (r_valid r)) 1 :: uint64
           in (Inr ((r_buffer r AND bitmask) \<noteq> 0), r))"

definition readBit :: "bstreamReader \<Rightarrow> bool result \<times> bstreamReader" where
  "readBit r =
     (if r_valid r = 0
      then (case loadNextBuffer 1 r of
              (False, r) \<Rightarrow> (Inl EOF, r)
            | (True, r) \<Rightarrow> readBitFast r)
      else readBitFast r)"

definition readBitsFast :: "uint8 \<Rightarrow> bstreamReader \<Rightarrow> uint64 result \<times> bstreamReader" where
  "readBitsFast nbits r =
     (if r_valid r < nbits then (Inl EOF, r)
      else let bitmask = push_bit (unat nbits) 1 - 1 :: uint64;
               r = r\<lparr>r_valid := r_valid r - nbits\<rparr>
           in (Inr (drop_bit (unat (r_valid r)) (r_buffer r) AND bitmask), r))"

text \<open>
  \<open>readBits\<close> after the first refill: the request is served from the buffer, or the valid
  bits are joined with bits of the next buffer. The byte arithmetic on \<open>b.valid\<close> wraps.
\<close>

definition readBits_buffered :: "uint8 \<Rightarrow> bstreamReader \<Rightarrow> uint64 result \<times> bstreamReader" where
  "readBits_buffered nbits r =
     (if nbits \<le> r_valid r then readBitsFast nbits r
      else
        let bitmask = push_bit (unat (r_valid r)) 1 - 1 :: uint64;
            nbits = nbits - r_valid r;
            v = push_bit (unat nbits) (r_buffer r AND bitmask);
            r = r\<lparr>r_valid := 0\<rparr>
        in (case loadNextBuffer nbits r of
              (False, r) \<Rightarrow> (Inl EOF, r)
            | (True, r) \<Rightarrow>
                let bitmask = push_bit (unat nbits) 1 - 1 :: uint64;
                    v = v OR (drop_bit (unat (r_valid r - nbits)) (r_buffer r) AND bitmask)
                in (Inr v, r\<lparr>r_valid := r_valid r - nbits\<rparr>)))"

definition readBits :: "uint8 \<Rightarrow> bstreamReader \<Rightarrow> uint64 result \<times> bstreamReader" where
  "readBits nbits r =
     (if r_valid r = 0
      then (case loadNextBuffer nbits r of
              (False, r) \<Rightarrow> (Inl EOF, r)
            | (True, r) \<Rightarrow> readBits_buffered nbits r)
      else readBits_buffered nbits r)"

definition ReadByte :: "bstreamReader \<Rightarrow> byte result \<times> bstreamReader" where
  "ReadByte r = andThen (readBits 8 r) (\<lambda>v r. (Inr (ucast v), r)) id"

section \<open>Bit lists\<close>

text \<open>The low \<open>n\<close> bits of a word, the most significant first.\<close>

definition to_bits :: "nat \<Rightarrow> 'a::len word \<Rightarrow> bool list" where
  "to_bits n w = map (bit w) (rev [0..<n])"

definition byte_bits :: "byte list \<Rightarrow> bool list" where
  "byte_bits bs = concat (map (to_bits 8) bs)"

text \<open>What has been written: all bits but the free ones of the last byte.\<close>

definition bits_of :: "bstream \<Rightarrow> bool list" where
  "bits_of b = take (8 * length (b_stream b) - unat (b_count b)) (byte_bits (b_stream b))"

text \<open>
  The invariant of the writer: at most eight bits are free, there is a last byte when some
  are, and the free bits are zero (both writers only ever set bits of the last byte).
\<close>

definition bstream_ok :: "bstream \<Rightarrow> bool" where
  "bstream_ok b \<longleftrightarrow> unat (b_count b) \<le> 8 \<and> (b_count b \<noteq> 0 \<longrightarrow> b_stream b \<noteq> []) \<and>
     (\<forall>i < unat (b_count b). \<not> bit (last (b_stream b)) i)"

text \<open>What is left to read: the valid bits of the buffer, then the bytes not yet loaded.\<close>

definition rest_of :: "bstreamReader \<Rightarrow> bool list" where
  "rest_of r = to_bits (unat (r_valid r)) (r_buffer r)
     @ byte_bits (drop (r_streamOffset r) (r_stream r))"

definition reader_ok :: "bstreamReader \<Rightarrow> bool" where
  "reader_ok r \<longleftrightarrow> unat (r_valid r) \<le> 64"

lemma length_to_bits [simp]: "length (to_bits n w) = n"
  by (simp add: to_bits_def)

lemma to_bits_0 [simp]: "to_bits 0 w = []"
  by (simp add: to_bits_def)

lemma to_bits_eq_Nil [simp]: "to_bits n w = [] \<longleftrightarrow> n = 0"
  by (simp add: to_bits_def)

lemma to_bits_Suc: "to_bits (Suc n) w = bit w n # to_bits n w"
  by (simp add: to_bits_def)

lemma to_bits_add: "to_bits (m + n) w = to_bits m (drop_bit n w) @ to_bits n w"
  by (induction m) (simp_all add: to_bits_Suc bit_simps add.commute)

lemma to_bits_split: "n \<le> k \<Longrightarrow> to_bits k w = to_bits (k - n) (drop_bit n w) @ to_bits n w"
  using to_bits_add [of "k - n" n w] by simp

lemma to_bits_eq_iff: "to_bits n v = to_bits n w \<longleftrightarrow> (\<forall>i < n. bit v i = bit w i)"
  by (auto simp: to_bits_def)

lemma to_bits_cong: "(\<And>i. i < n \<Longrightarrow> bit v i = bit w i) \<Longrightarrow> to_bits n v = to_bits n w"
  by (simp add: to_bits_eq_iff)

lemma to_bits_inject:
  fixes v w :: "'a::len word"
  assumes "to_bits n v = to_bits n w"
  shows "take_bit n v = take_bit n w"
  using assms by (auto intro!: bit_eqI simp: to_bits_eq_iff bit_simps)

lemma byte_bits_simps [simp]:
  "byte_bits [] = []"
  "byte_bits (x # xs) = to_bits 8 x @ byte_bits xs"
  "byte_bits (xs @ ys) = byte_bits xs @ byte_bits ys"
  by (simp_all add: byte_bits_def)

lemma byte_bits_eq_Nil [simp]: "byte_bits bs = [] \<longleftrightarrow> bs = []"
  by (cases bs) simp_all

lemma length_byte_bits [simp]: "length (byte_bits bs) = 8 * length bs"
  by (induction bs) simp_all


section \<open>What the writer does\<close>

text \<open>A written stream seen from its last byte.\<close>

lemma bits_of_snoc:
  assumes "b_stream b = xs @ [l]" "unat (b_count b) \<le> 8"
  shows "bits_of b = byte_bits xs @ to_bits (8 - unat (b_count b)) (drop_bit (unat (b_count b)) l)"
  using assms to_bits_split [of "unat (b_count b)" 8 l] by (simp add: bits_of_def)

lemma bits_of_new [bit_lists, simp]: "bits_of new_bstream = []"
  by (simp add: bits_of_def new_bstream_def)

lemma bstream_ok_new [go_inv, simp]: "bstream_ok new_bstream"
  by (simp add: bstream_ok_def new_bstream_def)

lemma bits_of_reset [bit_lists, simp]: "bits_of (bstream_reset b) = []"
  by (simp add: bits_of_def bstream_reset_def)

lemma bstream_ok_reset [go_inv, simp]: "bstream_ok (bstream_reset b)"
  by (simp add: bstream_ok_def bstream_reset_def)

text \<open>After \<open>fresh_byte\<close> there is a last byte with a free bit.\<close>

lemma fresh_byte_cases:
  assumes "bstream_ok b"
  obtains xs l c where "b_stream (fresh_byte b) = xs @ [l]" "b_count (fresh_byte b) = c"
    "0 < unat c" "unat c \<le> 8" "\<forall>i < unat c. \<not> bit l i"
    "bits_of b = byte_bits xs @ to_bits (8 - unat c) (drop_bit (unat c) l)"
proof (cases "b_count b = 0")
  case True
  then have "bits_of b = byte_bits (b_stream b)"
    by (simp add: bits_of_def)
  with True that [of "b_stream b" 0 8] show ?thesis
    by (simp add: fresh_byte_def)
next
  case False
  then have "b_stream b \<noteq> []" using assms by (simp add: bstream_ok_def)
  then obtain xs l where sn: "b_stream b = xs @ [l]" by (metis rev_exhaust)
  have "0 < unat (b_count b)" using False by (simp add: unat_gt_0)
  with assms sn that [of xs l "b_count b"] bits_of_snoc [OF sn] False show ?thesis
    by (simp add: fresh_byte_def bstream_ok_def)
qed

lemma unat_pred_uint8: "0 < unat (c :: uint8) \<Longrightarrow> unat (c - 1) = unat c - 1"
  by (metis One_nat_def Suc_leI unat_1 unat_sub word_le_nat_alt)

lemma unat_8_minus: "unat (c :: uint8) \<le> 8 \<Longrightarrow> unat (8 - c) = 8 - unat c"
  by (simp add: unat_sub word_le_nat_alt)

lemma writeBit_snoc:
  assumes "b_stream (fresh_byte b) = xs @ [l]" "b_count (fresh_byte b) = c" "0 < unat c"
  shows "b_stream (writeBit b bt)
           = xs @ [if bt then l OR push_bit (unat c - 1) 1 else l]"
    and "unat (b_count (writeBit b bt)) = unat c - 1"
  using assms by (simp_all add: writeBit_def Let_def unat_pred_uint8)

lemma bits_of_writeBit [bit_lists]:
  assumes ok: "bstream_ok b"
  shows "bits_of (writeBit b bt) = bits_of b @ [bt]"
proof -
  obtain xs l c where sn: "b_stream (fresh_byte b) = xs @ [l]" "b_count (fresh_byte b) = c"
    and c: "0 < unat c" "unat c \<le> 8" and z: "\<forall>i < unat c. \<not> bit l i"
    and bits: "bits_of b = byte_bits xs @ to_bits (8 - unat c) (drop_bit (unat c) l)"
    by (rule fresh_byte_cases [OF ok])
  define l' where "l' = (if bt then l OR push_bit (unat c - 1) 1 else l)"
  have "bits_of (writeBit b bt) = byte_bits xs @ to_bits (8 - (unat c - 1)) (drop_bit (unat c - 1) l')"
    using bits_of_snoc [of "writeBit b bt" xs l'] writeBit_snoc [OF sn c(1)] c by (simp add: l'_def)
  also have "8 - (unat c - 1) = (8 - unat c) + 1" using c by simp
  also have "to_bits (8 - unat c + 1) (drop_bit (unat c - 1) l')
      = to_bits (8 - unat c) (drop_bit 1 (drop_bit (unat c - 1) l')) @ [bit l' (unat c - 1)]"
    by (subst to_bits_add) (simp add: to_bits_Suc bit_simps)
  also have "drop_bit 1 (drop_bit (unat c - 1) l') = drop_bit (unat c) l"
    using c by (auto intro!: bit_eqI simp: l'_def bit_simps)
  also have "bit l' (unat c - 1) = bt"
    using c z by (auto simp: l'_def bit_simps)
  finally show ?thesis using bits by simp
qed

lemma bstream_ok_writeBit [go_inv]:
  assumes ok: "bstream_ok b"
  shows "bstream_ok (writeBit b bt)"
proof -
  obtain xs l c where sn: "b_stream (fresh_byte b) = xs @ [l]" "b_count (fresh_byte b) = c"
    and c: "0 < unat c" "unat c \<le> 8" and z: "\<forall>i < unat c. \<not> bit l i"
    by (rule fresh_byte_cases [OF ok])
  from writeBit_snoc [OF sn c(1), of bt] c z show ?thesis
    by (auto simp: bstream_ok_def bit_simps)
qed

lemma writeByte_snoc:
  assumes "b_stream (fresh_byte b) = xs @ [l]" "b_count (fresh_byte b) = c" "unat c \<le> 8"
  shows "b_stream (writeByte b byt)
           = (xs @ [l OR drop_bit (8 - unat c) byt]) @ [push_bit (unat c) byt]"
    and "b_count (writeByte b byt) = c"
  using assms by (simp_all add: writeByte_def Let_def unat_8_minus list_update_append)

lemma bits_of_writeByte [bit_lists]:
  assumes ok: "bstream_ok b"
  shows "bits_of (writeByte b byt) = bits_of b @ to_bits 8 byt"
proof -
  obtain xs l c where sn: "b_stream (fresh_byte b) = xs @ [l]" "b_count (fresh_byte b) = c"
    and c: "0 < unat c" "unat c \<le> 8" and z: "\<forall>i < unat c. \<not> bit l i"
    and bits: "bits_of b = byte_bits xs @ to_bits (8 - unat c) (drop_bit (unat c) l)"
    by (rule fresh_byte_cases [OF ok])
  define l' where "l' = l OR drop_bit (8 - unat c) byt"
  have "bits_of (writeByte b byt)
      = byte_bits xs @ to_bits 8 l' @ to_bits (8 - unat c) (drop_bit (unat c) (push_bit (unat c) byt))"
    using bits_of_snoc [OF writeByte_snoc(1) [OF sn c(2)], of byt] writeByte_snoc(2) [OF sn c(2)] c
    by (simp add: l'_def)
  also have "to_bits 8 l' = to_bits (8 - unat c) (drop_bit (unat c) l') @ to_bits (unat c) l'"
    using c by (intro to_bits_split) simp
  also have "to_bits (8 - unat c) (drop_bit (unat c) l') = to_bits (8 - unat c) (drop_bit (unat c) l)"
    using c by (intro to_bits_cong) (auto simp: l'_def bit_simps dest: bit_imp_le_length)
  also have "to_bits (unat c) l' = to_bits (unat c) (drop_bit (8 - unat c) byt)"
    using z by (intro to_bits_cong) (auto simp: l'_def bit_simps)
  also have "to_bits (8 - unat c) (drop_bit (unat c) (push_bit (unat c) byt)) = to_bits (8 - unat c) byt"
    using c by (intro to_bits_cong) (auto simp: bit_simps)
  finally show ?thesis
    using bits to_bits_split [of "8 - unat c" 8 byt] c by simp
qed

lemma bstream_ok_writeByte [go_inv]:
  assumes ok: "bstream_ok b"
  shows "bstream_ok (writeByte b byt)"
proof -
  obtain xs l c where sn: "b_stream (fresh_byte b) = xs @ [l]" "b_count (fresh_byte b) = c"
    and c: "0 < unat c" "unat c \<le> 8"
    by (rule fresh_byte_cases [OF ok])
  from writeByte_snoc [OF sn c(2), of byt] c show ?thesis
    by (auto simp: bstream_ok_def bit_simps)
qed

text \<open>The top \<open>n\<close> bits of the shifted word are what the loops of \<open>writeBits\<close> still have to write.\<close>

lemma writeBits_bytes_spec:
  assumes "bstream_ok b" "n \<le> 64" "writeBits_bytes b u (int n) = (b', u', k)"
  shows "\<exists>m < 8. k = int m \<and> bstream_ok b' \<and>
     bits_of b' @ to_bits m (drop_bit (64 - m) u') = bits_of b @ to_bits n (drop_bit (64 - n) u)"
  using assms
proof (induction n arbitrary: b u rule: less_induct)
  case (less n)
  show ?case
  proof (cases "8 \<le> n")
    case False
    with less.prems show ?thesis by (subst (asm) writeBits_bytes.simps) auto
  next
    case True
    let ?b = "writeByte b (ucast (drop_bit 56 u))"
    have step: "writeBits_bytes ?b (push_bit 8 u) (int (n - 8)) = (b', u', k)"
      using less.prems(3) True by (subst (asm) writeBits_bytes.simps) (simp add: of_nat_diff)
    have "to_bits n (drop_bit (64 - n) u)
        = to_bits 8 (drop_bit (n - 8) (drop_bit (64 - n) u)) @ to_bits (n - 8) (drop_bit (64 - n) u)"
      using to_bits_split [of "n - 8" n "drop_bit (64 - n) u"] True by (simp del: drop_bit_drop_bit)
    also have "to_bits 8 (drop_bit (n - 8) (drop_bit (64 - n) u)) = to_bits 8 (ucast (drop_bit 56 u) :: byte)"
      using True less.prems(2) by (intro to_bits_cong) (auto simp: bit_simps)
    also have "to_bits (n - 8) (drop_bit (64 - n) u) = to_bits (n - 8) (drop_bit (64 - (n - 8)) (push_bit 8 u))"
      using True less.prems(2) by (intro to_bits_cong) (auto simp: bit_simps add.commute)
    finally show ?thesis
      using less.IH [OF _ bstream_ok_writeByte [OF less.prems(1)] _ step] True less.prems
        bits_of_writeByte [OF less.prems(1), of "ucast (drop_bit 56 u)"] by auto
  qed
qed

lemma drop_bit_63_eq_1: "drop_bit 63 (u :: uint64) = 1 \<longleftrightarrow> bit u 63"
  by (subst bit_eq_iff) (auto simp: bit_simps dest: bit_imp_le_length spec [of _ 0])

lemma writeBits_bits_spec:
  assumes "bstream_ok b" "n \<le> 64"
  shows "bstream_ok (writeBits_bits b u (int n)) \<and>
     bits_of (writeBits_bits b u (int n)) = bits_of b @ to_bits n (drop_bit (64 - n) u)"
  using assms
proof (induction n arbitrary: b u)
  case 0
  then show ?case by (subst writeBits_bits.simps, subst writeBits_bits.simps) simp
next
  case (Suc n)
  have "to_bits n (drop_bit (64 - Suc n) u) = to_bits n (drop_bit (64 - n) (push_bit 1 u))"
    using Suc.prems(2) by (intro to_bits_cong) (simp only: bit_drop_bit_eq bit_push_bit_iff o_def, auto)
  moreover have "bit u (63 - n + n)" if "bit u 63" using that Suc.prems(2) by simp
  ultimately show ?case
    using Suc bits_of_writeBit [OF Suc.prems(1)] bstream_ok_writeBit [OF Suc.prems(1)]
    by (subst writeBits_bits.simps, subst (2) writeBits_bits.simps)
       (auto simp: drop_bit_63_eq_1 to_bits_Suc bit_simps)
qed

lemma unat_64_minus: "n \<le> 64 \<Longrightarrow> unat (64 - word_of_nat n :: uint64) = 64 - n"
  by (simp add: unat_sub word_le_nat_alt unat_of_nat take_bit_nat_eq_self)

lemma writeBits_spec:
  assumes "bstream_ok b" "n \<le> 64"
  shows "bstream_ok (writeBits b u (int n)) \<and>
     bits_of (writeBits b u (int n)) = bits_of b @ to_bits n u"
proof -
  let ?u = "push_bit (64 - n) u"
  obtain b' u' k where loop: "writeBits_bytes b ?u (int n) = (b', u', k)"
    by (metis prod_cases3)
  obtain m where m: "m < 8" "k = int m" "bstream_ok b'"
    "bits_of b' @ to_bits m (drop_bit (64 - m) u') = bits_of b @ to_bits n (drop_bit (64 - n) ?u)"
    using writeBits_bytes_spec [OF assms loop] by auto
  have "to_bits n (drop_bit (64 - n) ?u) = to_bits n u"
    using assms(2) by (intro to_bits_cong) (auto simp: bit_simps)
  with m loop writeBits_bits_spec [OF m(3), of m u'] assms(2) show ?thesis
    by (simp add: writeBits_def unat_64_minus)
qed

lemma bits_of_writeBits [bit_lists]:
  "bstream_ok b \<Longrightarrow> n \<le> 64 \<Longrightarrow> bits_of (writeBits b u (int n)) = bits_of b @ to_bits n u"
  by (simp add: writeBits_spec)

lemma bstream_ok_writeBits [go_inv]:
  "bstream_ok b \<Longrightarrow> n \<le> 64 \<Longrightarrow> bstream_ok (writeBits b u (int n))"
  by (simp add: writeBits_spec)

text \<open>The bytes of a stream are its bits, padded with zero bits in the last byte.\<close>

lemma byte_bits_bytes:
  assumes "bstream_ok b"
  shows "byte_bits (bstream_bytes b) = bits_of b @ replicate (unat (b_count b)) False"
proof (cases "b_count b = 0")
  case True
  then show ?thesis by (simp add: bits_of_def bstream_bytes_def)
next
  case False
  with assms obtain xs l where sn: "b_stream b = xs @ [l]"
    by (auto simp: bstream_ok_def) (metis rev_exhaust)
  have "to_bits (unat (b_count b)) l = replicate (unat (b_count b)) False"
    using assms sn by (auto simp: to_bits_def bstream_ok_def list_eq_iff_nth_eq rev_nth)
  then show ?thesis
    using assms bits_of_snoc [OF sn] to_bits_split [of "unat (b_count b)" 8 l] sn
    by (simp add: bstream_bytes_def bstream_ok_def)
qed


section \<open>What the reader does\<close>

lemma rest_of_new [bit_lists, simp]: "rest_of (newBReader bs) = byte_bits bs"
  by (simp add: rest_of_def newBReader_def)

lemma reader_ok_new [go_inv, simp]: "reader_ok (newBReader bs)"
  by (simp add: reader_ok_def newBReader_def)

lemma exp_minus_1_mask: "2 ^ n - 1 = (mask n :: 'a::len word)"
  by (simp add: mask_eq_exp_minus_1)

lemma bit_foldl_or:
  "bit (foldl (\<lambda>w i. w OR f i) w0 xs) k \<longleftrightarrow> bit w0 k \<or> (\<exists>i \<in> set xs. bit (f i :: 'a::len word) k)"
  by (induction xs arbitrary: w0) (auto simp: bit_simps)

lemma bit_load_bytes:
  "bit (load_bytes n bs) k \<longleftrightarrow>
     (\<exists>i < n. k < 64 \<and> 8 * (n - i - 1) \<le> k \<and> bit (bs ! i) (k - 8 * (n - i - 1)))"
  by (auto simp: load_bytes_def bit_foldl_or bit_simps)

lemma bit_load_bytes_Cons:
  assumes "k < 8 * n"
  shows "bit (load_bytes (Suc n) (x # bs)) k = bit (load_bytes n bs) k"
proof -
  have "bit (load_bytes (Suc n) (x # bs)) k \<longleftrightarrow>
     (\<exists>i < Suc n. k < 64 \<and> 8 * (Suc n - i - 1) \<le> k \<and> bit ((x # bs) ! i) (k - 8 * (Suc n - i - 1)))"
    by (rule bit_load_bytes)
  also have "\<dots> \<longleftrightarrow> (\<exists>i < n. k < 64 \<and> 8 * (n - i - 1) \<le> k \<and> bit (bs ! i) (k - 8 * (n - i - 1)))"
    using assms by (subst Ex_less_Suc2) auto
  finally show ?thesis by (simp add: bit_load_bytes)
qed


lemma to_bits_load_bytes:
  assumes "n \<le> length bs" "n \<le> 8"
  shows "to_bits (8 * n) (load_bytes n bs) = byte_bits (take n bs)"
  using assms
proof (induction n arbitrary: bs)
  case 0
  then show ?case by simp
next
  case (Suc n)
  then obtain x bs' where bs: "bs = x # bs'" by (cases bs) auto
  have "to_bits 8 (drop_bit (8 * n) (load_bytes (Suc n) (x # bs'))) = to_bits 8 x"
  proof (rule to_bits_cong)
    fix i :: nat assume "i < 8"
    then show "bit (drop_bit (8 * n) (load_bytes (Suc n) (x # bs'))) i = bit x i"
      using Suc.prems(2) by (auto simp: bit_simps bit_load_bytes Ex_less_Suc2 dest: bit_imp_le_length)
  qed
  moreover have "to_bits (8 * n) (load_bytes (Suc n) (x # bs')) = to_bits (8 * n) (load_bytes n bs')"
    by (intro to_bits_cong bit_load_bytes_Cons)
  ultimately show ?case
    using Suc bs to_bits_add [of 8 "8 * n" "load_bytes (Suc n) (x # bs')"] by simp
qed

lemma BigEndian_Uint64_load: "BigEndian_Uint64 bs = load_bytes 8 bs"
proof -
  have "[0..<8] = [0, 1, 2, 3, 4, 5, 6, 7 :: nat]" by code_simp
  then show ?thesis by (simp add: BigEndian_Uint64_def load_bytes_def ac_simps)
qed

text \<open>Refilling an empty buffer loses no bits, and brings the bits asked for if there are that many.\<close>

lemma loadNextBuffer_False:
  assumes "loadNextBuffer nb r = (False, r')" "r_valid r = 0"
  shows "r' = r \<and> rest_of r = []"
  using assms by (auto simp: loadNextBuffer_def Let_def rest_of_def split: if_splits)

lemma loadNextBuffer_nonempty:
  assumes "rest_of r \<noteq> []" "r_valid r = 0"
  obtains r' where "loadNextBuffer nb r = (True, r')"
  using loadNextBuffer_False [of nb r] assms by (metis (full_types) surj_pair)

text \<open>A refill reads \<open>n\<close> bytes: eight on the fast path, else what was asked for or is left.\<close>

lemma loadNextBuffer_bytes:
  assumes "loadNextBuffer nb r = (True, r')" and "unat nb \<le> 64"
  obtains n where "0 < n" "n \<le> length (drop (r_streamOffset r) (r_stream r))" "n \<le> 8"
    "unat nb \<le> 8 * n \<or> n = length (drop (r_streamOffset r) (r_stream r))"
    "r' = r\<lparr>r_buffer := load_bytes n (drop (r_streamOffset r) (r_stream r)),
            r_streamOffset := r_streamOffset r + n, r_valid := word_of_nat (n * 8)\<rparr>"
proof -
  have lt: "r_streamOffset r < length (r_stream r)"
    using assms(1) by (auto simp: loadNextBuffer_def Let_def split: if_splits)
  have nb8: "unat (nb div 8 + 1) = unat nb div 8 + 1"
    using assms(2) div_le_mono [OF assms(2), of 8] by (simp add: unat_word_ariths unat_div)
  show thesis
  proof (cases "r_streamOffset r + 8 < length (r_stream r)")
    case True
    with assms lt that [of 8] show ?thesis
      by (auto simp: loadNextBuffer_def Let_def BigEndian_Uint64_load)
  next
    case False
    let ?n = "if length (r_stream r) < r_streamOffset r + (unat nb div 8 + 1)
              then length (r_stream r) - r_streamOffset r else unat nb div 8 + 1"
    show ?thesis
    proof (rule that [of ?n])
      show "unat nb \<le> 8 * ?n \<or> ?n = length (drop (r_streamOffset r) (r_stream r))"
        by (cases "length (r_stream r) < r_streamOffset r + (unat nb div 8 + 1)") (simp_all, linarith)
    qed (use False assms lt in \<open>auto simp: loadNextBuffer_def Let_def nb8 split: if_splits\<close>)
  qed
qed

lemma loadNextBuffer_True:
  assumes "loadNextBuffer nb r = (True, r')" "r_valid r = 0" "unat nb \<le> 64"
  shows "rest_of r' = rest_of r" "reader_ok r'" "r_valid r' \<noteq> 0"
    "unat nb \<le> unat (r_valid r') \<or> drop (r_streamOffset r') (r_stream r') = []"
proof -
  obtain n where n: "0 < n" "n \<le> length (drop (r_streamOffset r) (r_stream r))" "n \<le> 8"
    "unat nb \<le> 8 * n \<or> n = length (drop (r_streamOffset r) (r_stream r))"
    and r': "r' = r\<lparr>r_buffer := load_bytes n (drop (r_streamOffset r) (r_stream r)),
            r_streamOffset := r_streamOffset r + n, r_valid := word_of_nat (n * 8)\<rparr>"
    using loadNextBuffer_bytes [OF assms(1,3)] by blast
  have v: "unat (r_valid r') = 8 * n"
    using n(3) by (simp add: r' unat_of_nat take_bit_nat_eq_self del: of_nat_mult)
  show "rest_of r' = rest_of r"
  proof -
    have "rest_of r' = to_bits (8 * n) (load_bytes n (drop (r_streamOffset r) (r_stream r)))
        @ byte_bits (drop (r_streamOffset r + n) (r_stream r))"
      unfolding rest_of_def v by (simp add: r')
    also have "\<dots> = byte_bits (take n (drop (r_streamOffset r) (r_stream r))
        @ drop n (drop (r_streamOffset r) (r_stream r)))"
      using n by (simp add: to_bits_load_bytes add.commute del: append_take_drop_id)
    also have "\<dots> = rest_of r"
      unfolding append_take_drop_id using assms(2) by (simp add: rest_of_def)
    finally show ?thesis .
  qed
  show "reader_ok r'" using v n(3) by (simp add: reader_ok_def)
  show "r_valid r' \<noteq> 0" using v n(1) by (metis mult_is_0 nat_less_le unat_0 zero_neq_numeral)
  show "unat nb \<le> unat (r_valid r') \<or> drop (r_streamOffset r') (r_stream r') = []"
    using n(4) unfolding v by (auto simp: r')
qed

text \<open>Taking \<open>k\<close> bits from a buffer that holds them.\<close>

lemma buffer_take:
  assumes "rest_of r = to_bits (unat nb) w @ xs" "nb \<le> r_valid r"
  shows "take_bit (unat nb) (drop_bit (unat (r_valid r - nb)) (r_buffer r)) = take_bit (unat nb) w"
    and "rest_of (r\<lparr>r_valid := r_valid r - nb\<rparr>) = xs"
proof -
  define k where "k = unat (r_valid r - nb)"
  have k: "unat (r_valid r) = unat nb + k"
    using assms(2) by (simp add: k_def unat_sub word_le_nat_alt)
  have "to_bits (unat nb) (drop_bit k (r_buffer r)) @ to_bits k (r_buffer r)
      @ byte_bits (drop (r_streamOffset r) (r_stream r)) = to_bits (unat nb) w @ xs"
    using assms(1) by (simp only: rest_of_def k to_bits_add append_assoc)
  then have eq: "to_bits (unat nb) (drop_bit k (r_buffer r)) = to_bits (unat nb) w"
    "to_bits k (r_buffer r) @ byte_bits (drop (r_streamOffset r) (r_stream r)) = xs"
    by (simp_all only: append_eq_append_conv length_to_bits disj_not1 simp_thms)
  show "take_bit (unat nb) (drop_bit (unat (r_valid r - nb)) (r_buffer r)) = take_bit (unat nb) w"
    using eq(1) unfolding k_def by (rule to_bits_inject)
  show "rest_of (r\<lparr>r_valid := r_valid r - nb\<rparr>) = xs"
    using eq(2) by (simp add: rest_of_def k_def)
qed

lemma reader_ok_shrink: "reader_ok r \<Longrightarrow> nb \<le> r_valid r \<Longrightarrow> reader_ok (r\<lparr>r_valid := r_valid r - nb\<rparr>)"
  by (simp add: reader_ok_def unat_sub word_le_nat_alt)

lemma readBitsFast_ok:
  assumes "rest_of r = to_bits (unat nb) w @ xs" "nb \<le> r_valid r" "reader_ok r"
  shows "\<exists>r'. readBitsFast nb r = (Inr (take_bit (unat nb) w), r') \<and> rest_of r' = xs \<and> reader_ok r'"
  using buffer_take [OF assms(1,2)] reader_ok_shrink [OF assms(3,2)] assms(2)
  by (simp add: readBitsFast_def Let_def exp_minus_1_mask linorder_not_less flip: take_bit_eq_mask)

lemma readBitsFast_short:
  "r_valid r < nb \<Longrightarrow> readBitsFast nb r = (Inl EOF, r)"
  by (simp add: readBitsFast_def)


lemma join_bits:
  fixes v w :: "'a::len word"
  assumes "take_bit m v = take_bit m (drop_bit n w)"
  shows "push_bit n (take_bit m v) OR take_bit n w = take_bit (m + n) w"
  unfolding assms by (auto intro!: bit_eqI simp: bit_simps)

lemma readBits_buffered_ok:
  assumes rest: "rest_of r = to_bits (unat nb) w @ xs" and ok: "reader_ok r" and nb: "unat nb \<le> 64"
  shows "\<exists>r'. readBits_buffered nb r = (Inr (take_bit (unat nb) w), r') \<and> rest_of r' = xs \<and> reader_ok r'"
proof (cases "nb \<le> r_valid r")
  case True
  with readBitsFast_ok [OF rest True ok] show ?thesis by (simp add: readBits_buffered_def)
next
  case False
  let ?nb = "nb - r_valid r" and ?r = "r\<lparr>r_valid := 0\<rparr>"
  have n: "unat nb = unat (r_valid r) + unat ?nb" "unat ?nb \<noteq> 0"
    using False by (auto simp: unat_sub word_le_nat_alt)
  have "to_bits (unat (r_valid r)) (r_buffer r) @ rest_of ?r
      = to_bits (unat (r_valid r)) (drop_bit (unat ?nb) w) @ to_bits (unat ?nb) w @ xs"
    using rest by (simp only: n(1) to_bits_add) (simp add: rest_of_def)
  then have eq: "to_bits (unat (r_valid r)) (r_buffer r) = to_bits (unat (r_valid r)) (drop_bit (unat ?nb) w)"
    "rest_of ?r = to_bits (unat ?nb) w @ xs"
    by (simp_all only: append_eq_append_conv length_to_bits simp_thms)
  obtain r2 where load: "loadNextBuffer ?nb ?r = (True, r2)"
    using loadNextBuffer_nonempty [of ?r ?nb] eq(2) n(2) by auto
  note r2 = loadNextBuffer_True [OF load]
  have rest2: "rest_of r2 = to_bits (unat ?nb) w @ xs" using r2(1) eq(2) n nb by simp
  have "unat ?nb \<le> unat (r_valid r2)"
    using r2(4) n nb arg_cong [OF rest2, of length] by (auto simp: rest_of_def)
  then have le: "?nb \<le> r_valid r2" by (simp add: word_le_nat_alt)
  note take2 = buffer_take [OF rest2 le]
  have "push_bit (unat ?nb) (take_bit (unat (r_valid r)) (r_buffer r)) OR take_bit (unat ?nb) w
      = take_bit (unat nb) w"
    using join_bits [OF to_bits_inject [OF eq(1)]] n(1) by simp
  then show ?thesis
    using take2 reader_ok_shrink [OF r2(2) le] False load n nb
    by (simp add: readBits_buffered_def Let_def exp_minus_1_mask del: push_bit_and flip: take_bit_eq_mask)
qed

lemma readBits_ok [bit_lists]:
  assumes rest: "rest_of r = to_bits (unat nb) w @ xs" and ok: "reader_ok r"
    and nb: "0 < unat nb" "unat nb \<le> 64"
  shows "\<exists>r'. readBits nb r = (Inr (take_bit (unat nb) w), r') \<and> rest_of r' = xs \<and> reader_ok r'"
proof (cases "r_valid r = 0")
  case False
  with readBits_buffered_ok [OF rest ok nb(2)] show ?thesis by (simp add: readBits_def)
next
  case True
  obtain r2 where load: "loadNextBuffer nb r = (True, r2)"
    using loadNextBuffer_nonempty [OF _ True] rest nb(1) by auto
  note r2 = loadNextBuffer_True [OF load True nb(2)]
  have "rest_of r2 = to_bits (unat nb) w @ xs" using r2(1) rest by simp
  from readBits_buffered_ok [OF this r2(2) nb(2)] True load show ?thesis by (simp add: readBits_def)
qed

lemma readBitFast_ok:
  assumes "rest_of r = x # xs" "r_valid r \<noteq> 0" "reader_ok r"
  shows "\<exists>r'. readBitFast r = (Inr x, r') \<and> rest_of r' = xs \<and> reader_ok r'"
proof -
  have "(1 :: uint8) \<le> r_valid r" using assms(2) by (simp add: word_le_nat_alt Suc_le_eq unat_gt_0)
  moreover from this obtain k where k: "unat (r_valid r) = Suc k" "unat (r_valid r - 1) = k"
    by (cases "unat (r_valid r)") (auto simp: unat_sub word_le_nat_alt)
  ultimately show ?thesis
    using assms reader_ok_shrink [of r 1]
    by (auto simp: readBitFast_def Let_def rest_of_def to_bits_Suc bit_iff_odd_drop_bit
        and_exp_eq_0_iff_not_bit)
qed

lemma readBitFast_empty: "r_valid r = 0 \<Longrightarrow> readBitFast r = (Inl EOF, r)"
  by (simp add: readBitFast_def)

lemma readBit_ok [bit_lists]:
  assumes rest: "rest_of r = x # xs" and ok: "reader_ok r"
  shows "\<exists>r'. readBit r = (Inr x, r') \<and> rest_of r' = xs \<and> reader_ok r'"
proof (cases "r_valid r = 0")
  case False
  with readBitFast_ok [OF rest False ok] show ?thesis by (simp add: readBit_def)
next
  case True
  obtain r2 where load: "loadNextBuffer 1 r = (True, r2)"
    using loadNextBuffer_nonempty [OF _ True] rest by auto
  note r2 = loadNextBuffer_True [OF load True]
  have "rest_of r2 = x # xs" using r2(1) rest by simp
  from readBitFast_ok [OF this r2(3) r2(2)] True load show ?thesis by (simp add: readBit_def)
qed

lemma readBit_EOF: "rest_of r = [] \<Longrightarrow> readBit r = (Inl EOF, r)"
  by (auto simp: readBit_def rest_of_def loadNextBuffer_def unat_eq_0)

lemma ReadByte_ok [bit_lists]:
  assumes "rest_of r = to_bits 8 w @ xs" "reader_ok r"
  shows "\<exists>r'. ReadByte r = (Inr w, r') \<and> rest_of r' = xs \<and> reader_ok r'"
proof -
  have "to_bits 8 w = to_bits (unat (8 :: uint8)) (ucast w :: uint64)"
    by (auto simp: to_bits_eq_iff bit_simps)
  then obtain r' where "readBits 8 r = (Inr (take_bit 8 (ucast w)), r')" "rest_of r' = xs" "reader_ok r'"
    using readBits_ok [of r 8 "ucast w" xs] assms by auto
  moreover have "ucast (take_bit 8 (ucast w :: uint64)) = w"
    by (auto intro!: bit_eqI simp: bit_simps)
  ultimately show ?thesis by (simp add: ReadByte_def)
qed

section \<open>Properties\<close>

text \<open>A list of fields, each a value and a width in bits, written and read one after the other.\<close>

fun writeFields :: "bstream \<Rightarrow> (uint64 \<times> uint8) list \<Rightarrow> bstream" where
  "writeFields b [] = b"
| "writeFields b ((u, n) # fs) = writeFields (writeBits b u (uint n)) fs"

fun readFields :: "uint8 list \<Rightarrow> bstreamReader \<Rightarrow> uint64 list result" where
  "readFields [] r = Inr []"
| "readFields (n # ns) r =
     (case readBits n r of (Inl e, _) \<Rightarrow> Inl e | (Inr u, r) \<Rightarrow> map_sum id ((#) u) (readFields ns r))"

lemma writeFields_bits:
  "bstream_ok b \<Longrightarrow> \<forall>(u, n) \<in> set fs. n \<le> 64 \<Longrightarrow>
   bstream_ok (writeFields b fs) \<and>
   bits_of (writeFields b fs) = bits_of b @ concat (map (\<lambda>(u, n). to_bits (unat n) u) fs)"
proof (induction fs arbitrary: b)
  case (Cons f fs)
  obtain u n where f: "f = (u, n)" by fastforce
  have "unat n \<le> 64" using Cons.prems(2) f by (simp add: word_le_nat_alt)
  hence "bstream_ok (writeBits b u (uint n))" "bits_of (writeBits b u (uint n)) = bits_of b @ to_bits (unat n) u"
    using Cons.prems(1) bits_of_writeBits [of b "unat n" u] bstream_ok_writeBits [of b "unat n" u] by simp_all
  thus ?case using Cons f by simp
qed simp

lemma readFields_bits:
  "reader_ok r \<Longrightarrow> \<forall>(u, n) \<in> set fs. 0 < n \<and> n \<le> 64 \<Longrightarrow>
   rest_of r = concat (map (\<lambda>(u, n). to_bits (unat n) u) fs) @ xs \<Longrightarrow>
   readFields (map snd fs) r = Inr (map (\<lambda>(u, n). take_bit (unat n) u) fs)"
proof (induction fs arbitrary: r)
  case (Cons f fs)
  obtain u n where f: "f = (u, n)" by fastforce
  have "0 < unat n" "unat n \<le> 64" using Cons.prems(2) f by (auto simp: word_le_nat_alt word_less_nat_alt)
  then obtain r' where "readBits n r = (Inr (take_bit (unat n) u), r')" "reader_ok r'"
    "rest_of r' = concat (map (\<lambda>(u, n). to_bits (unat n) u) fs) @ xs"
    using readBits_ok [of r n u] Cons.prems(1,3) f by auto
  thus ?case using Cons f by simp
qed simp

text \<open>
  C21: What is written to a bit stream is read back: fields of 1 to 64 bits, at any bit offset and
  across bytes and the reader's 64-bit buffer, are returned in order, each cut to its width.
\<close>

theorem bstream_roundtrip:
  assumes "\<forall>(u, n) \<in> set fs. 0 < n \<and> n \<le> 64"
  shows "readFields (map snd fs) (newBReader (bstream_bytes (writeFields new_bstream fs)))
    = Inr (map (\<lambda>(u, n). take_bit (unat n) u) fs)"
proof -
  have "\<forall>(u, n) \<in> set fs. n \<le> 64" using assms by auto
  from writeFields_bits [OF bstream_ok_new this] byte_bits_bytes
  obtain k where "byte_bits (bstream_bytes (writeFields new_bstream fs))
      = concat (map (\<lambda>(u, n). to_bits (unat n) u) fs) @ replicate k False"
    by fastforce
  thus ?thesis using readFields_bits [OF reader_ok_new assms] by simp
qed

theorem bstream_roundtrip_witness:
  "readFields [3, 64, 5] (newBReader (bstream_bytes (writeFields new_bstream
     [(13, 3), (0x0123456789ABCDEF, 64), (31, 5)]))) = Inr [5, 0x0123456789ABCDEF, 31]"
  using bstream_roundtrip [of "[(13, 3), (0x0123456789ABCDEF, 64), (31, 5)]"] by (simp add: take_bit_eq_mod)

text \<open>
  A truncated stream is not always reported: with eleven bits left, a read of 64 bits returns
  no error but the remaining bits shifted up, because the buffer is refilled with whatever is
  left and \<open>b.valid - nbits\<close> wraps around.
\<close>

theorem truncated_read_no_EOF:
  "fst (readBits 64 (snd (readBits 5 (newBReader [0xFF, 0xFF])))) = Inr 0xE000000000000000"
  by code_simp

end
