(* ===== verification/Go_Varint.thy ===== *)
theory Go_Varint
  imports Bit_Stream
begin

text \<open>
  The variable-length integers of Go's \<open>encoding/binary\<close>, which both the Gorilla encoder and
  the write-ahead log use. \<open>PutUvarint\<close> and \<open>PutVarint\<close> give the bytes they leave in the
  front of their buffer; \<open>ReadUvarint\<close> and \<open>ReadVarint\<close> take an \<open>io.ByteReader\<close>, here the
  function that reads one byte from a reader state. What they rely on is the locale
  \<open>byte_reader\<close>, interpreted below on the bit-stream reader and in the theory of the
  write-ahead log on its segment reader.
\<close>

definition MaxVarintLen64 :: nat where
  "MaxVarintLen64 = 10"

lemma unat_drop_bit_7: "unat (drop_bit 7 (x :: uint64)) = unat x div 128"
  by (simp add: drop_bit_eq_div unat_div)

lemma drop_bit_7_less: "\<not> x < 128 \<Longrightarrow> unat (drop_bit 7 (x :: uint64)) < unat x"
  by (simp add: unat_drop_bit_7 word_less_nat_alt)

function PutUvarint :: "uint64 \<Rightarrow> byte list" where
  "PutUvarint x =
     (if x < 128 then [ucast x] else (ucast x OR 128) # PutUvarint (drop_bit 7 x))"
  by pat_completeness auto
termination
  by (relation "measure unat") (auto simp: drop_bit_7_less)

definition zigzag :: "int64 \<Rightarrow> uint64" where
  "zigzag x = (let ux = push_bit 1 (to_uint64 x) in if x < 0 then NOT ux else ux)"

definition PutVarint :: "int64 \<Rightarrow> byte list" where
  "PutVarint x = PutUvarint (zigzag x)"

function ReadUvarint_loop ::
  "('s \<Rightarrow> byte result \<times> 's) \<Rightarrow> nat \<Rightarrow> uint64 \<Rightarrow> nat \<Rightarrow> 's \<Rightarrow> uint64 result \<times> 's" where
  "ReadUvarint_loop rb i x s st =
     (if i < MaxVarintLen64 then
        (case rb st of
           (Inl err, st) \<Rightarrow> (Inl (if 0 < i \<and> err = EOF then ErrUnexpectedEOF else err), st)
         | (Inr b, st) \<Rightarrow>
             if b < 128 then
               (if i = MaxVarintLen64 - 1 \<and> 1 < b then (Inl ErrOverflow, st)
                else (Inr (x OR push_bit s (ucast b)), st))
             else ReadUvarint_loop rb (i + 1) (x OR push_bit s (ucast (b AND 127))) (s + 7) st)
      else (Inl ErrOverflow, st))"
  by pat_completeness auto
termination
  by (relation "measure (\<lambda>(rb, i, x, s, st). MaxVarintLen64 - i)") auto

declare PutUvarint.simps [simp del] ReadUvarint_loop.simps [simp del]

definition ReadUvarint :: "('s \<Rightarrow> byte result \<times> 's) \<Rightarrow> 's \<Rightarrow> uint64 result \<times> 's" where
  "ReadUvarint rb st = ReadUvarint_loop rb 0 0 0 st"

definition unzigzag :: "uint64 \<Rightarrow> int64" where
  "unzigzag ux = (let x = to_int64 (drop_bit 1 ux) in if ux AND 1 \<noteq> 0 then NOT x else x)"

definition ReadVarint :: "('s \<Rightarrow> byte result \<times> 's) \<Rightarrow> 's \<Rightarrow> int64 result \<times> 's" where
  "ReadVarint rb st = andThen (ReadUvarint rb st) (\<lambda>ux st. (Inr (unzigzag ux), st)) id"

section \<open>The encodings\<close>

lemma PutUvarint_not_Nil [simp]: "PutUvarint u \<noteq> []"
  by (subst PutUvarint.simps) simp

lemma length_PutUvarint_le:
  assumes "unat u < 2 ^ (7 * Suc n)"
  shows "length (PutUvarint u) \<le> Suc n"
  using assms
proof (induction n arbitrary: u)
  case 0
  then show ?case by (subst PutUvarint.simps) (simp add: word_less_nat_alt)
next
  case (Suc n)
  have "unat (drop_bit 7 u) < 2 ^ (7 * Suc n)"
    using Suc.prems by (simp add: unat_drop_bit_7 less_mult_imp_div_less power_add)
  with Suc.IH show ?case by (subst PutUvarint.simps) simp
qed

text \<open>The encoding fits the \<open>MaxVarintLen64\<close>-byte buffers its callers give it.\<close>

lemma length_PutUvarint: "length (PutUvarint u) \<le> MaxVarintLen64"
proof -
  have "unat u < 2 ^ (7 * Suc 9)"
    using unsigned_less [of u, where 'a = nat] by (rule less_le_trans) simp
  then show ?thesis using length_PutUvarint_le [of u 9] by (simp add: MaxVarintLen64_def)
qed

lemma bit_to_uint64_63:
  assumes "int64_range x"
  shows "bit (to_uint64 x) 63 \<longleftrightarrow> x < 0"
proof -
  have "x div 2 ^ 63 = (if x < 0 then - 1 else 0)"
    using assms by (auto simp: int64_range_def intro: int_div_pos_eq [where r = "x + 2 ^ 63"])
  then have "bit x 63 \<longleftrightarrow> x < 0" by (simp add: bit_iff_odd)
  then show ?thesis by (simp add: to_uint64_def bit_word_of_int_iff)
qed

lemma unzigzag_zigzag [simp]:
  assumes x: "int64_range x"
  shows "unzigzag (zigzag x) = x"
proof (cases "x < 0")
  case True
  have "drop_bit 1 (NOT (push_bit 1 (to_uint64 x))) = NOT (to_uint64 x)"
  proof (rule bit_eqI)
    fix n assume "possible_bit TYPE(uint64) n"
    then show "bit (drop_bit 1 (NOT (push_bit 1 (to_uint64 x)))) n = bit (NOT (to_uint64 x)) n"
      using True bit_to_uint64_63 [OF x] by (cases "n = 63") (auto simp: bit_simps)
  qed
  moreover have "bit (NOT (push_bit 1 (to_uint64 x)) AND 1) 0"
    by (simp only: bit_and_iff bit_not_iff bit_push_bit_iff bit_1_iff) simp
  then have "NOT (push_bit 1 (to_uint64 x)) AND 1 \<noteq> 0"
    by (metis bit_0_eq bot_apply bot_bool_def)
  moreover have "NOT (to_int64 (NOT (to_uint64 x))) = x"
    using x int64_range_not [OF x] by (simp flip: to_uint64_not)
  ultimately show ?thesis using True by (simp add: unzigzag_def zigzag_def Let_def)
next
  case False
  have "drop_bit 1 (push_bit 1 (to_uint64 x)) = to_uint64 x"
  proof (rule bit_eqI)
    fix n assume "possible_bit TYPE(uint64) n"
    then show "bit (drop_bit 1 (push_bit 1 (to_uint64 x))) n = bit (to_uint64 x) n"
      using False bit_to_uint64_63 [OF x] by (cases "n = 63") (auto simp: bit_simps)
  qed
  moreover have "push_bit 1 (to_uint64 x) AND 1 = 0"
    by (rule bit_eqI) (simp only: bit_and_iff bit_push_bit_iff bit_1_iff, auto)
  ultimately show ?thesis using False x by (simp add: unzigzag_def zigzag_def Let_def)
qed

section \<open>The seven-bit groups\<close>

lemma unat_ucast_byte: "u < 128 \<Longrightarrow> unat (ucast (u :: uint64) :: byte) = unat u"
  by (simp add: unsigned_ucast_eq word_less_nat_alt take_bit_nat_eq_self)

lemma ucast_ucast_byte: "u < 128 \<Longrightarrow> ucast (ucast (u :: uint64) :: byte) = u"
  by (simp add: word_unat_eq_iff unsigned_ucast_eq word_less_nat_alt unsigned_take_bit_eq
      take_bit_nat_eq_self)

lemma byte_less_128: "(x :: byte) < 128 \<longleftrightarrow> \<not> bit x 7"
proof -
  have "unat x < 256" using unsigned_less [of x, where 'a = nat] by simp
  then have "unat x div 128 = (if unat x < 128 then 0 else 1)" by auto
  moreover have "bit x 7 \<longleftrightarrow> odd (unat x div 128)"
    using bit_unsigned_iff [of x 7, where 'a = nat] by (simp add: bit_iff_odd)
  ultimately show ?thesis by (simp add: word_less_nat_alt)
qed

lemma bit_128: "bit (128 :: byte) n \<longleftrightarrow> n = 7"
  using bit_exp_iff [of 7 n, where 'a = byte] by auto

lemma bit_127: "bit (127 :: byte) n \<longleftrightarrow> n < 7"
  using bit_mask_iff [of 7 n, where 'a = byte] by (auto simp: mask_eq_exp_minus_1)

lemma continuation_byte: "\<not> (ucast (u :: uint64) OR 128 :: byte) < 128"
  by (simp add: byte_less_128 bit_simps)

lemma continuation_payload: "ucast ((ucast u OR 128 :: byte) AND 127) = take_bit 7 (u :: uint64)"
  by (rule bit_eqI)
     (simp only: bit_unsigned_iff bit_and_iff bit_or_iff bit_take_bit_iff bit_127 bit_128, auto)

lemma join_groups: "push_bit n (take_bit 7 u) OR push_bit (7 + n) (drop_bit 7 u) = push_bit n (u :: uint64)"
proof -
  have "push_bit n (take_bit 7 u) OR push_bit (n + 7) (drop_bit 7 u)
      = push_bit n (take_bit 7 u OR push_bit 7 (drop_bit 7 u))"
    by (simp only: push_bit_or push_bit_push_bit)
  also have "take_bit 7 u OR push_bit 7 (drop_bit 7 u) = u"
    by (auto intro!: bit_eqI simp: bit_simps)
  finally show ?thesis by (simp add: add.commute)
qed

lemma div_128_less:
  assumes "(u :: nat) < 2 ^ (64 - 7 * i)" "i < 9"
  shows "u div 128 < 2 ^ (64 - 7 * Suc i)"
proof -
  have e: "64 - 7 * i = (64 - 7 * Suc i) + 7" using assms(2) by simp
  have "u < 2 ^ (64 - 7 * Suc i) * 128" using assms(1) unfolding e power_add by simp
  then show ?thesis by (rule less_mult_imp_div_less)
qed

section \<open>Reading what was put\<close>

text \<open>
  What the readers of varints need of an \<open>io.ByteReader\<close>: while the reader stands in a good
  state before the eight bits of a byte, reading gives that byte and steps over it.
\<close>

locale byte_reader =
  fixes rb :: "'s \<Rightarrow> byte result \<times> 's"
    and left :: "'s \<Rightarrow> bool list"
    and good :: "'s \<Rightarrow> bool"
  assumes read_byte: "good st \<Longrightarrow> left st = to_bits 8 b @ xs \<Longrightarrow>
      \<exists>st'. rb st = (Inr b, st') \<and> left st' = xs \<and> good st'"
begin

lemma ReadUvarint_loop_put:
  assumes "good st" "left st = byte_bits (PutUvarint u) @ xs" "i \<le> 9" "unat u < 2 ^ (64 - 7 * i)"
  shows "\<exists>st'. ReadUvarint_loop rb i x (7 * i) st = (Inr (x OR push_bit (7 * i) u), st')
           \<and> left st' = xs \<and> good st'"
  using assms
proof (induction u arbitrary: i x st rule: PutUvarint.induct)
  case (1 u)
  show ?case
  proof (cases "u < 128")
    case True
    have "PutUvarint u = [ucast u]" using True by (subst PutUvarint.simps) simp
    then obtain st' where st': "rb st = (Inr (ucast u), st')" "left st' = xs" "good st'"
      using read_byte [OF 1(2), of "ucast u" xs] 1(3) by auto
    have "(ucast u :: byte) < 128" "i = 9 \<Longrightarrow> \<not> 1 < (ucast u :: byte)"
      using True 1(5) by (simp_all add: word_less_nat_alt unat_ucast_byte)
    then show ?thesis
      using st' 1(4) True
      by (subst ReadUvarint_loop.simps) (auto simp: MaxVarintLen64_def ucast_ucast_byte)
  next
    case False
    let ?b = "ucast u OR 128 :: byte" and ?u = "drop_bit 7 u"
    have "PutUvarint u = ?b # PutUvarint ?u" using False by (subst PutUvarint.simps) simp
    then obtain st' where st': "rb st = (Inr ?b, st')" "left st' = byte_bits (PutUvarint ?u) @ xs"
      "good st'"
      using read_byte [OF 1(2), of ?b "byte_bits (PutUvarint ?u) @ xs"] 1(3) by auto
    have i: "i < 9"
      using 1(4,5) False by (cases "i = 9") (simp_all add: word_less_nat_alt)
    have "unat ?u < 2 ^ (64 - 7 * Suc i)"
      using div_128_less [OF 1(5) i] by (simp only: unat_drop_bit_7)
    moreover have "(x OR push_bit (7 * i) (take_bit 7 u)) OR push_bit (7 * Suc i) ?u = x OR push_bit (7 * i) u"
      by (simp add: or.assoc join_groups del: push_bit_take_bit)
    ultimately show ?thesis
      using 1(1) [OF False st'(3,2), of "Suc i" "x OR push_bit (7 * i) (take_bit 7 u)"] i st'(1)
      by (subst ReadUvarint_loop.simps)
         (simp add: MaxVarintLen64_def continuation_byte continuation_payload add.commute
           del: unsigned_or_eq unsigned_and_eq push_bit_take_bit)
  qed
qed

lemma ReadUvarint_put:
  assumes "good st" "left st = byte_bits (PutUvarint u) @ xs"
  shows "\<exists>st'. ReadUvarint rb st = (Inr u, st') \<and> left st' = xs \<and> good st'"
  using ReadUvarint_loop_put [OF assms, of 0 0] unsigned_less [of u, where 'a = nat]
  by (simp add: ReadUvarint_def)

lemma ReadVarint_put:
  assumes "good st" "left st = byte_bits (PutVarint x) @ xs" "int64_range x"
  shows "\<exists>st'. ReadVarint rb st = (Inr x, st') \<and> left st' = xs \<and> good st'"
  using ReadUvarint_put [of st "zigzag x" xs] assms by (auto simp: ReadVarint_def PutVarint_def)

end

interpretation bit_reader: byte_reader ReadByte rest_of reader_ok
  by unfold_locales (rule ReadByte_ok)

end
