(* ===== verification/Gorilla.thy ===== *)
theory Gorilla
  imports Go_Varint Data_Model
begin

text \<open>
  The Gorilla compression of \<open>src/encoding.go\<close>: the encoder \<open>gorillaEncoder\<close>, which writes
  delta-of-delta timestamps and XORed values to a bit stream and hands the bytes to an
  \<open>io.Writer\<close> at \<open>flush\<close>, and the decoder \<open>gorillaDecoder\<close>. The writer is a parameter of
  \<open>gorilla_flush\<close>, a function from its state and the bytes to a result and its new state.
\<close>

section \<open>Leading and trailing zeros\<close>

text \<open>\<open>bits.LeadingZeros64\<close> and \<open>bits.TrailingZeros64\<close> of Go's \<open>math/bits\<close>; both give 64 for 0.\<close>

definition LeadingZeros64 :: "uint64 \<Rightarrow> nat" where
  "LeadingZeros64 x = length (takeWhile Not (to_bits 64 x))"

definition TrailingZeros64 :: "uint64 \<Rightarrow> nat" where
  "TrailingZeros64 x = length (takeWhile Not (rev (to_bits 64 x)))"

section \<open>The encoder\<close>

record 'w gorillaEncoder =
  e_w :: 'w
  e_buf :: bstream
  e_t0 :: int64
  e_t1 :: int64
  e_t :: int64
  e_tDelta :: uint64
  e_v :: float64
  e_leading :: uint8
  e_trailing :: uint8

definition newSeriesEncoder :: "'w \<Rightarrow> 'w gorillaEncoder" where
  "newSeriesEncoder w = \<lparr>e_w = w, e_buf = new_bstream, e_t0 = 0, e_t1 = 0, e_t = 0,
     e_tDelta = 0, e_v = 0, e_leading = 0, e_trailing = 0\<rparr>"

definition writeVDelta :: "'w gorillaEncoder \<Rightarrow> float64 \<Rightarrow> 'w gorillaEncoder" where
  "writeVDelta e v =
     (let vDelta = v XOR e_v e in
      if vDelta = 0 then e\<lparr>e_buf := writeBit (e_buf e) False\<rparr>
      else
        let buf = writeBit (e_buf e) True;
            leading = word_of_nat (LeadingZeros64 vDelta) :: uint8;
            trailing = word_of_nat (TrailingZeros64 vDelta) :: uint8;
            leading = (if 32 \<le> leading then 31 else leading)
        in if e_leading e \<noteq> 0xff \<and> e_leading e \<le> leading \<and> e_trailing e \<le> trailing
           then let buf = writeBit buf False
                in e\<lparr>e_buf := writeBits buf (drop_bit (unat (e_trailing e)) vDelta)
                       (64 - uint (e_leading e) - uint (e_trailing e))\<rparr>
           else let buf = writeBit buf True;
                    buf = writeBits buf (ucast leading) 5;
                    sigbits = 64 - leading - trailing;
                    buf = writeBits buf (ucast sigbits) 6;
                    buf = writeBits buf (drop_bit (unat trailing) vDelta) (uint sigbits)
                in e\<lparr>e_leading := leading, e_trailing := trailing, e_buf := buf\<rparr>)"

text \<open>The timestamp part of the third and every later point.\<close>

definition write_dod :: "bstream \<Rightarrow> int64 \<Rightarrow> bstream" where
  "write_dod buf deltaOfDelta =
     (if deltaOfDelta = 0 then writeBit buf False
      else if - 63 \<le> deltaOfDelta \<and> deltaOfDelta \<le> 64
      then writeBits (writeBits buf 0x02 2) (to_uint64 deltaOfDelta) 7
      else if - 255 \<le> deltaOfDelta \<and> deltaOfDelta \<le> 256
      then writeBits (writeBits buf 0x06 3) (to_uint64 deltaOfDelta) 9
      else if - 2047 \<le> deltaOfDelta \<and> deltaOfDelta \<le> 2048
      then writeBits (writeBits buf 0x0e 4) (to_uint64 deltaOfDelta) 12
      else writeBits (writeBits buf 0x0f 4) (to_uint64 deltaOfDelta) 64)"

definition encodePoint :: "'w gorillaEncoder \<Rightarrow> DataPoint \<Rightarrow> unit result \<times> 'w gorillaEncoder" where
  "encodePoint e p =
     (let (e, tDelta) =
        (if e_t0 e = 0 then
           let buf = foldl writeByte (e_buf e) (PutVarint (dp_Timestamp p));
               buf = writeBits buf (dp_Value p) 64
           in (e\<lparr>e_buf := buf, e_t0 := dp_Timestamp p\<rparr>, 0)
         else if e_t1 e = 0 then
           let tDelta = to_uint64 (wrap64 (dp_Timestamp p - e_t0 e));
               e = e\<lparr>e_buf := foldl writeByte (e_buf e) (PutUvarint tDelta)\<rparr>;
               e = writeVDelta e (dp_Value p)
           in (e\<lparr>e_t1 := dp_Timestamp p\<rparr>, tDelta)
         else
           let tDelta = to_uint64 (wrap64 (dp_Timestamp p - e_t e));
               deltaOfDelta = to_int64 (tDelta - e_tDelta e);
               e = e\<lparr>e_buf := write_dod (e_buf e) deltaOfDelta\<rparr>
           in (writeVDelta e (dp_Value p), tDelta))
      in (Inr (), e\<lparr>e_t := dp_Timestamp p, e_v := dp_Value p, e_tDelta := tDelta\<rparr>))"

definition gorilla_flush ::
  "('w \<Rightarrow> byte list \<Rightarrow> unit result \<times> 'w) \<Rightarrow> 'w gorillaEncoder \<Rightarrow> unit result \<times> 'w gorillaEncoder"
  where
  "gorilla_flush write e =
     (case write (e_w e) (bstream_bytes (e_buf e)) of
        (Inl err, w) \<Rightarrow> (Inl (Wrapf ''failed to flush buffered bytes'' err), e\<lparr>e_w := w\<rparr>)
      | (Inr _, w) \<Rightarrow>
          (Inr (), e\<lparr>e_w := w, e_buf := bstream_reset (e_buf e), e_t0 := 0, e_t1 := 0, e_t := 0,
                     e_tDelta := 0, e_v := 0, e_leading := 0, e_trailing := 0\<rparr>))"

section \<open>The decoder\<close>

record gorillaDecoder =
  d_br :: bstreamReader
  d_numRead :: uint16
  d_t :: int64
  d_tDelta :: uint64
  d_v :: float64
  d_leading :: uint8
  d_trailing :: uint8

text \<open>\<open>newSeriesDecoder\<close> reads its reader to the end; \<open>bs\<close> are the bytes that gives.\<close>

definition newSeriesDecoder :: "byte list \<Rightarrow> gorillaDecoder" where
  "newSeriesDecoder bs = \<lparr>d_br = newBReader bs, d_numRead = 0, d_t = 0, d_tDelta = 0, d_v = 0,
     d_leading = 0, d_trailing = 0\<rparr>"

text \<open>The fast read, and the slow one when the buffer is empty or too short.\<close>

definition readBitRetry :: "bstreamReader \<Rightarrow> bool result \<times> bstreamReader" where
  "readBitRetry r = (case readBitFast r of (Inl _, r) \<Rightarrow> readBit r | (Inr b, r) \<Rightarrow> (Inr b, r))"

definition readBitsRetry :: "uint8 \<Rightarrow> bstreamReader \<Rightarrow> uint64 result \<times> bstreamReader" where
  "readBitsRetry n r = (case readBitsFast n r of (Inl _, r) \<Rightarrow> readBits n r | (Inr v, r) \<Rightarrow> (Inr v, r))"

text \<open>The XORed value: \<open>read_window\<close> gives the window of significant bits of the next value.\<close>

definition read_window :: "gorillaDecoder \<Rightarrow> unit result \<times> gorillaDecoder" where
  "read_window d =
     andThen (readBitsRetry 5 (d_br d)) (\<lambda>bits br.
       let d = d\<lparr>d_leading := ucast bits, d_br := br\<rparr> in
       andThen (readBitsRetry 6 (d_br d)) (\<lambda>bits br.
         let mbits = ucast bits;
             mbits = (if mbits = 0 then 64 else mbits)
         in (Inr (), d\<lparr>d_trailing := 64 - d_leading d - mbits, d_br := br\<rparr>))
         (\<lambda>br. d\<lparr>d_br := br\<rparr>))
       (\<lambda>br. d\<lparr>d_br := br\<rparr>)"

definition read_xor :: "gorillaDecoder \<Rightarrow> unit result \<times> gorillaDecoder" where
  "read_xor d =
     (let mbits = 64 - d_leading d - d_trailing d in
      andThen (readBitsRetry mbits (d_br d)) (\<lambda>bits br.
        (Inr (), d\<lparr>d_br := br, d_v := d_v d XOR push_bit (unat (d_trailing d)) bits\<rparr>))
        (\<lambda>br. d\<lparr>d_br := br\<rparr>))"

definition readValue :: "gorillaDecoder \<Rightarrow> unit result \<times> gorillaDecoder" where
  "readValue d =
     andThen (readBitRetry (d_br d)) (\<lambda>bt br.
       let d = d\<lparr>d_br := br\<rparr> in
       if \<not> bt then (Inr (), d)
       else
         andThen (readBitRetry (d_br d)) (\<lambda>bt br.
           let d = d\<lparr>d_br := br\<rparr> in
           andThen (if \<not> bt then (Inr (), d) else read_window d) (\<lambda>_ d. read_xor d) id)
           (\<lambda>br. d\<lparr>d_br := br\<rparr>))
       (\<lambda>br. d\<lparr>d_br := br\<rparr>)"

text \<open>The delimiter loop: up to \<open>n\<close> more bits, stopping after a zero.\<close>

fun readDelimiter :: "nat \<Rightarrow> byte \<Rightarrow> bstreamReader \<Rightarrow> byte result \<times> bstreamReader" where
  "readDelimiter 0 delimiter r = (Inr delimiter, r)"
| "readDelimiter (Suc n) delimiter r =
     (let delimiter = push_bit 1 delimiter in
      case readBitRetry r of
        (Inl err, r) \<Rightarrow> (Inl err, r)
      | (Inr bt, r) \<Rightarrow> if \<not> bt then (Inr delimiter, r) else readDelimiter n (delimiter OR 1) r)"

text \<open>The sized read of a delta of deltas: values above \<open>2 ^ (sz - 1)\<close> stand for negative ones.\<close>

definition read_sized :: "uint8 \<Rightarrow> bstreamReader \<Rightarrow> int64 result \<times> bstreamReader" where
  "read_sized sz r =
     andThen (readBitsRetry sz r) (\<lambda>bits r.
       let bits = (if push_bit (unat (sz - 1)) 1 < bits then bits - push_bit (unat sz) 1 else bits)
       in (Inr (to_int64 bits), r)) id"

definition read_dod :: "bstreamReader \<Rightarrow> int64 result \<times> bstreamReader" where
  "read_dod r =
     andThen (readDelimiter 4 0 r) (\<lambda>delimiter r.
       if delimiter = 0x00 then (Inr 0, r)
       else if delimiter = 0x02 then read_sized 7 r
       else if delimiter = 0x06 then read_sized 9 r
       else if delimiter = 0x0e then read_sized 12 r
       else if delimiter = 0x0f then andThen (readBits 64 r) (\<lambda>bits r. (Inr (to_int64 bits), r)) id
       else (Inl (Errorf ''unknown delimiter found''), r)) id"

definition decodePoint :: "gorillaDecoder \<Rightarrow> DataPoint result \<times> gorillaDecoder" where
  "decodePoint d =
     (if d_numRead d = 0 then
        (case ReadVarint ReadByte (d_br d) of
           (Inl err, br) \<Rightarrow> (Inl (Wrapf ''failed to read Timestamp of T0'' err), d\<lparr>d_br := br\<rparr>)
         | (Inr t, br) \<Rightarrow>
             (case readBits 64 br of
                (Inl err, br) \<Rightarrow> (Inl (Wrapf ''failed to read Value of T0'' err), d\<lparr>d_br := br\<rparr>)
              | (Inr v, br) \<Rightarrow>
                  (Inr (point t v), d\<lparr>d_br := br, d_t := t, d_v := v, d_numRead := d_numRead d + 1\<rparr>)))
      else if d_numRead d = 1 then
        andThen (ReadUvarint ReadByte (d_br d)) (\<lambda>tDelta br.
          let d = d\<lparr>d_br := br, d_tDelta := tDelta, d_t := wrap64 (d_t d + to_int64 tDelta)\<rparr> in
          andThen (readValue d) (\<lambda>_ d.
            let d = d\<lparr>d_numRead := d_numRead d + 1\<rparr>
            in (Inr (point (d_t d) (d_v d)), d)) id)
          (\<lambda>br. d\<lparr>d_br := br\<rparr>)
      else
        andThen (read_dod (d_br d)) (\<lambda>deltaOfDelta br.
          let d = d\<lparr>d_br := br, d_tDelta := to_uint64 (wrap64 (to_int64 (d_tDelta d) + deltaOfDelta))\<rparr>;
              d = d\<lparr>d_t := wrap64 (d_t d + to_int64 (d_tDelta d))\<rparr>
          in andThen (readValue d) (\<lambda>_ d. (Inr (point (d_t d) (d_v d)), d)) id)
          (\<lambda>br. d\<lparr>d_br := br\<rparr>))"

definition bitRange :: "int64 \<Rightarrow> uint8 \<Rightarrow> bool" where
  "bitRange x nbits \<longleftrightarrow>
     (let k = wrap64 (push_bit (unat (nbits - 1)) 1)
      in wrap64 (- wrap64 (k - 1)) \<le> x \<and> x \<le> k)"

section \<open>Whole series\<close>

text \<open>
  The loops around the encoder and decoder: all points of a series, in order, and \<open>n\<close> calls
  of \<open>decodePoint\<close>.
\<close>

fun encodePoints :: "'w gorillaEncoder \<Rightarrow> DataPoint list \<Rightarrow> 'w gorillaEncoder" where
  "encodePoints e [] = e"
| "encodePoints e (p # ps) = encodePoints (snd (encodePoint e p)) ps"

fun decodePoints :: "nat \<Rightarrow> gorillaDecoder \<Rightarrow> DataPoint list result" where
  "decodePoints 0 d = Inr []"
| "decodePoints (Suc n) d =
     (case decodePoint d of
        (Inl err, _) \<Rightarrow> Inl err
      | (Inr p, d) \<Rightarrow> map_sum id (\<lambda>ps. p # ps) (decodePoints n d))"

text \<open>The bytes of one series: a fresh encoder's buffer after all points.\<close>

definition series_bytes :: "DataPoint list \<Rightarrow> byte list" where
  "series_bytes ps = bstream_bytes (e_buf (encodePoints (newSeriesEncoder ([] :: byte list)) ps))"


section \<open>Bit-level facts\<close>

lemma LeadingZeros64_above: "n < 64 \<Longrightarrow> 64 - LeadingZeros64 x \<le> n \<Longrightarrow> \<not> bit x n"
proof -
  assume n: "n < 64" "64 - LeadingZeros64 x \<le> n"
  then have "63 - n < length (takeWhile Not (to_bits 64 x))" by (simp add: LeadingZeros64_def)
  then have "\<not> (to_bits 64 x ! (63 - n))"
    by (metis nth_mem set_takeWhileD takeWhile_nth)
  with n show ?thesis by (simp add: to_bits_def rev_nth)
qed

lemma TrailingZeros64_below: "n < TrailingZeros64 x \<Longrightarrow> \<not> bit x n"
proof -
  assume n: "n < TrailingZeros64 x"
  then have "\<not> (rev (to_bits 64 x) ! n)"
    unfolding TrailingZeros64_def by (metis nth_mem set_takeWhileD takeWhile_nth)
  moreover have "n < 64"
    using n length_takeWhile_le [of Not "rev (to_bits 64 x)"] by (simp add: TrailingZeros64_def)
  ultimately show ?thesis by (simp add: to_bits_def rev_nth)
qed

lemma LeadingZeros64_less: "x \<noteq> 0 \<Longrightarrow> LeadingZeros64 x < 64"
proof -
  assume "x \<noteq> 0"
  then obtain n where "bit x n" by (auto simp: bit_eq_iff)
  then have "n < 64" using bit_imp_le_length [of x n] by simp
  with \<open>bit x n\<close> LeadingZeros64_above [of n x] show ?thesis
    by (cases "64 - LeadingZeros64 x") auto
qed

lemma LeadingZeros64_bit: "x \<noteq> 0 \<Longrightarrow> bit x (63 - LeadingZeros64 x)"
proof -
  assume "x \<noteq> 0"
  then have l: "LeadingZeros64 x < length (to_bits 64 x)" using LeadingZeros64_less by simp
  then have "to_bits 64 x ! LeadingZeros64 x"
    unfolding LeadingZeros64_def using nth_length_takeWhile by blast
  with l show ?thesis by (simp add: to_bits_def rev_nth)
qed

lemma LeadingZeros64_TrailingZeros64: "x \<noteq> 0 \<Longrightarrow> LeadingZeros64 x + TrailingZeros64 x < 64"
  using LeadingZeros64_bit [of x] LeadingZeros64_less [of x]
    TrailingZeros64_below [of "63 - LeadingZeros64 x" x]
  by (cases "63 - LeadingZeros64 x < TrailingZeros64 x") auto

lemma window_restores:
  assumes "l \<le> LeadingZeros64 x" "t \<le> TrailingZeros64 x" "l + t < 64"
  shows "push_bit t (take_bit (64 - l - t) (drop_bit t x)) = x"
proof (rule bit_eqI)
  fix n assume "possible_bit TYPE(uint64) n"
  then have "n < 64" by simp
  have "t \<le> n \<and> n < 64 - l" if "bit x n"
    using that TrailingZeros64_below [of n x] LeadingZeros64_above [of n x] \<open>n < 64\<close> assms(1,2)
    by linarith
  then show "bit (push_bit t (take_bit (64 - l - t) (drop_bit t x))) n = bit x n"
    using \<open>n < 64\<close> assms(3) by (auto simp: bit_simps)
qed

lemma take_bit_64 [simp]: "take_bit 64 (w :: uint64) = w"
  using take_bit_length_eq [of w] by simp

text \<open>Reading back a signed value from its low bits.\<close>

lemma take_bit_to_uint64: "n \<le> 64 \<Longrightarrow> take_bit n (to_uint64 x) = to_uint64 (x mod 2 ^ n)"
  by (rule bit_eqI) (auto simp: to_uint64_def bit_simps simp flip: take_bit_eq_mod)

lemma uint_to_uint64: "0 \<le> x \<Longrightarrow> x < 2 ^ 64 \<Longrightarrow> uint (to_uint64 x) = x"
  by (simp add: to_uint64_def uint_word_of_int)

lemma push_bit_to_uint64: "push_bit n 1 = to_uint64 (2 ^ n)"
  by (simp add: to_uint64_def push_bit_of_1)

lemma sized_restores:
  assumes n: "0 < n" "n < 64" and x: "- (2 ^ (n - 1)) < x" "x \<le> 2 ^ (n - 1)"
  defines "b \<equiv> take_bit n (to_uint64 x)"
  shows "to_int64 (if push_bit (n - 1) 1 < b then b - push_bit n 1 else b) = x"
proof -
  have p: "(2::int) ^ n = 2 * 2 ^ (n - 1)" using n(1) by (cases n) auto
  have p63: "(2::int) ^ (n - 1) \<le> 2 ^ 62" using n by (intro power_increasing) auto
  then have range: "int64_range x" using x by (auto simp: int64_range_def)
  have b: "b = to_uint64 (x mod 2 ^ n)" using n(2) by (simp add: b_def take_bit_to_uint64)
  have "x mod 2 ^ n < 2 ^ n" by simp
  also have "(2 :: int) ^ n \<le> 2 ^ 64" using n by (intro power_increasing) auto
  finally have lt: "x mod 2 ^ n < 2 ^ 64" .
  have small: "uint (to_uint64 (x mod 2 ^ n)) = x mod 2 ^ n" "uint (to_uint64 (2 ^ (n - 1))) = 2 ^ (n - 1)"
    using p63 lt by (intro uint_to_uint64; simp)+
  show ?thesis
  proof (cases "x < 0")
    case True
    then have m: "x mod 2 ^ n = x + 2 ^ n"
      using x p by (intro int_mod_pos_eq [of _ _ "- 1"]) auto
    then have "push_bit (n - 1) 1 < b"
      unfolding word_less_def b push_bit_to_uint64 small using x p by simp
    moreover have "b - push_bit n 1 = to_uint64 x"
      unfolding b m push_bit_to_uint64 by (simp flip: to_uint64_diff)
    ultimately show ?thesis using range by simp
  next
    case False
    then have m: "x mod 2 ^ n = x" using x p by simp
    then have "\<not> push_bit (n - 1) 1 < b"
      unfolding word_less_def b push_bit_to_uint64 small using x by simp
    with b m range show ?thesis by simp
  qed
qed

section \<open>The pieces of the format\<close>

lemma foldl_writeByte:
  "bstream_ok b \<Longrightarrow> bstream_ok (foldl writeByte b bs) \<and> bits_of (foldl writeByte b bs) = bits_of b @ byte_bits bs"
  by (induction bs arbitrary: b) (simp_all add: bstream_ok_writeByte bits_of_writeByte)

lemma writeBits_numeral:
  assumes "bstream_ok b" "(numeral k :: nat) \<le> 64"
  shows "bstream_ok (writeBits b u (numeral k)) \<and>
    bits_of (writeBits b u (numeral k)) = bits_of b @ to_bits (numeral k) u"
  using writeBits_spec [OF assms] by simp

lemmas write_ok = bstream_ok_writeBit writeBits_numeral foldl_writeByte
lemmas write_bits = bits_of_writeBit writeBits_numeral foldl_writeByte

lemma readBitRetry_ok:
  assumes "rest_of r = x # xs" "reader_ok r"
  shows "\<exists>r'. readBitRetry r = (Inr x, r') \<and> rest_of r' = xs \<and> reader_ok r'"
  using readBitFast_ok [OF assms(1) _ assms(2)] readBit_ok [OF assms]
  by (cases "r_valid r = 0") (auto simp: readBitRetry_def readBitFast_empty)

lemma readBitsRetry_ok:
  assumes "rest_of r = to_bits (unat nb) w @ xs" "reader_ok r" "0 < unat nb" "unat nb \<le> 64"
  shows "\<exists>r'. readBitsRetry nb r = (Inr (take_bit (unat nb) w), r') \<and> rest_of r' = xs \<and> reader_ok r'"
  using readBitsFast_ok [OF assms(1) _ assms(2)] readBits_ok [OF assms]
  by (cases "nb \<le> r_valid r") (auto simp: readBitsRetry_def readBitsFast_short linorder_not_le)

lemma read_sized_ok:
  assumes rest: "rest_of r = to_bits (unat sz) (to_uint64 x) @ xs" "reader_ok r"
    and sz: "0 < unat sz" "unat sz < 64" and x: "- (2 ^ (unat sz - 1)) < x" "x \<le> 2 ^ (unat sz - 1)"
  shows "\<exists>r'. read_sized sz r = (Inr x, r') \<and> rest_of r' = xs \<and> reader_ok r'"
proof -
  have "unat (sz - 1) = unat sz - 1" using sz(1) by (rule unat_pred_uint8)
  moreover obtain r' where "readBitsRetry sz r = (Inr (take_bit (unat sz) (to_uint64 x)), r')"
    "rest_of r' = xs" "reader_ok r'"
    using readBitsRetry_ok [OF rest sz(1)] sz(2) by auto
  ultimately show ?thesis
    using sized_restores [OF sz x] by (simp add: read_sized_def Let_def)
qed

text \<open>The five delimiters.\<close>

definition dod_bits :: "int64 \<Rightarrow> bool list" where
  "dod_bits x =
     (if x = 0 then [False]
      else if - 63 \<le> x \<and> x \<le> 64 then [True, False] @ to_bits 7 (to_uint64 x)
      else if - 255 \<le> x \<and> x \<le> 256 then [True, True, False] @ to_bits 9 (to_uint64 x)
      else if - 2047 \<le> x \<and> x \<le> 2048 then [True, True, True, False] @ to_bits 12 (to_uint64 x)
      else [True, True, True, True] @ to_bits 64 (to_uint64 x))"

lemma write_dod_spec:
  assumes "bstream_ok b"
  shows "bstream_ok (write_dod b x) \<and> bits_of (write_dod b x) = bits_of b @ dod_bits x"
proof -
  have "to_bits 2 (2 :: uint64) = [True, False]" "to_bits 3 (6 :: uint64) = [True, True, False]"
    "to_bits 4 (14 :: uint64) = [True, True, True, False]" "to_bits 4 (15 :: uint64) = [True, True, True, True]"
    by code_simp+
  with assms show ?thesis
    by (simp add: write_dod_def dod_bits_def bits_of_writeBit bstream_ok_writeBit writeBits_numeral)
qed

text \<open>The delimiter loop on the bit list it reads.\<close>

fun delimiter_of :: "nat \<Rightarrow> byte \<Rightarrow> bool list \<Rightarrow> (byte \<times> bool list) option" where
  "delimiter_of 0 d xs = Some (d, xs)"
| "delimiter_of (Suc n) d [] = None"
| "delimiter_of (Suc n) d (x # xs) =
     (if x then delimiter_of n (push_bit 1 d OR 1) xs else Some (push_bit 1 d, xs))"

lemma readDelimiter_ok:
  assumes "delimiter_of n d (rest_of r) = Some (d', xs)" "reader_ok r"
  shows "\<exists>r'. readDelimiter n d r = (Inr d', r') \<and> rest_of r' = xs \<and> reader_ok r'"
  using assms
proof (induction n arbitrary: d r)
  case 0
  then show ?case by auto
next
  case (Suc n)
  then obtain y ys where ys: "rest_of r = y # ys" by (cases "rest_of r") auto
  then obtain r' where "readBitRetry r = (Inr y, r')" "rest_of r' = ys" "reader_ok r'"
    using readBitRetry_ok Suc.prems(2) by blast
  with Suc ys show ?case by (auto simp: Let_def split: if_splits)
qed

lemma read_dod_ok:
  assumes rest: "rest_of r = dod_bits x @ xs" and ok: "reader_ok r" and x: "int64_range x"
  shows "\<exists>r'. read_dod r = (Inr x, r') \<and> rest_of r' = xs \<and> reader_ok r'"
proof -
  have four: "(4 :: nat) = Suc (Suc (Suc (Suc 0)))" by simp
  consider "x = 0"
    | "x \<noteq> 0" "- 63 \<le> x" "x \<le> 64"
    | "\<not> (- 63 \<le> x \<and> x \<le> 64)" "- 255 \<le> x" "x \<le> 256"
    | "\<not> (- 255 \<le> x \<and> x \<le> 256)" "- 2047 \<le> x" "x \<le> 2048"
    | "\<not> (- 2047 \<le> x \<and> x \<le> 2048)"
    by linarith
  then show ?thesis
  proof cases
    case 1
    then have "delimiter_of 4 0 (rest_of r) = Some (0, xs)"
      using rest by (simp add: four dod_bits_def)
    from readDelimiter_ok [OF this ok] 1 show ?thesis by (auto simp: read_dod_def)
  next
    case 2
    then have "delimiter_of 4 0 (rest_of r) = Some (2, to_bits 7 (to_uint64 x) @ xs)"
      using rest by (simp add: four dod_bits_def)
    from readDelimiter_ok [OF this ok] read_sized_ok [of _ 7 x xs] 2 show ?thesis
      by (fastforce simp: read_dod_def)
  next
    case 3
    then have "delimiter_of 4 0 (rest_of r) = Some (6, to_bits 9 (to_uint64 x) @ xs)"
      using rest by (auto simp: four dod_bits_def)
    from readDelimiter_ok [OF this ok] read_sized_ok [of _ 9 x xs] 3 show ?thesis
      by (fastforce simp: read_dod_def)
  next
    case 4
    then have "delimiter_of 4 0 (rest_of r) = Some (14, to_bits 12 (to_uint64 x) @ xs)"
      using rest by (auto simp: four dod_bits_def)
    from readDelimiter_ok [OF this ok] read_sized_ok [of _ 12 x xs] 4 show ?thesis
      by (fastforce simp: read_dod_def)
  next
    case 5
    then have "delimiter_of 4 0 (rest_of r) = Some (15, to_bits 64 (to_uint64 x) @ xs)"
      using rest by (auto simp: four dod_bits_def)
    from readDelimiter_ok [OF this ok] readBits_ok [of _ 64 "to_uint64 x" xs] x show ?thesis
      by (fastforce simp: read_dod_def)
  qed
qed

section \<open>Values\<close>

text \<open>
  The window of significant bits in use (leading and trailing zeros) is not empty and leaves
  at most 31 leading zeros, so that it fits the five and six bits it is written with.
\<close>

definition window_ok :: "uint8 \<times> uint8 \<Rightarrow> bool" where
  "window_ok lt \<longleftrightarrow> unat (fst lt) \<le> 31 \<and> unat (fst lt) + unat (snd lt) < 64"

definition own_window :: "uint64 \<Rightarrow> uint8 \<times> uint8" where
  "own_window x = (word_of_nat (min 31 (LeadingZeros64 x)), word_of_nat (TrailingZeros64 x))"

definition fits_window :: "uint8 \<times> uint8 \<Rightarrow> uint64 \<Rightarrow> bool" where
  "fits_window lt x \<longleftrightarrow> fst lt \<le> fst (own_window x) \<and> snd lt \<le> snd (own_window x)"

definition next_window :: "uint8 \<times> uint8 \<Rightarrow> uint64 \<Rightarrow> uint8 \<times> uint8" where
  "next_window lt x = (if x = 0 \<or> fits_window lt x then lt else own_window x)"

definition sigbits :: "uint8 \<times> uint8 \<Rightarrow> nat" where
  "sigbits lt = 64 - unat (fst lt) - unat (snd lt)"

text \<open>The bits a change \<open>x\<close> of the value is written as, in the window \<open>lt\<close>.\<close>

definition value_bits :: "uint8 \<times> uint8 \<Rightarrow> uint64 \<Rightarrow> bool list" where
  "value_bits lt x =
     (let payload = (\<lambda>lt. to_bits (sigbits lt) (drop_bit (unat (snd lt)) x)) in
      if x = 0 then [False]
      else if fits_window lt x then [True, False] @ payload lt
      else [True, True] @ to_bits 5 (ucast (fst (own_window x)) :: uint64)
         @ to_bits 6 (word_of_nat (sigbits (own_window x)) :: uint64) @ payload (own_window x))"

lemma unat_own_window:
  assumes "x \<noteq> 0"
  shows "unat (fst (own_window x)) = min 31 (LeadingZeros64 x)"
    and "unat (snd (own_window x)) = TrailingZeros64 x"
  using LeadingZeros64_TrailingZeros64 [OF assms]
  by (simp_all add: own_window_def unat_of_nat take_bit_nat_eq_self)

lemma window_ok_own: "x \<noteq> 0 \<Longrightarrow> window_ok (own_window x)"
  using LeadingZeros64_TrailingZeros64 [of x] by (simp add: window_ok_def unat_own_window)

lemma window_ok_next: "window_ok lt \<Longrightarrow> window_ok (next_window lt x)"
  by (simp add: next_window_def window_ok_own)

lemma window_payload:
  assumes "x \<noteq> 0" "window_ok lt" "fits_window lt x"
  shows "push_bit (unat (snd lt)) (take_bit (sigbits lt) (drop_bit (unat (snd lt)) x)) = x"
  using assms window_restores [of "unat (fst lt)" x "unat (snd lt)"]
  by (simp add: fits_window_def window_ok_def sigbits_def word_le_nat_alt unat_own_window)

lemma fits_own_window: "fits_window (own_window x) x"
  by (simp add: fits_window_def)

lemma unat_sigbits:
  assumes "window_ok lt"
  shows "unat (64 - fst lt - snd lt) = sigbits lt"
proof -
  have a: "unat (64 - fst lt) = 64 - unat (fst lt)"
    using assms by (simp add: window_ok_def unat_sub word_le_nat_alt)
  then have "snd lt \<le> 64 - fst lt" using assms by (auto simp: window_ok_def word_le_nat_alt)
  then show ?thesis using a by (simp add: unat_sub sigbits_def)
qed

lemma sigbits_bounds: "window_ok lt \<Longrightarrow> 0 < sigbits lt \<and> sigbits lt \<le> 64"
  by (auto simp: window_ok_def sigbits_def)

lemma clamp_leading:
  assumes "x \<noteq> 0"
  shows "(if 32 \<le> (word_of_nat (LeadingZeros64 x) :: uint8) then 31 else word_of_nat (LeadingZeros64 x))
      = fst (own_window x)"
  using LeadingZeros64_less [OF assms]
  by (cases "LeadingZeros64 x = 31")
     (auto simp: own_window_def word_le_nat_alt unat_of_nat take_bit_nat_eq_self min_def)

lemma writeVDelta_spec:
  fixes e :: "'w gorillaEncoder" and v :: float64
  assumes ok: "bstream_ok (e_buf e)" and w: "window_ok (e_leading e, e_trailing e)"
  defines "lt \<equiv> (e_leading e, e_trailing e)" and "x \<equiv> v XOR e_v e"
  shows "\<exists>b. writeVDelta e v = e\<lparr>e_leading := fst (next_window lt x), e_trailing := snd (next_window lt x),
              e_buf := b\<rparr> \<and> bstream_ok b \<and> bits_of b = bits_of (e_buf e) @ value_bits lt x"
proof (cases "x = 0")
  case True
  then show ?thesis
    using ok by (intro exI [of _ "writeBit (e_buf e) False"])
      (simp add: writeVDelta_def x_def next_window_def value_bits_def lt_def bstream_ok_writeBit bits_of_writeBit)
next
  case False
  have ff: "e_leading e \<noteq> 0xff" using w by (auto simp: window_ok_def)
  have fits: "fits_window lt x \<longleftrightarrow> e_leading e \<noteq> 0xff \<and> e_leading e \<le> fst (own_window x) \<and>
      e_trailing e \<le> snd (own_window x)"
    using ff by (simp add: fits_window_def lt_def)
  have own_t: "word_of_nat (TrailingZeros64 x) = snd (own_window x)" by (simp add: own_window_def)
  note ok1 = bstream_ok_writeBit [OF ok, of True]
  show ?thesis
  proof (cases "fits_window lt x")
    case True
    have sig: "64 - uint (e_leading e) - uint (e_trailing e) = int (sigbits lt)"
    proof -
      have "unat (e_leading e) + unat (e_trailing e) \<le> 64" using w by (simp add: window_ok_def)
      then show ?thesis by (simp add: sigbits_def lt_def)
    qed
    let ?b = "writeBits (writeBit (writeBit (e_buf e) True) False)
        (drop_bit (unat (e_trailing e)) x) (int (sigbits lt))"
    have "writeVDelta e v = e\<lparr>e_buf := ?b\<rparr>"
      using False True unfolding writeVDelta_def Let_def x_def [symmetric] fits
      by (simp add: clamp_leading own_t sig)
    then show ?thesis
      using False True ok1 sigbits_bounds [OF w] ok
      by (intro exI [of _ ?b]) (simp add: next_window_def value_bits_def lt_def writeBits_spec bstream_ok_writeBit bits_of_writeBit)
  next
    case nofit: False
    note own = window_ok_own [OF False]
    have sigs: "ucast (64 - fst (own_window x) - snd (own_window x)) = (word_of_nat (sigbits (own_window x)) :: uint64)"
      "uint (64 - fst (own_window x) - snd (own_window x)) = int (sigbits (own_window x))"
      using arg_cong [OF unat_sigbits [OF own], of "word_of_nat :: nat \<Rightarrow> uint64"]
        arg_cong [OF unat_sigbits [OF own], of int] by simp_all
    let ?b = "writeBits (writeBits (writeBits (writeBit (writeBit (e_buf e) True) True)
            (ucast (fst (own_window x))) 5) (word_of_nat (sigbits (own_window x))) 6)
            (drop_bit (unat (snd (own_window x))) x) (int (sigbits (own_window x)))"
    have "writeVDelta e v = e\<lparr>e_leading := fst (own_window x), e_trailing := snd (own_window x), e_buf := ?b\<rparr>"
      using False nofit
      unfolding writeVDelta_def Let_def x_def [symmetric] fits own_t clamp_leading [OF False] sigs
      by auto
    then show ?thesis
      using False nofit ok1 sigbits_bounds [OF own] ok
      by (intro exI [of _ ?b]) (simp add: next_window_def value_bits_def Let_def writeBits_spec writeBits_numeral
          bstream_ok_writeBit bits_of_writeBit)
  qed
qed


lemma read_xor_ok:
  assumes rest: "rest_of (d_br d) = to_bits (sigbits lt) (drop_bit (unat (snd lt)) x) @ xs"
    and ok: "reader_ok (d_br d)" and w: "window_ok lt" and lt: "(d_leading d, d_trailing d) = lt"
    and x: "x \<noteq> 0" "fits_window lt x"
  shows "\<exists>r. read_xor d = (Inr (), d\<lparr>d_br := r, d_v := d_v d XOR x\<rparr>) \<and> rest_of r = xs \<and> reader_ok r"
proof -
  have n: "unat (64 - d_leading d - d_trailing d) = sigbits lt"
    using unat_sigbits [OF w] lt by auto
  obtain r where "readBitsRetry (64 - d_leading d - d_trailing d) (d_br d)
      = (Inr (take_bit (sigbits lt) (drop_bit (unat (snd lt)) x)), r)" "rest_of r = xs" "reader_ok r"
    using readBitsRetry_ok [of "d_br d" "64 - d_leading d - d_trailing d" _ xs] rest ok
      sigbits_bounds [OF w] unfolding n by auto
  then show ?thesis
    using window_payload [OF x(1) w x(2)] lt by (auto simp: read_xor_def Let_def)
qed

lemma ucast_5_bits: "unat (l :: uint8) \<le> 31 \<Longrightarrow> ucast (take_bit 5 (ucast l :: uint64)) = l"
  by (simp add: word_unat_eq_iff unsigned_ucast_eq unsigned_take_bit_eq take_bit_nat_eq_self)

text \<open>Sixty-four significant bits are written as 0 in six bits and read back as 64.\<close>

lemma ucast_6_bits:
  "0 < n \<Longrightarrow> n \<le> 64 \<Longrightarrow>
    (let m = (ucast (take_bit 6 (word_of_nat n :: uint64)) :: uint8) in if m = 0 then 64 else m) = word_of_nat n"
  by (cases "n = 64")
     (simp_all add: word_unat_eq_iff unsigned_ucast_eq unsigned_take_bit_eq take_bit_nat_eq_self
       unat_of_nat Let_def)

lemma read_window_ok:
  assumes rest: "rest_of (d_br d) = to_bits 5 (ucast (fst lt) :: uint64)
      @ to_bits 6 (word_of_nat (sigbits lt) :: uint64) @ xs"
    and ok: "reader_ok (d_br d)" and w: "window_ok lt"
  shows "\<exists>r. read_window d = (Inr (), d\<lparr>d_br := r, d_leading := fst lt, d_trailing := snd lt\<rparr>)
      \<and> rest_of r = xs \<and> reader_ok r"
proof -
  obtain r1 where r1: "readBitsRetry 5 (d_br d) = (Inr (take_bit 5 (ucast (fst lt))), r1)"
    "rest_of r1 = to_bits 6 (word_of_nat (sigbits lt) :: uint64) @ xs" "reader_ok r1"
    using readBitsRetry_ok [of "d_br d" 5 "ucast (fst lt)"] rest ok by auto
  obtain r2 where r2: "readBitsRetry 6 r1 = (Inr (take_bit 6 (word_of_nat (sigbits lt))), r2)"
    "rest_of r2 = xs" "reader_ok r2"
    using readBitsRetry_ok [of r1 6 "word_of_nat (sigbits lt)"] r1(2,3) by auto
  have l: "ucast (take_bit 5 (ucast (fst lt) :: uint64)) = fst lt"
    using w by (intro ucast_5_bits) (simp add: window_ok_def)
  have "word_of_nat (sigbits lt) = 64 - fst lt - snd lt"
    using arg_cong [OF unat_sigbits [OF w], of "word_of_nat :: nat \<Rightarrow> uint8"] by simp
  then show ?thesis
    using r1 r2 l ucast_6_bits [of "sigbits lt"] sigbits_bounds [OF w]
    by (intro exI [of _ r2]) (simp add: read_window_def Let_def)
qed

lemma readValue_ok:
  assumes rest: "rest_of (d_br d) = value_bits lt x @ xs" and ok: "reader_ok (d_br d)"
    and w: "window_ok lt" and lt: "(d_leading d, d_trailing d) = lt"
  shows "\<exists>r. readValue d = (Inr (), d\<lparr>d_br := r, d_v := d_v d XOR x, d_leading := fst (next_window lt x),
      d_trailing := snd (next_window lt x)\<rparr>) \<and> rest_of r = xs \<and> reader_ok r"
proof (cases "x = 0")
  case True
  then have "rest_of (d_br d) = False # xs" using rest by (simp add: value_bits_def)
  with readBitRetry_ok [OF this ok] True lt show ?thesis
    by (auto simp: readValue_def next_window_def Let_def)
next
  case False
  then obtain b ys where "rest_of (d_br d) = True # b # ys" using rest by (simp add: value_bits_def Let_def split: if_splits)
  then obtain r1 where r1: "readBitRetry (d_br d) = (Inr True, r1)" "rest_of r1 = b # ys" "reader_ok r1"
    using readBitRetry_ok ok by blast
  obtain r2 where r2: "readBitRetry r1 = (Inr b, r2)" "rest_of r2 = ys" "reader_ok r2"
    using readBitRetry_ok r1(2,3) by blast
  show ?thesis
  proof (cases "fits_window lt x")
    case True
    then have "b = False" "ys = to_bits (sigbits lt) (drop_bit (unat (snd lt)) x) @ xs"
      using False rest \<open>rest_of (d_br d) = True # b # ys\<close> by (simp_all add: value_bits_def Let_def)
    moreover obtain r where "read_xor (d\<lparr>d_br := r2\<rparr>) = (Inr (), d\<lparr>d_br := r, d_v := d_v d XOR x\<rparr>)"
      "rest_of r = xs" "reader_ok r"
      using read_xor_ok [of "d\<lparr>d_br := r2\<rparr>" lt x xs] calculation r2 w lt False True by auto
    ultimately show ?thesis
      using r1(1) r2(1) True lt by (auto simp: readValue_def Let_def next_window_def)
  next
    case nofit: False
    let ?lt = "own_window x"
    have own: "window_ok ?lt" using False by (rule window_ok_own)
    have b: "b" and ys: "ys = to_bits 5 (ucast (fst ?lt) :: uint64) @ to_bits 6 (word_of_nat (sigbits ?lt) :: uint64)
        @ to_bits (sigbits ?lt) (drop_bit (unat (snd ?lt)) x) @ xs"
      using False nofit rest \<open>rest_of (d_br d) = True # b # ys\<close> by (simp_all add: value_bits_def Let_def)
    obtain r3 where r3: "read_window (d\<lparr>d_br := r2\<rparr>)
        = (Inr (), d\<lparr>d_br := r3, d_leading := fst ?lt, d_trailing := snd ?lt\<rparr>)"
      "rest_of r3 = to_bits (sigbits ?lt) (drop_bit (unat (snd ?lt)) x) @ xs" "reader_ok r3"
      using read_window_ok [of "d\<lparr>d_br := r2\<rparr>" ?lt] r2 ys own by auto
    let ?d = "d\<lparr>d_br := r3, d_leading := fst ?lt, d_trailing := snd ?lt\<rparr>"
    obtain r where "read_xor ?d = (Inr (), ?d\<lparr>d_br := r, d_v := d_v d XOR x\<rparr>)" "rest_of r = xs" "reader_ok r"
      using read_xor_ok [of ?d ?lt x xs] r3 own False fits_own_window by auto
    then show ?thesis
      using r1(1) r2(1) r3(1) b False nofit by (intro exI [of _ r]) (simp add: readValue_def Let_def next_window_def)
  qed
qed

end
