(* ===== verification/Gorilla_Series.thy ===== *)
theory Gorilla_Series
  imports Gorilla
begin

text \<open>
  Whole series through the Gorilla encoder and decoder: the bits of a point in each of the
  encoder's phases, the relation that keeps encoder and decoder in step, the round trip of a
  series, and what a point costs.
\<close>

section \<open>Points\<close>

text \<open>The bits the encoder appends for a point, in its three phases.\<close>

definition time_bits :: "'w gorillaEncoder \<Rightarrow> int64 \<Rightarrow> bool list" where
  "time_bits e ts =
     (if e_t0 e = 0 then byte_bits (PutVarint ts)
      else if e_t1 e = 0 then byte_bits (PutUvarint (to_uint64 (ts - e_t0 e)))
      else dod_bits (to_int64 (to_uint64 (ts - e_t e) - e_tDelta e)))"

abbreviation e_window :: "'w gorillaEncoder \<Rightarrow> uint8 \<times> uint8" where
  "e_window e \<equiv> (e_leading e, e_trailing e)"

definition point_bits :: "'w gorillaEncoder \<Rightarrow> DataPoint \<Rightarrow> bool list" where
  "point_bits e p = time_bits e (dp_Timestamp p) @
     (if e_t0 e = 0 then to_bits 64 (dp_Value p) else value_bits (e_window e) (dp_Value p XOR e_v e))"

text \<open>The encoder's fields after a point, but for the buffer.\<close>

definition after_point :: "'w gorillaEncoder \<Rightarrow> DataPoint \<Rightarrow> bstream \<Rightarrow> 'w gorillaEncoder" where
  "after_point e p b =
     (let lt = (if e_t0 e = 0 then e_window e else next_window (e_window e) (dp_Value p XOR e_v e))
      in e\<lparr>e_buf := b, e_leading := fst lt, e_trailing := snd lt,
           e_t0 := (if e_t0 e = 0 then dp_Timestamp p else e_t0 e),
           e_t1 := (if e_t0 e \<noteq> 0 \<and> e_t1 e = 0 then dp_Timestamp p else e_t1 e),
           e_t := dp_Timestamp p, e_v := dp_Value p,
           e_tDelta := (if e_t0 e = 0 then 0 else if e_t1 e = 0 then to_uint64 (dp_Timestamp p - e_t0 e)
                        else to_uint64 (dp_Timestamp p - e_t e))\<rparr>)"

lemma encodePoint_spec:
  assumes ok: "bstream_ok (e_buf e)" and w: "window_ok (e_window e)"
  shows "\<exists>b. encodePoint e p = (Inr (), after_point e p b) \<and> bstream_ok b \<and>
    bits_of b = bits_of (e_buf e) @ point_bits e p"
proof -
  consider "e_t0 e = 0" | "e_t0 e \<noteq> 0" "e_t1 e = 0" | "e_t0 e \<noteq> 0" "e_t1 e \<noteq> 0" by blast
  then show ?thesis
  proof cases
    case 1
    then show ?thesis
      using ok by (intro exI [of _ "writeBits (foldl writeByte (e_buf e) (PutVarint (dp_Timestamp p))) (dp_Value p) 64"])
        (simp add: encodePoint_def after_point_def point_bits_def time_bits_def Let_def
          foldl_writeByte writeBits_numeral)
  next
    case 2
    let ?e = "e\<lparr>e_buf := foldl writeByte (e_buf e) (PutUvarint (to_uint64 (dp_Timestamp p - e_t0 e)))\<rparr>"
    obtain b where "writeVDelta ?e (dp_Value p) = ?e\<lparr>e_leading := fst (next_window (e_window e) (dp_Value p XOR e_v e)),
        e_trailing := snd (next_window (e_window e) (dp_Value p XOR e_v e)), e_buf := b\<rparr>" "bstream_ok b"
        "bits_of b = bits_of (e_buf ?e) @ value_bits (e_window e) (dp_Value p XOR e_v e)"
      using writeVDelta_spec [of ?e "dp_Value p"] ok w by (auto simp: foldl_writeByte)
    then show ?thesis
      using 2 ok by (intro exI [of _ b])
        (simp add: encodePoint_def after_point_def point_bits_def time_bits_def Let_def foldl_writeByte)
  next
    case 3
    let ?e = "e\<lparr>e_buf := write_dod (e_buf e) (to_int64 (to_uint64 (dp_Timestamp p - e_t e) - e_tDelta e))\<rparr>"
    obtain b where "writeVDelta ?e (dp_Value p) = ?e\<lparr>e_leading := fst (next_window (e_window e) (dp_Value p XOR e_v e)),
        e_trailing := snd (next_window (e_window e) (dp_Value p XOR e_v e)), e_buf := b\<rparr>" "bstream_ok b"
        "bits_of b = bits_of (e_buf ?e) @ value_bits (e_window e) (dp_Value p XOR e_v e)"
      using writeVDelta_spec [of ?e "dp_Value p"] ok w by (auto simp: write_dod_spec)
    then show ?thesis
      using 3 ok by (intro exI [of _ b])
        (simp add: encodePoint_def after_point_def point_bits_def time_bits_def Let_def write_dod_spec)
  qed
qed

text \<open>
  Encoder and decoder in step: the decoder has read the points the encoder has written. The
  phase is the number of points so far, 0, 1 or more, which the encoder tells from its first
  two timestamps and the decoder from \<open>numRead\<close>.
\<close>

definition synced :: "'w gorillaEncoder \<Rightarrow> gorillaDecoder \<Rightarrow> bool" where
  "synced e d \<longleftrightarrow>
     d_numRead d = (if e_t0 e = 0 then 0 else if e_t1 e = 0 then 1 else 2) \<and>
     d_v d = e_v e \<and> (d_leading d, d_trailing d) = e_window e \<and> window_ok (e_window e) \<and>
     (e_t0 e \<noteq> 0 \<longrightarrow> d_t d = e_t e \<and> (e_t1 e = 0 \<longrightarrow> e_t0 e = e_t e)) \<and>
     (e_t1 e \<noteq> 0 \<longrightarrow> e_t0 e \<noteq> 0 \<and> d_tDelta d = e_tDelta e)"

lemma wrap64_step: "int64_range t \<Longrightarrow> wrap64 (s + to_int64 (to_uint64 (t - s))) = t"
  by (metis add_diff_cancel_left' diff_add_eq to_int64_to_uint64 to_int64_to_uint64_id to_uint64_add
      to_uint64_diff to_uint64_wrap64 wrap64_id)

lemma delta_step: "to_uint64 (to_int64 a + to_int64 (b - a)) = b"
  by (simp add: to_uint64_add)

lemma decodePoint_ok:
  assumes sync: "synced e d" and rest: "rest_of (d_br d) = point_bits e p @ xs"
    and ok: "reader_ok (d_br d)" and p: "point_ok p" and nz: "e_t1 e = 0 \<Longrightarrow> dp_Timestamp p \<noteq> 0"
  shows "\<exists>d'. decodePoint d = (Inr p, d') \<and> rest_of (d_br d') = xs \<and> reader_ok (d_br d') \<and>
    synced (after_point e p b) d'"
proof -
  let ?x = "dp_Value p XOR e_v e"
  have xor: "e_v e XOR ?x = dp_Value p" by (simp add: xor.left_commute)
  have w: "window_ok (e_window e)" and lt: "(d_leading d, d_trailing d) = e_window e"
    using sync by (auto simp: synced_def)
  consider "e_t0 e = 0" | "e_t0 e \<noteq> 0" "e_t1 e = 0" | "e_t0 e \<noteq> 0" "e_t1 e \<noteq> 0" by blast
  then show ?thesis
  proof cases
    case 1
    then have "e_t1 e = 0" using sync by (auto simp: synced_def)
    obtain r1 where r1: "ReadVarint ReadByte (d_br d) = (Inr (dp_Timestamp p), r1)"
      "rest_of r1 = to_bits 64 (dp_Value p) @ xs" "reader_ok r1"
      using bit_reader.ReadVarint_put [of "d_br d" "dp_Timestamp p"] rest ok p 1
      by (auto simp: point_bits_def time_bits_def point_ok_def)
    obtain r2 where r2: "readBits 64 r1 = (Inr (dp_Value p), r2)" "rest_of r2 = xs" "reader_ok r2"
      using readBits_ok [of r1 64 "dp_Value p" xs] r1 by auto
    show ?thesis
      using 1 r1 r2 sync nz [OF \<open>e_t1 e = 0\<close>] \<open>e_t1 e = 0\<close>
      by (auto simp: decodePoint_def synced_def after_point_def Let_def)
  next
    case 2
    have d1: "d_numRead d = 1" "d_t d = e_t0 e" using 2 sync by (auto simp: synced_def)
    let ?td = "to_uint64 (dp_Timestamp p - e_t0 e)"
    obtain r1 where r1: "ReadUvarint ReadByte (d_br d) = (Inr ?td, r1)"
      "rest_of r1 = value_bits (e_window e) ?x @ xs" "reader_ok r1"
      using bit_reader.ReadUvarint_put [of "d_br d" ?td] rest ok 2
      by (auto simp: point_bits_def time_bits_def)
    let ?d = "d\<lparr>d_br := r1, d_tDelta := ?td, d_t := dp_Timestamp p\<rparr>"
    obtain r2 where r2: "readValue ?d = (Inr (), ?d\<lparr>d_br := r2, d_v := d_v d XOR ?x,
        d_leading := fst (next_window (e_window e) ?x), d_trailing := snd (next_window (e_window e) ?x)\<rparr>)"
      "rest_of r2 = xs" "reader_ok r2"
      using readValue_ok [of ?d "e_window e" ?x xs] r1 w lt by auto
    have "wrap64 (d_t d + to_int64 ?td) = dp_Timestamp p"
      using d1(2) p by (simp add: wrap64_step point_ok_def)
    then show ?thesis
      using 2 d1(1) r1 r2 sync nz xor window_ok_next [OF w, of ?x]
      by (auto simp: decodePoint_def synced_def after_point_def Let_def)
  next
    case 3
    have d2: "d_numRead d = 2" "d_t d = e_t e" "d_tDelta d = e_tDelta e"
      using 3 sync by (auto simp: synced_def)
    let ?td = "to_uint64 (dp_Timestamp p - e_t e)"
    obtain r1 where r1: "read_dod (d_br d) = (Inr (to_int64 (?td - e_tDelta e)), r1)"
      "rest_of r1 = value_bits (e_window e) ?x @ xs" "reader_ok r1"
      using read_dod_ok [of "d_br d" "to_int64 (?td - e_tDelta e)"] rest ok 3
      by (auto simp: point_bits_def time_bits_def)
    let ?d = "d\<lparr>d_br := r1, d_tDelta := ?td, d_t := dp_Timestamp p\<rparr>"
    obtain r2 where r2: "readValue ?d = (Inr (), ?d\<lparr>d_br := r2, d_v := d_v d XOR ?x,
        d_leading := fst (next_window (e_window e) ?x), d_trailing := snd (next_window (e_window e) ?x)\<rparr>)"
      "rest_of r2 = xs" "reader_ok r2"
      using readValue_ok [of ?d "e_window e" ?x xs] r1 w lt by auto
    have "wrap64 (d_t d + to_int64 ?td) = dp_Timestamp p"
      using d2(2) p by (simp add: wrap64_step point_ok_def)
    then show ?thesis
      using 3 d2(1,3) r1 r2 sync xor window_ok_next [OF w, of ?x]
      by (auto simp: decodePoint_def synced_def after_point_def Let_def delta_step)
  qed
qed


section \<open>Series\<close>

text \<open>
  What the encoder needs of a series: its first two timestamps are not zero, since zero in
  \<open>t0\<close> and \<open>t1\<close> is how it tells that no such point has come yet.
\<close>

definition series_ok :: "'w gorillaEncoder \<Rightarrow> DataPoint list \<Rightarrow> bool" where
  "series_ok e ps \<longleftrightarrow> (\<forall>p \<in> set ps. point_ok p) \<and>
     (\<forall>p \<in> set (take (if e_t0 e = 0 then 2 else if e_t1 e = 0 then 1 else 0) ps). dp_Timestamp p \<noteq> 0)"

lemma series_ok_Cons:
  assumes "series_ok e (p # ps)" "e_t1 e \<noteq> 0 \<Longrightarrow> e_t0 e \<noteq> 0"
  shows "point_ok p" "e_t1 e = 0 \<Longrightarrow> dp_Timestamp p \<noteq> 0" "series_ok (after_point e p b) ps"
  using assms by (auto simp: series_ok_def after_point_def Let_def split: if_splits)

fun series_bits :: "'w gorillaEncoder \<Rightarrow> DataPoint list \<Rightarrow> bool list" where
  "series_bits e [] = []"
| "series_bits e (p # ps) = point_bits e p @ series_bits (snd (encodePoint e p)) ps"

lemma encodePoints_spec:
  assumes "bstream_ok (e_buf e)" "window_ok (e_window e)"
  shows "bstream_ok (e_buf (encodePoints e ps)) \<and>
    bits_of (e_buf (encodePoints e ps)) = bits_of (e_buf e) @ series_bits e ps"
  using assms
proof (induction ps arbitrary: e)
  case Nil
  then show ?case by simp
next
  case (Cons p ps)
  obtain b where b: "encodePoint e p = (Inr (), after_point e p b)" "bstream_ok b"
    "bits_of b = bits_of (e_buf e) @ point_bits e p"
    using encodePoint_spec [OF Cons.prems] by blast
  have "window_ok (e_window (after_point e p b))" "e_buf (after_point e p b) = b"
    using window_ok_next Cons.prems(2) by (auto simp: after_point_def Let_def)
  with b Cons.IH [of "after_point e p b"] show ?case by simp
qed

lemma decodePoints_ok:
  assumes "synced e d" "bstream_ok (e_buf e)" "reader_ok (d_br d)" "series_ok e ps"
    "rest_of (d_br d) = series_bits e ps @ xs"
  shows "decodePoints (length ps) d = Inr ps"
  using assms
proof (induction ps arbitrary: e d)
  case Nil
  then show ?case by simp
next
  case (Cons p ps)
  have w: "window_ok (e_window e)" and t: "e_t1 e \<noteq> 0 \<Longrightarrow> e_t0 e \<noteq> 0"
    using Cons.prems(1) by (auto simp: synced_def)
  obtain b where b: "encodePoint e p = (Inr (), after_point e p b)" "bstream_ok b"
    using encodePoint_spec [OF Cons.prems(2) w] by blast
  have rest: "rest_of (d_br d) = point_bits e p @ (series_bits (after_point e p b) ps @ xs)"
    using Cons.prems(5) b(1) by simp
  obtain d' where d': "decodePoint d = (Inr p, d')" "reader_ok (d_br d')" "synced (after_point e p b) d'"
    "rest_of (d_br d') = series_bits (after_point e p b) ps @ xs"
    using decodePoint_ok [OF Cons.prems(1) rest Cons.prems(3) series_ok_Cons(1,2) [OF Cons.prems(4) t]]
    by blast
  have "decodePoints (length ps) d' = Inr ps"
    using Cons.IH [OF d'(3) _ d'(2) series_ok_Cons(3) [OF Cons.prems(4) t] d'(4)] b(2)
    by (simp add: after_point_def Let_def)
  with d'(1) show ?case by simp
qed

lemma synced_new: "synced (newSeriesEncoder w) (newSeriesDecoder bs)"
  by (simp add: synced_def newSeriesEncoder_def newSeriesDecoder_def window_ok_def)

lemma byte_bits_series:
  "\<exists>k. byte_bits (series_bytes ps) = series_bits (newSeriesEncoder ([] :: byte list)) ps @ replicate k False"
  using encodePoints_spec [of "newSeriesEncoder ([] :: byte list)" ps] byte_bits_bytes
  by (auto simp: series_bytes_def newSeriesEncoder_def window_ok_def)

lemma series_roundtrip:
  assumes "series_ok (newSeriesEncoder ([] :: byte list)) ps"
  shows "decodePoints (length ps) (newSeriesDecoder (series_bytes ps @ rest)) = Inr ps"
proof -
  obtain k where k: "byte_bits (series_bytes ps) = series_bits (newSeriesEncoder ([] :: byte list)) ps @ replicate k False"
    using byte_bits_series by blast
  show ?thesis
    by (rule decodePoints_ok [where e = "newSeriesEncoder ([] :: byte list)" and xs = "replicate k False @ byte_bits rest"])
       (use assms k synced_new in \<open>auto simp: newSeriesDecoder_def newSeriesEncoder_def\<close>)
qed


section \<open>Properties\<close>

text \<open>A writer that appends to a byte list and never fails, such as the program's data file.\<close>

definition append_write :: "byte list \<Rightarrow> byte list \<Rightarrow> unit result \<times> byte list" where
  "append_write w bs = (Inr (), w @ bs)"

lemma encodePoint_retarget:
  "snd (encodePoint (e\<lparr>e_w := w\<rparr>) p) = (snd (encodePoint e p))\<lparr>e_w := w\<rparr>"
  by (simp add: encodePoint_def writeVDelta_def Let_def)

lemma encodePoints_retarget: "encodePoints (e\<lparr>e_w := w\<rparr>) ps = (encodePoints e ps)\<lparr>e_w := w\<rparr>"
  by (induction ps arbitrary: e) (simp_all add: encodePoint_retarget)

lemma encodePoint_writer: "e_w (snd (encodePoint e p)) = e_w e"
  by (simp add: encodePoint_def writeVDelta_def Let_def)

lemma encodePoints_writer [go_frame]: "e_w (encodePoints e ps) = e_w e"
  by (induction ps arbitrary: e) (simp_all add: encodePoint_writer)

text \<open>
  A whole series: the encoder ends as new, with the bytes of the series appended to its file,
  wherever in the file it started.
\<close>

lemma flush_series:
  "gorilla_flush append_write (encodePoints (newSeriesEncoder f) ps)
     = (Inr (), newSeriesEncoder (f @ series_bytes ps))"
proof -
  have "newSeriesEncoder f = (newSeriesEncoder ([] :: byte list))\<lparr>e_w := f\<rparr>"
    by (simp add: newSeriesEncoder_def)
  then have "encodePoints (newSeriesEncoder f) ps = (encodePoints (newSeriesEncoder []) ps)\<lparr>e_w := f\<rparr>"
    by (simp only: encodePoints_retarget)
  then show ?thesis
    by (simp add: gorilla_flush_def append_write_def series_bytes_def newSeriesEncoder_def
        bstream_reset_def new_bstream_def)
qed

lemma series_ok_newI:
  assumes "\<forall>p \<in> set ps. point_ok p" "\<forall>p \<in> set (take 2 ps). dp_Timestamp p \<noteq> 0"
  shows "series_ok (newSeriesEncoder w) ps"
  using assms by (simp add: series_ok_def newSeriesEncoder_def)

subsection \<open>The state of the encoder after a series\<close>

lemma encodePoints_snoc: "encodePoints e (ps @ [p]) = snd (encodePoint (encodePoints e ps) p)"
  by (induction ps arbitrary: e) simp_all

text \<open>The window of a new encoder is the whole word, which every value fits.\<close>

lemma fits_whole_word [simp]: "fits_window (0, 0) x"
  by (simp add: fits_window_def)

lemma next_window_whole_word [simp]: "next_window (0, 0) x = (0, 0)"
  by (simp add: next_window_def)

lemma length_value_bits_whole_word: "length (value_bits (0, 0) x) = (if x = 0 then 1 else 66)"
  by (simp add: value_bits_def Let_def sigbits_def)

definition fresh_window :: "'w gorillaEncoder \<Rightarrow> bool" where
  "fresh_window e \<longleftrightarrow> bstream_ok (e_buf e) \<and> e_window e = (0, 0)"

lemma fresh_window_encodePoint:
  assumes "fresh_window e"
  shows "\<exists>b. encodePoint e p = (Inr (), after_point e p b) \<and> fresh_window (after_point e p b) \<and>
    bits_of b = bits_of (e_buf e) @ point_bits e p"
proof -
  have "bstream_ok (e_buf e)" "window_ok (e_window e)" "e_window e = (0, 0)"
    using assms by (simp_all add: fresh_window_def window_ok_def)
  moreover from encodePoint_spec [OF this(1,2)] obtain b where
    "encodePoint e p = (Inr (), after_point e p b)" "bstream_ok b" "bits_of b = bits_of (e_buf e) @ point_bits e p"
    by blast
  ultimately show ?thesis by (auto simp: fresh_window_def after_point_def Let_def)
qed

lemma fresh_window_encodePoints: "fresh_window e \<Longrightarrow> fresh_window (encodePoints e ps)"
proof (induction ps arbitrary: e)
  case (Cons p ps)
  then obtain b where "encodePoint e p = (Inr (), after_point e p b)" "fresh_window (after_point e p b)"
    using fresh_window_encodePoint by blast
  with Cons.IH show ?case by simp
qed simp

lemma fresh_window_new: "fresh_window (newSeriesEncoder w)"
  by (simp add: fresh_window_def newSeriesEncoder_def)

lemma encodePoints_last:
  assumes "fresh_window e" "ps \<noteq> []"
  shows "e_v (encodePoints e ps) = dp_Value (last ps) \<and> e_t (encodePoints e ps) = dp_Timestamp (last ps)"
  using assms(2)
proof (induction ps rule: rev_induct)
  case (snoc p ps)
  obtain b where "encodePoint (encodePoints e ps) p = (Inr (), after_point (encodePoints e ps) p b)"
    using fresh_window_encodePoint [OF fresh_window_encodePoints [OF assms(1)]] by blast
  then show ?case by (simp add: encodePoints_snoc after_point_def Let_def)
qed simp

lemma encodePoints_t0:
  assumes "fresh_window e" "e_t0 e \<noteq> 0 \<or> ps \<noteq> [] \<and> dp_Timestamp (hd ps) \<noteq> 0"
  shows "e_t0 (encodePoints e ps) \<noteq> 0"
  using assms
proof (induction ps arbitrary: e)
  case (Cons p ps)
  obtain b where "encodePoint e p = (Inr (), after_point e p b)" "fresh_window (after_point e p b)"
    using fresh_window_encodePoint [OF Cons.prems(1)] by blast
  with Cons show ?case by (auto simp: after_point_def Let_def)
qed simp

text \<open>The cost of one more point.\<close>

lemma encodePoints_cost:
  fixes w :: 'w
  assumes "ps \<noteq> []" "dp_Timestamp (hd ps) \<noteq> 0"
  defines "e \<equiv> encodePoints (newSeriesEncoder w) ps"
  shows "length (bits_of (e_buf (encodePoints (newSeriesEncoder w) (ps @ [p])))) =
    length (bits_of (e_buf e)) + length (time_bits e (dp_Timestamp p)) +
    (if dp_Value p = dp_Value (last ps) then 1 else 66)"
proof -
  note fresh = fresh_window_encodePoints [OF fresh_window_new [of w], of ps, folded e_def]
  obtain b where b: "encodePoint e p = (Inr (), after_point e p b)" "bits_of b = bits_of (e_buf e) @ point_bits e p"
    using fresh_window_encodePoint [OF fresh] by blast
  have "e_t0 e \<noteq> 0" "e_v e = dp_Value (last ps)" "e_window e = (0, 0)"
    using encodePoints_t0 [OF fresh_window_new [of w], of ps] encodePoints_last [OF fresh_window_new [of w], of ps]
      assms(1,2) fresh by (simp_all add: e_def fresh_window_def)
  moreover have "e_buf (encodePoints (newSeriesEncoder w) (ps @ [p])) = b"
    using b(1) by (simp add: encodePoints_snoc e_def after_point_def Let_def)
  ultimately show ?thesis
    using b(2) by (simp add: point_bits_def length_value_bits_whole_word xor_eq_0_iff)
qed

subsection \<open>Series at regular intervals\<close>

definition regular :: "int64 \<Rightarrow> int64 \<Rightarrow> float64 \<Rightarrow> nat \<Rightarrow> DataPoint list" where
  "regular t d v n = map (\<lambda>k. point (t + int k * d) v) [0..<n]"

lemma regular_Suc: "regular t d v (Suc n) = regular t d v n @ [point (t + int n * d) v]"
  by (simp add: regular_def)

text \<open>The encoder within a regular series: in its third phase, with the interval as its delta.\<close>

definition steady :: "int64 \<Rightarrow> int64 \<Rightarrow> float64 \<Rightarrow> 'w gorillaEncoder \<Rightarrow> bool" where
  "steady t d v e \<longleftrightarrow> e_t0 e \<noteq> 0 \<and> e_t1 e \<noteq> 0 \<and> e_tDelta e = to_uint64 d \<and> e_t e = t \<and> e_v e = v
     \<and> fresh_window e"

lemma steady_step:
  assumes "steady t d v e"
  defines "e' \<equiv> snd (encodePoint e (point (t + d) v))"
  shows "steady (t + d) d v e' \<and> length (bits_of (e_buf e')) = length (bits_of (e_buf e)) + 2"
proof -
  have fresh: "fresh_window e" and e: "e_t0 e \<noteq> 0" "e_t1 e \<noteq> 0" "e_tDelta e = to_uint64 d" "e_t e = t" "e_v e = v"
    "e_window e = (0, 0)"
    using assms(1) by (auto simp: steady_def fresh_window_def)
  have "point_bits e (point (t + d) v) = [False, False]"
    using e by (simp add: point_bits_def time_bits_def dod_bits_def value_bits_def to_int64_def)
  with fresh_window_encodePoint [OF fresh, of "point (t + d) v"] e show ?thesis
    by (auto simp: e'_def steady_def after_point_def Let_def)
qed

lemma steady_start:
  fixes v :: float64
  assumes "t \<noteq> 0" "t + d \<noteq> 0"
  defines "e \<equiv> \<lambda>w. encodePoints (newSeriesEncoder w) [point t v, point (t + d) v]"
  shows "steady (t + d) d v (e w) \<and> length (bits_of (e_buf (e w)))
     = 8 * length (PutVarint t) + 64 + (8 * length (PutUvarint (to_uint64 d)) + 1)"
proof -
  define e0 where "e0 = newSeriesEncoder w"
  have e0: "fresh_window e0" "e_t0 e0 = 0" "e_t1 e0 = 0" "bits_of (e_buf e0) = []"
    by (simp_all add: e0_def fresh_window_new) (simp_all add: newSeriesEncoder_def)
  obtain b where b: "encodePoint e0 (point t v) = (Inr (), after_point e0 (point t v) b)"
    "fresh_window (after_point e0 (point t v) b)" "bits_of b = bits_of (e_buf e0) @ point_bits e0 (point t v)"
    using fresh_window_encodePoint [OF e0(1)] by blast
  define e1 where "e1 = after_point e0 (point t v) b"
  have e1: "e_t0 e1 = t" "e_t1 e1 = 0" "e_v e1 = v" "e_buf e1 = b" "e_window e1 = (0, 0)"
    using e0 b(2) by (simp_all add: e1_def fresh_window_def) (simp_all add: after_point_def Let_def)
  obtain b' where b': "encodePoint e1 (point (t + d) v) = (Inr (), after_point e1 (point (t + d) v) b')"
    "fresh_window (after_point e1 (point (t + d) v) b')"
    "bits_of b' = bits_of b @ point_bits e1 (point (t + d) v)"
    using fresh_window_encodePoint [of e1 "point (t + d) v"] b(2) e1(4) by (auto simp: e1_def)
  have "point_bits e0 (point t v) = byte_bits (PutVarint t) @ to_bits 64 v"
    using e0 by (simp add: point_bits_def time_bits_def)
  moreover have "point_bits e1 (point (t + d) v) = byte_bits (PutUvarint (to_uint64 d)) @ [False]"
    using e1 assms(1) by (simp add: point_bits_def time_bits_def value_bits_def)
  moreover have "e w = after_point e1 (point (t + d) v) b'" using b(1) b'(1) by (simp add: e_def e0_def e1_def)
  moreover have "steady (t + d) d v (after_point e1 (point (t + d) v) b')"
    using b'(2) e1 assms(1,2) by (simp add: steady_def) (simp add: after_point_def Let_def)
  moreover have "e_buf (after_point e1 (point (t + d) v) b') = b'" by (simp add: after_point_def Let_def)
  ultimately show ?thesis using b'(3) b(3) e0(4) by simp
qed

lemma regular_steady:
  fixes v :: float64
  assumes "t \<noteq> 0" "t + d \<noteq> 0"
  defines "e \<equiv> \<lambda>w n. encodePoints (newSeriesEncoder w) (regular t d v (Suc (Suc n)))"
  shows "steady (t + int (Suc n) * d) d v (e w n) \<and> length (bits_of (e_buf (e w n)))
     = 8 * length (PutVarint t) + 64 + (8 * length (PutUvarint (to_uint64 d)) + 1) + 2 * n"
proof (induction n)
  case 0
  have "regular t d v (Suc (Suc 0)) = [point t v, point (t + d) v]" by (simp add: regular_def)
  with steady_start [OF assms(1,2)] show ?case by (simp add: e_def)
next
  case (Suc n)
  have "t + int (Suc n) * d + d = t + int (Suc (Suc n)) * d" by (simp add: algebra_simps)
  with Suc steady_step [of "t + int (Suc n) * d" d v "e w n"] show ?case
    unfolding e_def by (subst regular_Suc, subst regular_Suc) (simp add: encodePoints_snoc del: of_nat_Suc)
qed

text \<open>
  C4: Encoding a series and flushing it to a file appends bytes from which the decoder, placed
  at the offset where the series starts and with any bytes after it, gives back exactly the
  points that were encoded, for every series of int64 timestamps whose first two are not zero;
  and the flushed encoder is as new, ready for the next series.
\<close>

theorem gorilla_roundtrip:
  assumes "\<forall>p \<in> set ps. point_ok p" and "\<forall>p \<in> set (take 2 ps). dp_Timestamp p \<noteq> 0"
  shows "\<exists>file. gorilla_flush append_write (encodePoints (newSeriesEncoder f) ps) = (Inr (), newSeriesEncoder file)
     \<and> decodePoints (length ps) (newSeriesDecoder (drop (length f) (file @ rest))) = Inr ps"
  using flush_series [of f ps] series_roundtrip [OF series_ok_newI [OF assms], of rest]
  by (intro exI [of _ "f @ series_bytes ps"]) simp

theorem gorilla_roundtrip_witness:
  "\<exists>file. gorilla_flush append_write
       (encodePoints (newSeriesEncoder [7]) [point 1600000000 0x3FB999999999999A, point 1600000060 0])
     = (Inr (), newSeriesEncoder file)
   \<and> decodePoints 2 (newSeriesDecoder (drop (length [7 :: byte]) (file @ [1, 2])))
     = Inr [point 1600000000 0x3FB999999999999A, point 1600000060 0]"
  using gorilla_roundtrip [of "[point 1600000000 0x3FB999999999999A, point 1600000060 0]" "[7]" "[1, 2]"]
  by (simp add: point_ok_def int64_range_def numeral_2_eq_2)


text \<open>
  C24: The window of significant bits of the encoder never moves: from a new encoder, whatever
  points are written, if the first is not at timestamp 0, the leading and trailing counts stay 0, so
  a point whose value differs from its predecessor's always costs 66 bits for the value, and one with
  the same value 1 bit.
\<close>

theorem value_never_compressed:
  assumes "ps \<noteq> []" and "dp_Timestamp (hd ps) \<noteq> 0"
  shows "e_window (encodePoints (newSeriesEncoder w) ps) = (0, 0) \<and>
    length (bits_of (e_buf (encodePoints (newSeriesEncoder w) (ps @ [p])))) =
      length (bits_of (e_buf (encodePoints (newSeriesEncoder w) ps)))
      + length (time_bits (encodePoints (newSeriesEncoder w) ps) (dp_Timestamp p))
      + (if dp_Value p = dp_Value (last ps) then 1 else 66)"
  using encodePoints_cost [OF assms, of w p] fresh_window_encodePoints [OF fresh_window_new [of w], of ps]
  by (simp add: fresh_window_def)

theorem value_never_compressed_witness:
  "e_window (encodePoints (newSeriesEncoder ()) [point 1600000000 1]) = (0, 0) \<and>
    length (bits_of (e_buf (encodePoints (newSeriesEncoder ()) ([point 1600000000 1] @ [point 1600000060 3])))) =
      length (bits_of (e_buf (encodePoints (newSeriesEncoder ()) [point 1600000000 1])))
      + length (time_bits (encodePoints (newSeriesEncoder ()) [point 1600000000 1]) 1600000060)
      + (if (3 :: float64) = 1 then 1 else 66)"
  using value_never_compressed [of "[point 1600000000 1]" "()" "point 1600000060 3"] by simp

text \<open>
  A series with a constant value at a regular interval costs two bits per point after its
  second point.
\<close>

theorem regular_series_cost:
  assumes "t \<noteq> 0" and "t + d \<noteq> 0"
  shows "length (bits_of (e_buf (encodePoints (newSeriesEncoder w) (regular t d v (Suc (Suc n))))))
     = 8 * length (PutVarint t) + 64 + (8 * length (PutUvarint (to_uint64 d)) + 1) + 2 * n"
  by (rule regular_steady [OF assms, THEN conjunct2])

theorem regular_series_cost_witness:
  "length (bits_of (e_buf (encodePoints (newSeriesEncoder ()) (regular 1600000000 60 5 (Suc (Suc 100))))))
     = 8 * length (PutVarint 1600000000) + 64 + (8 * length (PutUvarint (to_uint64 60)) + 1) + 2 * 100"
  by (rule regular_series_cost) simp_all

text \<open>
  A timestamp written as a signed number and read as an unsigned one is never itself, except 0; the
  second timestamp that a decoder gives is the first plus what it reads as an unsigned number.
\<close>

lemma zigzag_neq:
  assumes t: "int64_range t" "t \<noteq> 0"
  shows "to_int64 (zigzag t) \<noteq> t"
proof
  let ?x = "to_uint64 t"
  assume "to_int64 (zigzag t) = t"
  hence z: "zigzag t = ?x" by (metis to_uint64_to_int64)
  show False
  proof (cases "t < 0")
    case True
    hence "3 * ?x = - 1" using z by (simp add: zigzag_def push_bit_eq_mult not_eq_complement)
    have inv: "(0xAAAAAAAAAAAAAAAB * 3 :: uint64) = 1" by simp
    have "0xAAAAAAAAAAAAAAAB * (3 * ?x) = ?x" unfolding mult.assoc [symmetric] inv by (rule mult_1)
    hence "?x = 0xAAAAAAAAAAAAAAAB * (- 1)" unfolding \<open>3 * ?x = - 1\<close> by (rule sym)
    also have "\<dots> = 0x5555555555555555" by simp
    finally have x: "?x = 0x5555555555555555" .
    have "\<not> bit (0x5555555555555555 :: uint64) 63" by simp
    thus False using True bit_to_uint64_63 [OF t(1)] x by simp
  next
    case False
    hence "?x = 0" using z by (simp add: zigzag_def push_bit_eq_mult)
    hence "t = 0" using to_int64_inject [OF t(1), of 0] by (simp add: to_int64_def)
    thus False using t(2) by simp
  qed
qed

lemma read_window_time: "d_t (snd (read_window d)) = d_t d"
  by (auto simp: read_window_def andThen_def Let_def split: prod.splits sum.splits)

lemma read_xor_time: "d_t (snd (read_xor d)) = d_t d"
  by (auto simp: read_xor_def andThen_def Let_def split: prod.splits sum.splits)

lemma readValue_time: "d_t (snd (readValue d)) = d_t d"
proof -
  have "d_t (snd (andThen (if \<not> b then (Inr (), d) else read_window d) (\<lambda>_. read_xor) id)) = d_t d" for b d
    using read_window_time [of d] read_xor_time by (cases "read_window d") (auto simp: andThen_def split: sum.splits)
  thus ?thesis by (auto simp: readValue_def andThen_def [of "readBitRetry r" for r] Let_def split: prod.splits sum.splits)
qed

lemma decode_second_time:
  assumes "rest_of (d_br d) = byte_bits (PutUvarint u) @ xs" "reader_ok (d_br d)" "d_numRead d = 1"
    and dec: "decodePoint d = (Inr q, d')"
  shows "dp_Timestamp q = wrap64 (d_t d + to_int64 u)"
proof -
  obtain r where r: "ReadUvarint ReadByte (d_br d) = (Inr u, r)" using bit_reader.ReadUvarint_put [OF assms(2,1)] by auto
  let ?d = "d\<lparr>d_br := r, d_tDelta := u, d_t := wrap64 (d_t d + to_int64 u)\<rparr>"
  obtain x d2 where "readValue ?d = (x, d2)" by fastforce
  thus ?thesis using dec r assms(3) readValue_time [of ?d] by (cases x) (auto simp: decodePoint_def Let_def)
qed

text \<open>
  C29: The encoder takes a zero timestamp for the absence of a first point. Every series of two or
  more points that starts at timestamp 0 and goes on at another timestamp is encoded and flushed
  without an error, but the decoder does not give the points back: the second point is written as
  a first one again, and its timestamp is read wrongly.
\<close>

theorem zero_timestamp_lost:
  assumes "dp_Timestamp p = 0" and "point_ok q" and "dp_Timestamp q \<noteq> 0"
  shows "\<exists>file. gorilla_flush append_write (encodePoints (newSeriesEncoder f) (p # q # ps)) = (Inr (), newSeriesEncoder file)
     \<and> decodePoints (length (p # q # ps)) (newSeriesDecoder (drop (length f) (file @ rest))) \<noteq> Inr (p # q # ps)"
proof -
  let ?e = "newSeriesEncoder ([] :: byte list)" and ?d = "newSeriesDecoder (series_bytes (p # q # ps) @ rest)"
  have ok: "bstream_ok (e_buf ?e)" "window_ok (e_window ?e)" "e_t0 ?e = 0" by (simp_all add: newSeriesEncoder_def window_ok_def)
  obtain b where b: "encodePoint ?e p = (Inr (), after_point ?e p b)" using encodePoint_spec [OF ok(1,2)] by blast
  obtain k where k: "byte_bits (series_bytes (p # q # ps)) = series_bits ?e (p # q # ps) @ replicate k False"
    using byte_bits_series by blast
  have bits: "\<exists>xs. rest_of (d_br ?d) = byte_bits (PutVarint 0) @ to_bits 64 (dp_Value p) @ byte_bits (PutUvarint (zigzag (dp_Timestamp q))) @ xs"
    using k b ok(3) assms(1)
    by (simp add: newSeriesDecoder_def point_bits_def time_bits_def after_point_def Let_def PutVarint_def)
  then obtain xs where xs: "rest_of (d_br ?d) = byte_bits (PutVarint 0) @ to_bits 64 (dp_Value p) @
      byte_bits (PutUvarint (zigzag (dp_Timestamp q))) @ xs" by blast
  obtain r1 where r1: "ReadVarint ReadByte (d_br ?d) = (Inr 0, r1)" "reader_ok r1"
      "rest_of r1 = to_bits 64 (dp_Value p) @ byte_bits (PutUvarint (zigzag (dp_Timestamp q))) @ xs"
    using bit_reader.ReadVarint_put [OF _ xs] by (auto simp: newSeriesDecoder_def int64_range_def)
  obtain r2 where r2: "readBits 64 r1 = (Inr (dp_Value p), r2)" "rest_of r2 = byte_bits (PutUvarint (zigzag (dp_Timestamp q))) @ xs" "reader_ok r2"
    using readBits_ok [of r1 64 "dp_Value p"] r1 by auto
  let ?d1 = "?d\<lparr>d_br := r2, d_t := 0, d_v := dp_Value p, d_numRead := 1\<rparr>"
  have d1: "decodePoint ?d = (Inr (point 0 (dp_Value p)), ?d1)" using r1(1) r2(1) by (simp add: decodePoint_def newSeriesDecoder_def)
  have "dp_Timestamp q' \<noteq> dp_Timestamp q" if "decodePoint ?d1 = (Inr q', d2)" for q' d2
    using decode_second_time [OF _ _ _ that, of "zigzag (dp_Timestamp q)" xs] r2(2,3) zigzag_neq [of "dp_Timestamp q"] assms(2,3)
    by (simp add: point_ok_def)
  hence "decodePoints (length (p # q # ps)) ?d \<noteq> Inr (p # q # ps)"
    using d1 by (cases "decodePoint ?d1") (fastforce split: sum.splits simp: map_sum_def)
  thus ?thesis using flush_series [of f "p # q # ps"] by (intro exI [of _ "f @ series_bytes (p # q # ps)"]) simp
qed

theorem zero_timestamp_lost_witness:
  "\<exists>file. gorilla_flush append_write (encodePoints (newSeriesEncoder []) [point 0 5, point 7 5]) = (Inr (), newSeriesEncoder file)
     \<and> decodePoints 2 (newSeriesDecoder file) \<noteq> Inr [point 0 5, point 7 5]"
  using zero_timestamp_lost [of "point 0 5" "point 7 5" "[]" "[]" "[]"] by (simp add: point_ok_def int64_range_def numeral_2_eq_2)

end
