(* ===== verification/Memory_Metric.thy ===== *)
theory Memory_Metric
  imports Data_Model Gorilla_Series
begin

text \<open>
  \<open>memoryMetric\<close> of \<open>src/memory_partition.go\<close>: the points of one series on the heap. Points
  that arrive in order of time are kept in \<open>points\<close>, the others in \<open>outOfOrderPoints\<close> until the
  partition is written to disk. \<open>selectPoints\<close> finds a range by binary search
  (\<open>sort.Search\<close>, modelled after the library's loop), \<open>encodeAllPoints\<close> merges both lists in
  order of time into a series encoder.

  \<open>insertPoint\<close> loads the size before it takes the lock. \<open>insertPoint_locked\<close> is the critical
  section with the loaded size as an argument, \<open>insertPoint\<close> is the whole method when no other
  goroutine runs in between.
\<close>

section \<open>The metric\<close>

record memoryMetric =
  mm_name :: string
  mm_size :: int64
  mm_minTimestamp :: int64
  mm_maxTimestamp :: int64
  mm_points :: "DataPoint list"
  mm_outOfOrderPoints :: "DataPoint list"

text \<open>The composite literal of \<open>getMetric\<close>.\<close>

definition new_memoryMetric :: "string \<Rightarrow> memoryMetric" where
  "new_memoryMetric name = \<lparr>mm_name = name, mm_size = 0, mm_minTimestamp = 0, mm_maxTimestamp = 0,
     mm_points = [], mm_outOfOrderPoints = []\<rparr>"

text \<open>Indexing a slice of points: out of range it panics.\<close>

definition timestamp_at :: "DataPoint list \<Rightarrow> int \<Rightarrow> int64 result" where
  "timestamp_at ps i =
     (if 0 \<le> i \<and> i < int (length ps) then Inr (dp_Timestamp (ps ! nat i))
      else Inl (Panic ''index out of range''))"

definition insertPoint_locked :: "int64 \<Rightarrow> DataPoint \<Rightarrow> memoryMetric \<Rightarrow> unit result \<times> memoryMetric" where
  "insertPoint_locked sz p m =
     (if sz = 0 then
        (Inr (), m\<lparr>mm_points := mm_points m @ [p],
           mm_minTimestamp := dp_Timestamp p, mm_maxTimestamp := dp_Timestamp p,
           mm_size := wrap64 (mm_size m + 1)\<rparr>)
      else case timestamp_at (mm_points m) (sz - 1) of
        Inl e \<Rightarrow> (Inl e, m)
      | Inr t \<Rightarrow>
          if t < dp_Timestamp p then
            (Inr (), m\<lparr>mm_points := mm_points m @ [p], mm_maxTimestamp := dp_Timestamp p,
               mm_size := wrap64 (mm_size m + 1)\<rparr>)
          else (Inr (), m\<lparr>mm_outOfOrderPoints := mm_outOfOrderPoints m @ [p]\<rparr>))"

definition insertPoint :: "DataPoint \<Rightarrow> memoryMetric \<Rightarrow> unit result \<times> memoryMetric" where
  "insertPoint p m = insertPoint_locked (mm_size m) p m"

section \<open>Binary search\<close>

text \<open>\<open>sort.Search(n, f)\<close> of Go's library; \<open>f\<close> may panic.\<close>

function search_loop :: "(nat \<Rightarrow> bool result) \<Rightarrow> nat \<Rightarrow> nat \<Rightarrow> nat result" where
  "search_loop f i j =
     (if i < j then
        let h = (i + j) div 2 in
        (case f h of
           Inl e \<Rightarrow> Inl e
         | Inr b \<Rightarrow> if \<not> b then search_loop f (h + 1) j else search_loop f i h)
      else Inr i)"
  by pat_completeness auto
termination
  by (relation "measure (\<lambda>(f, i, j). j - i)") auto

declare search_loop.simps [simp del]

definition sort_Search :: "nat \<Rightarrow> (nat \<Rightarrow> bool result) \<Rightarrow> nat result" where
  "sort_Search n f = search_loop f 0 n"

definition searchTimestamp :: "DataPoint list \<Rightarrow> int64 \<Rightarrow> int64 \<Rightarrow> nat result" where
  "searchTimestamp ps sz t =
     sort_Search (nat sz) (\<lambda>i. case timestamp_at ps (int i) of Inl e \<Rightarrow> Inl e | Inr ti \<Rightarrow> Inr (t \<le> ti))"

text \<open>The slice expression \<open>ps[i:j]\<close>.\<close>

definition slice_points :: "DataPoint list \<Rightarrow> nat \<Rightarrow> nat \<Rightarrow> DataPoint list result" where
  "slice_points ps i j =
     (if i \<le> j \<and> j \<le> length ps then Inr (drop i (take j ps))
      else Inl (Panic ''slice bounds out of range''))"

definition selectPoints :: "memoryMetric \<Rightarrow> int64 \<Rightarrow> int64 \<Rightarrow> DataPoint list result" where
  "selectPoints m start end =
     (let sz = mm_size m; minT = mm_minTimestamp m; maxT = mm_maxTimestamp m in
      if end \<le> minT then Inr []
      else
        case (if start \<le> minT then Inr 0 else searchTimestamp (mm_points m) sz start) of
          Inl e \<Rightarrow> Inl e
        | Inr startIdx \<Rightarrow>
            (case (if maxT \<le> end then Inr (nat sz) else searchTimestamp (mm_points m) sz end) of
               Inl e \<Rightarrow> Inl e
             | Inr endIdx \<Rightarrow> slice_points (mm_points m) startIdx endIdx))"

section \<open>Encoding all points\<close>

text \<open>
  The three loops, over the rest of both slices. The encoder is any implementation of
  \<open>seriesEncoder\<close>; the first error ends the loop.
\<close>

fun encode_merged ::
  "('e \<Rightarrow> DataPoint \<Rightarrow> unit result \<times> 'e) \<Rightarrow> DataPoint list \<Rightarrow> DataPoint list \<Rightarrow> 'e \<Rightarrow> unit result \<times> 'e"
  where
  "encode_merged enc (q # qs) (p # ps) e =
     (if dp_Timestamp q < dp_Timestamp p
      then andThen (enc e q) (\<lambda>_ e. encode_merged enc qs (p # ps) e) id
      else andThen (enc e p) (\<lambda>_ e. encode_merged enc (q # qs) ps e) id)"
| "encode_merged enc (q # qs) [] e = andThen (enc e q) (\<lambda>_ e. encode_merged enc qs [] e) id"
| "encode_merged enc [] (p # ps) e = andThen (enc e p) (\<lambda>_ e. encode_merged enc [] ps e) id"
| "encode_merged enc [] [] e = (Inr (), e)"

definition encodeAllPoints ::
  "(DataPoint list \<Rightarrow> DataPoint list) \<Rightarrow> ('e \<Rightarrow> DataPoint \<Rightarrow> unit result \<times> 'e) \<Rightarrow> memoryMetric \<Rightarrow> 'e
   \<Rightarrow> unit result \<times> (memoryMetric \<times> 'e)" where
  "encodeAllPoints srt enc m e =
     (let m = m\<lparr>mm_outOfOrderPoints := srt (mm_outOfOrderPoints m)\<rparr>;
          (r, e) = encode_merged enc (mm_outOfOrderPoints m) (mm_points m) e
      in (r, (m, e)))"

text \<open>\<open>src/fake_encoder.go\<close>: a nil function encodes every point successfully.\<close>

definition fake_encodePoint ::
  "('e \<Rightarrow> DataPoint \<Rightarrow> unit result \<times> 'e) option \<Rightarrow> 'e \<Rightarrow> DataPoint \<Rightarrow> unit result \<times> 'e" where
  "fake_encodePoint encodePointFunc e p =
     (case encodePointFunc of None \<Rightarrow> (Inr (), e) | Some f \<Rightarrow> f e p)"

definition fake_flush :: "('e \<Rightarrow> unit result \<times> 'e) option \<Rightarrow> 'e \<Rightarrow> unit result \<times> 'e" where
  "fake_flush flushFunc e = (case flushFunc of None \<Rightarrow> (Inr (), e) | Some f \<Rightarrow> f e)"

section \<open>Invariant\<close>

definition metric_ok :: "memoryMetric \<Rightarrow> bool" where
  "metric_ok m \<longleftrightarrow>
     mm_size m = int (length (mm_points m)) \<and>
     sorted_wrt (<) (map dp_Timestamp (mm_points m)) \<and>
     (if mm_points m = [] then
        mm_minTimestamp m = 0 \<and> mm_maxTimestamp m = 0 \<and> mm_outOfOrderPoints m = []
      else
        mm_minTimestamp m = dp_Timestamp (hd (mm_points m)) \<and>
        mm_maxTimestamp m = dp_Timestamp (last (mm_points m)) \<and>
        (\<forall>q \<in> set (mm_outOfOrderPoints m). dp_Timestamp q \<le> mm_maxTimestamp m))"

text \<open>The points of a metric, in and out of order.\<close>

definition metric_points :: "memoryMetric \<Rightarrow> DataPoint multiset" where
  "metric_points m = mset (mm_points m) + mset (mm_outOfOrderPoints m)"

text \<open>A slice of points always fits into memory; its length is an \<open>int\<close>.\<close>

definition has_room :: "memoryMetric \<Rightarrow> bool" where
  "has_room m \<longleftrightarrow> int (length (mm_points m)) + 1 < 2 ^ 63"

section \<open>Lemmas\<close>

lemma metric_ok_new [simp, go_inv]: "metric_ok (new_memoryMetric name)"
  by (simp add: metric_ok_def new_memoryMetric_def)

lemma mm_name_new [simp]: "mm_name (new_memoryMetric name) = name"
  by (simp add: new_memoryMetric_def)

lemma metric_points_new [simp]: "metric_points (new_memoryMetric name) = {#}"
  by (simp add: metric_points_def new_memoryMetric_def)

lemma sorted_wrt_snoc:
  "sorted_wrt (<) (map f xs) \<Longrightarrow> (xs \<noteq> [] \<Longrightarrow> f (last xs) < f x) \<Longrightarrow>
   sorted_wrt (<) (map f (xs @ [x]) :: 'a::linorder list)"
proof (induction xs)
  case (Cons y ys)
  have "f y < f x"
  proof (cases "ys = []")
    case False
    hence "f y < f (last ys)" using Cons.prems(1) by simp
    thus ?thesis using Cons.prems(2) False by simp
  qed (use Cons.prems in simp)
  thus ?case using Cons by (auto split: if_splits)
qed simp

lemma timestamp_at_last:
  assumes "metric_ok m" "mm_points m \<noteq> []"
  shows "timestamp_at (mm_points m) (mm_size m - 1) = Inr (mm_maxTimestamp m)"
proof -
  have "nat (int (length (mm_points m)) - 1) = length (mm_points m) - 1" by simp
  thus ?thesis using assms by (cases "mm_points m") (auto simp: timestamp_at_def metric_ok_def last_conv_nth)
qed

lemma insertPoint_empty:
  assumes "metric_ok m" "mm_points m = []"
  shows "insertPoint p m = (Inr (), m\<lparr>mm_points := [p], mm_minTimestamp := dp_Timestamp p,
     mm_maxTimestamp := dp_Timestamp p, mm_size := 1\<rparr>)"
  using assms by (simp add: insertPoint_def insertPoint_locked_def metric_ok_def int64_range_def)

lemma insertPoint_nonempty:
  assumes "metric_ok m" "has_room m" "mm_points m \<noteq> []"
  shows "insertPoint p m = (Inr (),
     if mm_maxTimestamp m < dp_Timestamp p
     then m\<lparr>mm_points := mm_points m @ [p], mm_maxTimestamp := dp_Timestamp p, mm_size := mm_size m + 1\<rparr>
     else m\<lparr>mm_outOfOrderPoints := mm_outOfOrderPoints m @ [p]\<rparr>)"
proof -
  have sz: "mm_size m = int (length (mm_points m))" using assms(1) by (simp add: metric_ok_def)
  have "wrap64 (mm_size m + 1) = mm_size m + 1"
    by (rule wrap64_id) (use assms(2) sz in \<open>simp add: has_room_def int64_range_def\<close>)
  moreover have "mm_size m \<noteq> 0" using sz assms(3) by simp
  ultimately show ?thesis
    using timestamp_at_last [OF assms(1,3)] by (simp add: insertPoint_def insertPoint_locked_def)
qed

text \<open>
  The method never panics, keeps the invariant, adds exactly the point to the metric, and keeps
  every point that was selectable.
\<close>

lemma insertPoint_spec:
  assumes ok: "metric_ok m" and room: "has_room m"
  shows "\<exists>m'. insertPoint p m = (Inr (), m') \<and> metric_ok m' \<and> mm_name m' = mm_name m \<and>
    metric_points m' = add_mset p (metric_points m) \<and> set (mm_points m) \<subseteq> set (mm_points m') \<and>
    (mm_points m = [] \<or> mm_maxTimestamp m < dp_Timestamp p \<longrightarrow> p \<in> set (mm_points m'))"
proof (cases "mm_points m = []")
  case True
  thus ?thesis using ok insertPoint_empty [OF ok True, of p]
    by (simp add: metric_ok_def metric_points_def)
next
  case False
  note ins = insertPoint_nonempty [OF ok room False, of p]
  have last: "mm_maxTimestamp m = dp_Timestamp (last (mm_points m))"
    and sorted: "sorted_wrt (<) (map dp_Timestamp (mm_points m))"
    and ooo: "\<And>q. q \<in> set (mm_outOfOrderPoints m) \<Longrightarrow> dp_Timestamp q \<le> mm_maxTimestamp m"
    using ok False by (auto simp: metric_ok_def)
  show ?thesis
  proof (cases "mm_maxTimestamp m < dp_Timestamp p")
    case True
    have "sorted_wrt (<) (map dp_Timestamp (mm_points m @ [p]))"
      by (rule sorted_wrt_snoc [OF sorted]) (use True last in simp)
    thus ?thesis using ins True ok False ooo
      by (fastforce simp: metric_ok_def metric_points_def)
  next
    case ooop: False
    thus ?thesis using ins ok False
      by (auto simp: metric_ok_def metric_points_def)
  qed
qed

subsection \<open>Binary search\<close>

text \<open>
  With a monotone predicate, \<open>sort.Search\<close> returns the least index that satisfies it, and the
  length when there is none.
\<close>

lemma search_loop_least:
  assumes "\<And>k. k < n \<Longrightarrow> f k = Inr (c \<le> k)"
  shows "i \<le> c \<Longrightarrow> c \<le> j \<Longrightarrow> j \<le> n \<Longrightarrow> search_loop f i j = Inr c"
  using assms
proof (induction f i j rule: search_loop.induct)
  case (1 f i j)
  note f = "1.prems"(4)
  show ?case
  proof (cases "i < j")
    case True
    let ?h = "(i + j) div 2"
    have h: "i \<le> ?h" "?h < j" using True by auto
    have fh: "f ?h = Inr (c \<le> ?h)" using f [of ?h] h "1.prems"(3) by simp
    show ?thesis
    proof (cases "c \<le> ?h")
      case le: True
      have "search_loop f i ?h = Inr c"
        by (rule "1.IH"(2) [OF True refl fh]) (use le h "1.prems" in auto)
      thus ?thesis using True fh le by (subst search_loop.simps) (simp add: Let_def)
    next
      case gt: False
      have "search_loop f (?h + 1) j = Inr c"
        by (rule "1.IH"(1) [OF True refl fh]) (use gt h "1.prems" in auto)
      thus ?thesis using True fh gt by (subst search_loop.simps) (simp add: Let_def)
    qed
  next
    case False
    thus ?thesis using "1.prems" by (subst search_loop.simps) simp
  qed
qed

lemma sort_Search_least:
  assumes "\<And>k. k < n \<Longrightarrow> f k = Inr (c \<le> k)" "c \<le> n"
  shows "sort_Search n f = Inr c"
  unfolding sort_Search_def using assms by (intro search_loop_least [of n]) auto

text \<open>In a list in order of time, the points before a timestamp are a prefix.\<close>

abbreviation before :: "int64 \<Rightarrow> DataPoint list \<Rightarrow> DataPoint list" where
  "before t ps \<equiv> filter (\<lambda>p. dp_Timestamp p < t) ps"

lemma sorted_before:
  "sorted_wrt (<) (map dp_Timestamp ps) \<Longrightarrow>
     take (length (before t ps)) ps = before t ps \<and>
     drop (length (before t ps)) ps = filter (\<lambda>p. t \<le> dp_Timestamp p) ps"
proof (induction ps)
  case (Cons p ps)
  show ?case
  proof (cases "dp_Timestamp p < t")
    case False
    hence "filter (\<lambda>p. dp_Timestamp p < t) (p # ps) = []" "filter (\<lambda>q. t \<le> dp_Timestamp q) (p # ps) = p # ps"
      using Cons.prems by (auto simp: filter_empty_conv filter_id_conv)
    thus ?thesis by simp
  qed (use Cons in simp)
qed simp

lemma nth_before:
  assumes "sorted_wrt (<) (map dp_Timestamp ps)" "k < length ps"
  shows "t \<le> dp_Timestamp (ps ! k) \<longleftrightarrow> length (before t ps) \<le> k"
proof
  note parts = sorted_before [OF assms(1), of t]
  assume le: "t \<le> dp_Timestamp (ps ! k)"
  show "length (before t ps) \<le> k"
  proof (rule ccontr)
    assume "\<not> ?thesis"
    hence "ps ! k \<in> set (take (length (before t ps)) ps)"
      using assms(2) by (auto simp: in_set_conv_nth intro!: exI [of _ k])
    hence "ps ! k \<in> set (before t ps)" using parts by simp
    thus False using le by simp
  qed
next
  note parts = sorted_before [OF assms(1), of t]
  assume "length (before t ps) \<le> k"
  hence "ps ! k \<in> set (drop (length (before t ps)) ps)"
    using assms(2) by (auto simp: in_set_conv_nth intro!: exI [of _ "k - length (before t ps)"])
  thus "t \<le> dp_Timestamp (ps ! k)" using parts by simp
qed

lemma searchTimestamp_before:
  assumes "sorted_wrt (<) (map dp_Timestamp ps)" "sz = int (length ps)"
  shows "searchTimestamp ps sz t = Inr (length (before t ps))"
  unfolding searchTimestamp_def
  by (rule sort_Search_least) (use assms in \<open>simp_all add: timestamp_at_def nth_before\<close>)

subsection \<open>Selection\<close>

text \<open>
  The points a selection returns: those within the range, and the newest one also when it lies
  exactly at the end of a range that begins its search after the oldest.
\<close>

definition in_range :: "memoryMetric \<Rightarrow> int64 \<Rightarrow> int64 \<Rightarrow> DataPoint \<Rightarrow> bool" where
  "in_range m start end p \<longleftrightarrow> start \<le> dp_Timestamp p \<and>
     (dp_Timestamp p < end \<or>
      dp_Timestamp p = end \<and> end = mm_maxTimestamp m \<and> mm_minTimestamp m < end)"

lemma metric_ok_bounds:
  assumes "metric_ok m" "p \<in> set (mm_points m)"
  shows "mm_minTimestamp m \<le> dp_Timestamp p" "dp_Timestamp p \<le> mm_maxTimestamp m"
proof -
  have ne: "mm_points m \<noteq> []" and sorted: "sorted (map dp_Timestamp (mm_points m))"
    and min: "mm_minTimestamp m = dp_Timestamp (hd (mm_points m))"
    and max: "mm_maxTimestamp m = dp_Timestamp (last (mm_points m))"
    using assms strict_sorted_imp_sorted [of "map dp_Timestamp (mm_points m)"]
    by (auto simp: metric_ok_def split: if_splits)
  show "mm_minTimestamp m \<le> dp_Timestamp p"
    using ne sorted assms(2) min by (cases "mm_points m") auto
  show "dp_Timestamp p \<le> mm_maxTimestamp m"
    using ne sorted assms(2) max
    by (cases "mm_points m" rule: rev_cases) (auto simp: sorted_append)
qed

lemma selectPoints_eq:
  assumes ok: "metric_ok m" and "start < end"
  shows "selectPoints m start end = Inr (filter (in_range m start end) (mm_points m))"
proof (cases "end \<le> mm_minTimestamp m")
  case True
  have "\<not> in_range m start end p" if "p \<in> set (mm_points m)" for p
    using metric_ok_bounds [OF ok that] True by (auto simp: in_range_def)
  thus ?thesis using True by (simp add: selectPoints_def Let_def)
next
  case False
  let ?ps = "mm_points m"
  have sz: "mm_size m = int (length ?ps)" and sorted: "sorted_wrt (<) (map dp_Timestamp ?ps)"
    using ok by (auto simp: metric_ok_def)
  note bounds = metric_ok_bounds [OF ok] and search = searchTimestamp_before [OF sorted sz]
  let ?i = "if start \<le> mm_minTimestamp m then 0 else length (before start ?ps)"
  let ?j = "if mm_maxTimestamp m \<le> end then length ?ps else length (before end ?ps)"
  let ?upto = "\<lambda>p. dp_Timestamp p < end \<or> mm_maxTimestamp m \<le> end"
  have code: "selectPoints m start end = slice_points ?ps ?i ?j"
    using False by (auto simp: selectPoints_def search Let_def) (simp_all add: sz)
  have pre: "take ?j ?ps = filter ?upto ?ps"
    using sorted_before [OF sorted, of "end"] by simp
  have sorted': "sorted_wrt (<) (map dp_Timestamp (filter ?upto ?ps))"
    using sorted by (simp add: sorted_wrt_map sorted_wrt_filter)
  have start: "before start (filter ?upto ?ps) = before start ?ps"
    using \<open>start < end\<close> by (auto intro!: filter_cong)
  have post: "drop ?i (filter ?upto ?ps) = filter (\<lambda>p. start \<le> dp_Timestamp p) (filter ?upto ?ps)"
  proof (cases "start \<le> mm_minTimestamp m")
    case True
    hence "filter (\<lambda>p. start \<le> dp_Timestamp p) (filter ?upto ?ps) = filter ?upto ?ps"
      by (simp add: filter_id_conv del: filter_filter) (use bounds in force)
    thus ?thesis using True by simp
  next
    case False
    thus ?thesis using sorted_before [OF sorted', of start] start by simp
  qed
  have len: "?i \<le> ?j"
  proof -
    have "length (before start ?ps) \<le> length (filter ?upto ?ps)"
      unfolding start [symmetric] by (rule length_filter_le)
    thus ?thesis using pre [symmetric] length_filter_le [of _ ?ps] by auto
  qed
  have "filter (\<lambda>p. start \<le> dp_Timestamp p) (filter ?upto ?ps) = filter (in_range m start end) ?ps"
    unfolding filter_filter
    by (rule filter_cong [OF refl]) (use bounds False in \<open>force simp: in_range_def\<close>)
  moreover have "slice_points ?ps ?i ?j = Inr (drop ?i (take ?j ?ps))"
    using len length_filter_le [of _ ?ps] by (simp add: slice_points_def)
  ultimately show ?thesis using code pre post by simp
qed

subsection \<open>Encoding\<close>

text \<open>The order in which the points are encoded: of equal timestamps, the ordered point is first.\<close>

fun merged :: "DataPoint list \<Rightarrow> DataPoint list \<Rightarrow> DataPoint list" where
  "merged (q # qs) (p # ps) =
     (if dp_Timestamp q < dp_Timestamp p then q # merged qs (p # ps) else p # merged (q # qs) ps)"
| "merged qs [] = qs"
| "merged [] ps = ps"

lemma mset_merged [simp]: "mset (merged qs ps) = mset qs + mset ps"
  by (induction qs ps rule: merged.induct) auto

lemma set_merged [simp]: "set (merged qs ps) = set qs \<union> set ps"
  by (metis mset_merged set_mset_mset set_mset_union)

lemma sorted_merged:
  "sorted (map dp_Timestamp qs) \<Longrightarrow> sorted (map dp_Timestamp ps) \<Longrightarrow> sorted (map dp_Timestamp (merged qs ps))"
  by (induction qs ps rule: merged.induct) auto

text \<open>The interface \<open>seriesEncoder\<close>: a usable encoder takes a point without failing and stays usable.\<close>

locale series_encoder =
  fixes enc :: "'e \<Rightarrow> DataPoint \<Rightarrow> unit result \<times> 'e"
    and usable :: "'e \<Rightarrow> bool"
  assumes enc_usable: "usable e \<Longrightarrow> \<exists>e'. enc e p = (Inr (), e') \<and> usable e'"
begin

abbreviation enc_all :: "'e \<Rightarrow> DataPoint list \<Rightarrow> 'e" where
  "enc_all \<equiv> foldl (\<lambda>e p. snd (enc e p))"

lemma usable_enc_all: "usable e \<Longrightarrow> usable (enc_all e ps)"
proof (induction ps arbitrary: e)
  case (Cons p ps)
  thus ?case using enc_usable [of e p] by fastforce
qed simp

lemma encode_one_list:
  "usable e \<Longrightarrow> encode_merged enc qs [] e = (Inr (), enc_all e qs)"
  "usable e \<Longrightarrow> encode_merged enc [] qs e = (Inr (), enc_all e qs)"
proof (induction qs arbitrary: e)
  case (Cons q qs)
  case 1
  obtain e' where "enc e q = (Inr (), e')" "usable e'" using 1 enc_usable by blast
  thus ?case using Cons.IH(1) by simp
next
  case (Cons q qs)
  case 2
  obtain e' where "enc e q = (Inr (), e')" "usable e'" using 2 enc_usable by blast
  thus ?case using Cons.IH(2) by simp
qed simp_all

lemma encode_merged_eq: "usable e \<Longrightarrow> encode_merged enc qs ps e = (Inr (), enc_all e (merged qs ps))"
proof (induction qs ps arbitrary: e rule: merged.induct)
  case (1 q qs p ps)
  obtain eq ep where "enc e q = (Inr (), eq)" "usable eq" "enc e p = (Inr (), ep)" "usable ep"
    using "1.prems" enc_usable by blast
  thus ?case using 1 by simp
qed (simp_all add: encode_one_list del: encode_merged.simps)

lemma encodeAllPoints_eq:
  "usable e \<Longrightarrow> encodeAllPoints srt enc m e =
     (Inr (), m\<lparr>mm_outOfOrderPoints := srt (mm_outOfOrderPoints m)\<rparr>,
      enc_all e (merged (srt (mm_outOfOrderPoints m)) (mm_points m)))"
  by (simp add: encodeAllPoints_def encode_merged_eq)

end

text \<open>Both implementations: the Gorilla encoder, and the fake encoder without a function.\<close>

definition encoder_ok :: "'w gorillaEncoder \<Rightarrow> bool" where
  "encoder_ok e \<longleftrightarrow> bstream_ok (e_buf e) \<and> window_ok (e_window e)"

lemma encoder_ok_new [simp]: "encoder_ok (newSeriesEncoder w)"
  by (simp add: encoder_ok_def newSeriesEncoder_def window_ok_def)

lemma encoder_ok_encodePoint:
  assumes "encoder_ok e"
  shows "\<exists>e'. encodePoint e p = (Inr (), e') \<and> encoder_ok e'"
proof -
  obtain b where "encodePoint e p = (Inr (), after_point e p b)" "bstream_ok b"
    using assms encodePoint_spec [of e p] by (auto simp: encoder_ok_def)
  moreover have "window_ok (e_window (after_point e p b))"
    using assms window_ok_next by (auto simp: encoder_ok_def after_point_def Let_def)
  ultimately show ?thesis by (auto simp: encoder_ok_def after_point_def Let_def)
qed

interpretation gorilla: series_encoder encodePoint encoder_ok
  by unfold_locales (rule encoder_ok_encodePoint)

interpretation fake: series_encoder "fake_encodePoint None" "\<lambda>_. True"
  by unfold_locales (simp add: fake_encodePoint_def)

lemma encodePoints_foldl: "encodePoints e ps = foldl (\<lambda>e p. snd (encodePoint e p)) e ps"
  by (induction ps arbitrary: e) simp_all

text \<open>The points of a metric in the order of the file.\<close>

definition metric_series :: "(DataPoint list \<Rightarrow> DataPoint list) \<Rightarrow> memoryMetric \<Rightarrow> DataPoint list" where
  "metric_series srt m = merged (srt (mm_outOfOrderPoints m)) (mm_points m)"

lemma mset_metric_series [simp]:
  "slice_sort dp_Timestamp srt \<Longrightarrow> mset (metric_series srt m) = metric_points m"
  by (simp add: metric_series_def metric_points_def slice_sort.mset_srt)

lemma sorted_metric_series:
  assumes "slice_sort dp_Timestamp srt" "metric_ok m"
  shows "sorted (map dp_Timestamp (metric_series srt m))"
  unfolding metric_series_def
  by (rule sorted_merged)
     (use assms strict_sorted_imp_sorted in \<open>auto simp: metric_ok_def slice_sort.sorted_srt\<close>)

lemma encodeAllPoints_gorilla:
  "encoder_ok e \<Longrightarrow> encodeAllPoints srt encodePoint m e =
     (Inr (), m\<lparr>mm_outOfOrderPoints := srt (mm_outOfOrderPoints m)\<rparr>, encodePoints e (metric_series srt m))"
  by (simp add: gorilla.encodeAllPoints_eq encodePoints_foldl metric_series_def)

subsection \<open>Histories of insertions\<close>

fun insertPoints :: "DataPoint list \<Rightarrow> memoryMetric \<Rightarrow> unit result \<times> memoryMetric" where
  "insertPoints [] m = (Inr (), m)"
| "insertPoints (p # ps) m = andThen (insertPoint p m) (\<lambda>_ m. insertPoints ps m) id"

lemma insertPoints_ordered:
  assumes "metric_ok m" "mm_outOfOrderPoints m = []" "int (length (mm_points m @ ps)) < 2 ^ 63"
    "sorted_wrt (<) (map dp_Timestamp (mm_points m @ ps))"
  shows "\<exists>m'. insertPoints ps m = (Inr (), m') \<and> metric_ok m' \<and> mm_points m' = mm_points m @ ps \<and>
    mm_outOfOrderPoints m' = []"
  using assms
proof (induction ps arbitrary: m)
  case Nil
  thus ?case by simp
next
  case (Cons p ps)
  have room: "has_room m" using Cons.prems(3) by (simp add: has_room_def)
  obtain m1 where m1: "insertPoint p m = (Inr (), m1)" "metric_ok m1"
    using insertPoint_spec [OF Cons.prems(1) room, of p] by blast
  have pts: "mm_points m1 = mm_points m @ [p] \<and> mm_outOfOrderPoints m1 = []"
  proof (cases "mm_points m = []")
    case True
    thus ?thesis using m1(1) insertPoint_empty [OF Cons.prems(1) True, of p] Cons.prems(2) by auto
  next
    case False
    hence "mm_maxTimestamp m < dp_Timestamp p"
      using Cons.prems(1,4) by (simp add: metric_ok_def sorted_wrt_append)
    thus ?thesis using m1(1) insertPoint_nonempty [OF Cons.prems(1) room False, of p] Cons.prems(2) by auto
  qed
  show ?case using Cons.IH [OF m1(2)] pts m1(1) Cons.prems(3,4) by simp
qed

section \<open>Properties\<close>

text \<open>
  C17: Inserting a point into a metric never panics, keeps the metric's invariant (the ordered
  points strictly increasing in time, the cached size and bounds exact), adds exactly that point
  to the metric, and makes it selectable at once when it is the first or newer than every
  ordered one.
\<close>

theorem insertPoint_correct:
  assumes "metric_ok m" and "has_room m"
  shows "\<exists>m'. insertPoint p m = (Inr (), m') \<and> metric_ok m' \<and>
    metric_points m' = add_mset p (metric_points m) \<and> set (mm_points m) \<subseteq> set (mm_points m') \<and>
    (mm_points m = [] \<or> mm_maxTimestamp m < dp_Timestamp p \<longrightarrow> p \<in> set (mm_points m'))"
  using insertPoint_spec [OF assms, of p] by blast

theorem insertPoint_correct_witness:
  "\<exists>m'. insertPoint (point 5 1) (new_memoryMetric ''m'') = (Inr (), m') \<and> metric_ok m' \<and>
    metric_points m' = {#point 5 1#} \<and> point 5 1 \<in> set (mm_points m')"
  using insertPoint_correct [of "new_memoryMetric ''m''" "point 5 1"]
  by (auto simp: has_room_def new_memoryMetric_def metric_points_def metric_ok_def)

text \<open>
  C16: \<open>selectPoints\<close> never panics for a non-empty range and its binary searches return exactly
  the ordered points with \<open>start <= t < end\<close>, in order, and the newest ordered point also when
  \<open>t = end\<close>, provided that the metric's first point is older. So \<open>end\<close> is not exclusive, as the
  documentation of \<open>Select\<close> says it is.
\<close>

theorem selectPoints_correct:
  assumes "metric_ok m" and "start < end"
  shows "selectPoints m start end = Inr (filter (\<lambda>p. start \<le> dp_Timestamp p \<and>
     (dp_Timestamp p < end \<or>
      dp_Timestamp p = end \<and> end = mm_maxTimestamp m \<and> mm_minTimestamp m < end)) (mm_points m))"
  using selectPoints_eq [OF assms] by (simp add: in_range_def [abs_def])

definition three_points :: memoryMetric where
  "three_points = snd (insertPoints [point 1 10, point 3 30, point 2 20, point 6 60] (new_memoryMetric ''m''))"

lemma three_points_eq:
  "three_points = \<lparr>mm_name = ''m'', mm_size = 3, mm_minTimestamp = 1, mm_maxTimestamp = 6,
     mm_points = [point 1 10, point 3 30, point 6 60], mm_outOfOrderPoints = [point 2 20]\<rparr>"
  by code_simp

lemma three_points_ok: "metric_ok three_points"
  by (simp add: three_points_eq metric_ok_def)

lemma three_points_points:
  "metric_points three_points = {#point 1 10, point 3 30, point 6 60, point 2 20#}"
  "size (metric_points three_points) = 4"
  by (simp_all add: metric_points_def three_points_eq)

theorem selectPoints_correct_witness:
  "selectPoints three_points 2 6 = Inr [point 3 30, point 6 60]"
  using selectPoints_correct [of three_points 2 6] three_points_ok
  by (simp add: three_points_eq)

text \<open>
  Points inserted in strictly increasing order of time are all selectable: a later selection
  of a range that does not end at the newest timestamp returns exactly the inserted points of
  the range, in order.
\<close>

theorem ordered_insert_select:
  assumes "sorted_wrt (<) (map dp_Timestamp ps)" and "int (length ps) < 2 ^ 63"
    and "start < end" and "ps = [] \<or> end \<noteq> dp_Timestamp (last ps)"
  shows "\<exists>m. insertPoints ps (new_memoryMetric name) = (Inr (), m) \<and>
    selectPoints m start end = Inr (filter (\<lambda>p. start \<le> dp_Timestamp p \<and> dp_Timestamp p < end) ps)"
proof -
  obtain m where m: "insertPoints ps (new_memoryMetric name) = (Inr (), m)" "metric_ok m" "mm_points m = ps"
    using insertPoints_ordered [of "new_memoryMetric name" ps] assms(1,2)
    by (auto simp: new_memoryMetric_def metric_ok_def)
  have "filter (in_range m start end) ps = filter (\<lambda>p. start \<le> dp_Timestamp p \<and> dp_Timestamp p < end) ps"
    by (rule filter_cong) (use m(2,3) assms(4) in \<open>auto simp: in_range_def metric_ok_def split: if_splits\<close>)
  thus ?thesis using selectPoints_eq [OF m(2) assms(3)] m by simp
qed

theorem ordered_insert_select_witness:
  "\<exists>m. insertPoints [point 1 10, point 3 30, point 6 60] (new_memoryMetric ''m'') = (Inr (), m) \<and>
    selectPoints m 2 5 = Inr [point 3 30]"
  using ordered_insert_select [of "[point 1 10, point 3 30, point 6 60]" 2 5 "''m''"] by simp

text \<open>
  C30: Writing a metric to a file with the Gorilla encoder writes every point of the metric, also
  those that arrived out of order, once, in order of time: when no timestamp is zero, reading back as
  many points as the metric has gives a list sorted by time with exactly the metric's points.
\<close>

theorem encodeAllPoints_roundtrip:
  assumes "slice_sort dp_Timestamp srt" and "metric_ok m"
    and "\<forall>p \<in># metric_points m. point_ok p \<and> dp_Timestamp p \<noteq> 0"
  shows "\<exists>m' e file ps. encodeAllPoints srt encodePoint m (newSeriesEncoder f) = (Inr (), m', e) \<and>
    gorilla_flush append_write e = (Inr (), newSeriesEncoder (f @ file)) \<and>
    decodePoints (size (metric_points m)) (newSeriesDecoder (file @ rest)) = Inr ps \<and>
    mset ps = metric_points m \<and> sorted (map dp_Timestamp ps)"
proof -
  let ?ps = "metric_series srt m"
  have mset: "mset ?ps = metric_points m" using assms(1) by simp
  have "\<forall>p \<in> set ?ps. point_ok p \<and> dp_Timestamp p \<noteq> 0"
    using assms(3) mset by (metis set_mset_mset)
  hence "series_ok (newSeriesEncoder ([] :: byte list)) ?ps"
    by (intro series_ok_newI) (auto dest: in_set_takeD)
  hence "decodePoints (length ?ps) (newSeriesDecoder (series_bytes ?ps @ rest)) = Inr ?ps"
    by (rule series_roundtrip)
  moreover have "length ?ps = size (metric_points m)" using mset by (metis size_mset)
  ultimately show ?thesis
    using encodeAllPoints_gorilla [of "newSeriesEncoder f" srt m] flush_series [of f ?ps] mset
      sorted_metric_series [OF assms(1,2)] by auto
qed

theorem encodeAllPoints_roundtrip_witness:
  "\<exists>m' e file ps. encodeAllPoints (sort_key dp_Timestamp) encodePoint three_points (newSeriesEncoder [])
      = (Inr (), m', e) \<and>
    gorilla_flush append_write e = (Inr (), newSeriesEncoder file) \<and>
    decodePoints 4 (newSeriesDecoder file) = Inr ps \<and>
    mset ps = {#point 1 10, point 3 30, point 6 60, point 2 20#} \<and> sorted (map dp_Timestamp ps)"
  using encodeAllPoints_roundtrip [of "sort_key dp_Timestamp" three_points "[]" "[]",
      OF stable_sort.slice_sort_axioms three_points_ok, unfolded three_points_points(2),
      unfolded three_points_points(1)]
  by (simp add: point_ok_def int64_range_def del: decodePoints.simps)

end
