(* ===== verification/Labels.thy ===== *)
theory Labels
  imports Data_Model
begin

text \<open>
  \<open>src/label.go\<close> and \<open>src/internal/encoding/int.go\<close>: the encoding of a metric name with its
  labels into the one string that identifies a series in a partition. The labels are sorted by
  name (\<open>sort.Slice\<close>, the parameter \<open>srt\<close>), invalid labels are skipped, long names and values
  truncated, and every string is written behind its length as a big-endian \<open>uint16\<close>.

  Sorting and truncation happen in the caller's slice, so \<open>marshalMetricName\<close> returns the
  labels it leaves behind next to the name.

  The lemmas give a decoder for the format and the round trip, from which follow that labelled
  series are told apart exactly by their metric and their labels, that the order of the labels
  does not matter, and that the buffer size computed in advance is the final length. They also
  show where the name is not unique: a metric without labels is its own name, with no prefix.
\<close>

section \<open>Big-endian 16-bit integers\<close>

definition MarshalUint16 :: "byte list \<Rightarrow> uint16 \<Rightarrow> byte list" where
  "MarshalUint16 dst u = dst @ [ucast (drop_bit 8 u), ucast u]"

text \<open>\<open>binary.BigEndian.Uint16\<close> reads the second byte first and panics on a shorter slice.\<close>

fun UnmarshalUint16 :: "byte list \<Rightarrow> uint16 result" where
  "UnmarshalUint16 (b0 # b1 # src) = Inr (ucast b1 OR push_bit 8 (ucast b0))"
| "UnmarshalUint16 _ = Inl (Panic ''index out of range'')"

section \<open>Metric names\<close>

definition maxLabelNameLen :: nat where
  "maxLabelNameLen = 256"

definition maxLabelValueLen :: nat where
  "maxLabelValueLen = 16 * 1024"

definition invalid :: "Label \<Rightarrow> bool" where
  "invalid l \<longleftrightarrow> l_Name l = [] \<or> l_Value l = []"

text \<open>The first loop over the sorted labels: truncation in place and the size of the buffer.\<close>

definition truncateLabel :: "Label \<Rightarrow> Label" where
  "truncateLabel l =
     (if invalid l then l
      else l\<lparr>l_Name := take maxLabelNameLen (l_Name l),
             l_Value := take maxLabelValueLen (l_Value l)\<rparr>)"

definition labelSize :: "Label \<Rightarrow> nat" where
  "labelSize l = (if invalid l then 0 else length (l_Name l) + length (l_Value l) + 4)"

definition marshalSize :: "string \<Rightarrow> Label list \<Rightarrow> nat" where
  "marshalSize metric labels = length metric + 2 + sum_list (map labelSize labels)"

text \<open>The second loop: each valid label is appended to the buffer.\<close>

definition appendString :: "byte list \<Rightarrow> string \<Rightarrow> byte list" where
  "appendString out s = MarshalUint16 out (of_nat (length s)) @ string_bytes s"

definition appendLabel :: "byte list \<Rightarrow> Label \<Rightarrow> byte list" where
  "appendLabel out l =
     (if invalid l then out else appendString (appendString out (l_Name l)) (l_Value l))"

definition marshalMetricName ::
  "(Label list \<Rightarrow> Label list) \<Rightarrow> string \<Rightarrow> Label list \<Rightarrow> string \<times> Label list" where
  "marshalMetricName srt metric labels =
     (if labels = [] then (metric, labels)
      else
        let labels = map truncateLabel (srt labels);
            out = foldl appendLabel (appendString [] metric) labels
        in (bytes_string out, labels))"

abbreviation metricName :: "(Label list \<Rightarrow> Label list) \<Rightarrow> string \<Rightarrow> Label list \<Rightarrow> string" where
  "metricName srt metric labels \<equiv> fst (marshalMetricName srt metric labels)"

section \<open>What a name stands for\<close>

text \<open>The labels of a name: the valid ones, sorted by name and truncated.\<close>

definition validLabels :: "(Label list \<Rightarrow> Label list) \<Rightarrow> Label list \<Rightarrow> Label list" where
  "validLabels srt labels = filter (\<lambda>l. \<not> invalid l) (map truncateLabel (srt labels))"

text \<open>A decoder of the format, which the program does not have.\<close>

definition takeString :: "byte list \<Rightarrow> (string \<times> byte list) option" where
  "takeString bs =
     (case UnmarshalUint16 bs of
        Inl _ \<Rightarrow> None
      | Inr n \<Rightarrow>
          if length bs < unat n + 2 then None
          else Some (bytes_string (take (unat n) (drop 2 bs)), drop (unat n + 2) bs))"

lemma takeString_shorter: "takeString bs = Some (s, rest) \<Longrightarrow> length rest < length bs"
  by (cases bs rule: UnmarshalUint16.cases) (auto simp: takeString_def split: if_splits)

function takeLabels :: "byte list \<Rightarrow> Label list option" where
  "takeLabels bs =
     (if bs = [] then Some []
      else case takeString bs of
        None \<Rightarrow> None
      | Some (n, bs1) \<Rightarrow>
          (case takeString bs1 of
             None \<Rightarrow> None
           | Some (v, bs2) \<Rightarrow>
               map_option ((#) \<lparr>l_Name = n, l_Value = v\<rparr>) (takeLabels bs2)))"
  by pat_completeness auto
termination
  by (relation "measure length") (auto dest!: takeString_shorter)

declare takeLabels.simps [simp del]

definition unmarshalMetricName :: "string \<Rightarrow> (string \<times> Label list) option" where
  "unmarshalMetricName name =
     (case takeString (string_bytes name) of
        None \<Rightarrow> None
      | Some (metric, rest) \<Rightarrow> map_option (Pair metric) (takeLabels rest))"

section \<open>Lemmas\<close>

lemma UnmarshalUint16_MarshalUint16 [simp]:
  "UnmarshalUint16 (MarshalUint16 [] u @ bs) = Inr u"
proof -
  have "ucast (ucast u :: byte) OR push_bit 8 (ucast (ucast (drop_bit 8 u) :: byte)) = u"
    by (rule bit_word_eqI) (auto simp: bit_simps)
  thus ?thesis by (simp add: MarshalUint16_def)
qed

lemma MarshalUint16_append: "MarshalUint16 dst u = dst @ MarshalUint16 [] u"
  by (simp add: MarshalUint16_def)

lemma appendString_append: "appendString out s = out @ appendString [] s"
  by (simp add: appendString_def MarshalUint16_def)

lemma appendString_append2: "appendString (out @ bs) s = out @ appendString bs s"
  by (simp add: appendString_def MarshalUint16_def)

lemma appendString_neq_Nil [simp]: "appendString out s \<noteq> []"
  by (simp add: appendString_def MarshalUint16_def)

lemma length_appendString [simp]: "length (appendString out s) = length out + length s + 2"
  by (simp add: appendString_def MarshalUint16_def)

lemma takeString_appendString [simp]:
  assumes "length s < 65536"
  shows "takeString (appendString [] s @ bs) = Some (s, bs)"
proof -
  have "unat (of_nat (length s) :: uint16) = length s"
    using assms by (simp add: unat_of_nat)
  moreover have "UnmarshalUint16 (appendString [] s @ bs) = Inr (of_nat (length s))"
    by (simp only: appendString_def append_assoc UnmarshalUint16_MarshalUint16)
  moreover have "drop 2 (appendString [] s @ bs) = string_bytes s @ bs"
    by (simp add: appendString_def MarshalUint16_def)
  moreover have "drop (length s + 2) (appendString [] s @ bs) = bs"
    by simp
  ultimately show ?thesis by (simp add: takeString_def)
qed

definition labelBytes :: "Label \<Rightarrow> byte list" where
  "labelBytes l = appendLabel [] l"

lemma appendLabel_append: "appendLabel out l = out @ labelBytes l"
  by (metis append_Nil2 appendLabel_def appendString_append2 labelBytes_def)

lemma foldl_appendLabel: "foldl appendLabel out ls = out @ concat (map labelBytes ls)"
  by (induction ls arbitrary: out) (simp_all add: appendLabel_append)

lemma length_labelBytes [simp]: "length (labelBytes l) = labelSize l"
  by (simp add: labelBytes_def appendLabel_def labelSize_def)

lemma concat_labelBytes_valid:
  "concat (map labelBytes ls) = concat (map labelBytes (filter (\<lambda>l. \<not> invalid l) ls))"
  by (induction ls) (simp_all add: labelBytes_def appendLabel_def)

lemma labelBytes_neq_Nil: "\<not> invalid l \<Longrightarrow> labelBytes l \<noteq> []"
  using length_labelBytes [of l] by (auto simp: labelSize_def simp del: length_labelBytes)

lemma takeLabels_labelBytes:
  "(\<And>l. l \<in> set ls \<Longrightarrow> \<not> invalid l \<and> length (l_Name l) < 65536 \<and> length (l_Value l) < 65536) \<Longrightarrow>
   takeLabels (concat (map labelBytes ls)) = Some ls"
proof (induction ls)
  case Nil
  show ?case by (simp add: takeLabels.simps)
next
  case (Cons l ls)
  have l: "\<not> invalid l" "length (l_Name l) < 65536" "length (l_Value l) < 65536"
    using Cons.prems by auto
  have bytes: "labelBytes l @ bs = appendString [] (l_Name l) @ appendString [] (l_Value l) @ bs" for bs
    using l(1) by (simp add: labelBytes_def appendLabel_def appendString_append [of "appendString _ _"])
  have ne: "labelBytes l \<noteq> []" using l(1) by (rule labelBytes_neq_Nil)
  have IH: "takeLabels (concat (map labelBytes ls)) = Some ls"
    by (rule Cons.IH) (use Cons.prems in auto)
  show ?case
    by (subst takeLabels.simps) (use ne l in \<open>simp add: bytes IH\<close>)
qed

lemma truncateLabel_valid [simp]: "invalid (truncateLabel l) \<longleftrightarrow> invalid l"
  by (simp add: truncateLabel_def invalid_def maxLabelNameLen_def maxLabelValueLen_def)

lemma truncateLabel_bounds:
  assumes "\<not> invalid l"
  shows "length (l_Name (truncateLabel l)) \<le> 256" "length (l_Value (truncateLabel l)) \<le> 16384"
  using assms by (simp_all add: truncateLabel_def maxLabelNameLen_def maxLabelValueLen_def)

lemma validLabels_bounds:
  assumes "l \<in> set (validLabels srt labels)"
  shows "\<not> invalid l \<and> length (l_Name l) < 65536 \<and> length (l_Value l) < 65536"
proof -
  obtain l' where "l = truncateLabel l'" "\<not> invalid l'"
    using assms by (auto simp: validLabels_def)
  thus ?thesis using truncateLabel_bounds [of l'] by simp
qed

lemma metricName_labelled:
  assumes "labels \<noteq> []"
  shows "string_bytes (metricName srt metric labels)
       = appendString [] metric @ concat (map labelBytes (validLabels srt labels))"
  using assms concat_labelBytes_valid [of "map truncateLabel (srt labels)"]
  by (simp add: marshalMetricName_def Let_def foldl_appendLabel validLabels_def del: map_map)

lemma metricName_nil [simp]: "marshalMetricName srt metric [] = (metric, [])"
  by (simp add: marshalMetricName_def)

lemma unmarshal_labelled:
  assumes "labels \<noteq> []" "length metric < 65536"
  shows "unmarshalMetricName (metricName srt metric labels) = Some (metric, validLabels srt labels)"
  using assms takeLabels_labelBytes [of "validLabels srt labels"] validLabels_bounds
  by (simp add: unmarshalMetricName_def metricName_labelled)

section \<open>Properties\<close>

text \<open>
  The name of a labelled metric can be decoded: it carries the metric and its valid labels,
  sorted and truncated, whenever the metric is shorter than 65536 bytes (its length is written
  as a \<open>uint16\<close>).
\<close>

theorem marshalMetricName_roundtrip:
  assumes "labels \<noteq> []" and "length metric < 65536"
  shows "unmarshalMetricName (fst (marshalMetricName srt metric labels))
       = Some (metric, validLabels srt labels)"
  using assms by (rule unmarshal_labelled)

theorem marshalMetricName_roundtrip_witness:
  "unmarshalMetricName (fst (marshalMetricName (sort_key l_Name) ''metric1''
     [\<lparr>l_Name = ''host'', l_Value = ''a''\<rparr>, \<lparr>l_Name = ''app'', l_Value = ''''\<rparr>]))
   = Some (''metric1'', [\<lparr>l_Name = ''host'', l_Value = ''a''\<rparr>])"
  using marshalMetricName_roundtrip
    [of "[\<lparr>l_Name = ''host'', l_Value = ''a''\<rparr>, \<lparr>l_Name = ''app'', l_Value = ''''\<rparr>]"
        "''metric1''" "sort_key l_Name"]
  by (simp add: validLabels_def invalid_def truncateLabel_def maxLabelNameLen_def
      maxLabelValueLen_def sort_key_def)

text \<open>
  C22: Two labelled metrics shorter than 65536 bytes have the same name exactly when they are
  the same metric with the same valid labels.
\<close>

theorem marshalMetricName_unique:
  assumes "labels \<noteq> []" "labels' \<noteq> []" and "length metric < 65536" "length metric' < 65536"
  shows "fst (marshalMetricName srt metric labels) = fst (marshalMetricName srt metric' labels')
     \<longleftrightarrow> metric = metric' \<and> validLabels srt labels = validLabels srt labels'"
proof
  assume "metricName srt metric labels = metricName srt metric' labels'"
  thus "metric = metric' \<and> validLabels srt labels = validLabels srt labels'"
    using unmarshal_labelled [OF assms(1,3), of srt] unmarshal_labelled [OF assms(2,4), of srt] by simp
next
  assume "metric = metric' \<and> validLabels srt labels = validLabels srt labels'"
  hence "string_bytes (metricName srt metric labels) = string_bytes (metricName srt metric' labels')"
    using assms(1,2) by (simp add: metricName_labelled)
  thus "metricName srt metric labels = metricName srt metric' labels'" by simp
qed

theorem marshalMetricName_unique_witness:
  "fst (marshalMetricName (sort_key l_Name) ''m'' [\<lparr>l_Name = ''ab'', l_Value = ''c''\<rparr>])
   \<noteq> fst (marshalMetricName (sort_key l_Name) ''m'' [\<lparr>l_Name = ''a'', l_Value = ''bc''\<rparr>])"
  using marshalMetricName_unique
    [of "[\<lparr>l_Name = ''ab'', l_Value = ''c''\<rparr>]" "[\<lparr>l_Name = ''a'', l_Value = ''bc''\<rparr>]"
        "''m''" "''m''" "sort_key l_Name"]
  by (simp add: validLabels_def invalid_def truncateLabel_def maxLabelNameLen_def
      maxLabelValueLen_def sort_key_def)

text \<open>
  C23: The order in which the caller lists labels with distinct names does not matter, neither
  for the name nor for the labels left in the caller's slice, whatever way \<open>sort.Slice\<close> sorts.
\<close>

theorem marshalMetricName_order_independent:
  assumes "slice_sort l_Name srt" and "mset labels = mset labels'"
    and "distinct (map l_Name labels)"
  shows "marshalMetricName srt metric labels = marshalMetricName srt metric labels'"
proof (cases "labels = []")
  case True
  thus ?thesis using assms(2) by simp
next
  case False
  hence "labels' \<noteq> []" using assms(2) by auto
  moreover have "srt labels = srt labels'"
    using assms by (rule slice_sort.srt_cong_mset)
  ultimately show ?thesis using False by (simp add: marshalMetricName_def)
qed

theorem marshalMetricName_order_independent_witness:
  "marshalMetricName (sort_key l_Name) ''m''
     [\<lparr>l_Name = ''b'', l_Value = ''1''\<rparr>, \<lparr>l_Name = ''a'', l_Value = ''2''\<rparr>]
   = marshalMetricName (sort_key l_Name) ''m''
     [\<lparr>l_Name = ''a'', l_Value = ''2''\<rparr>, \<lparr>l_Name = ''b'', l_Value = ''1''\<rparr>]"
  by (rule marshalMetricName_order_independent)
     (simp_all add: stable_sort.slice_sort_axioms add_mset_commute)

text \<open>
  The buffer size computed in advance is exact, so the buffer is never reallocated: the
  name of a labelled metric has the computed size of the truncated labels.
\<close>

theorem marshalMetricName_size:
  assumes "labels \<noteq> []"
  shows "length (fst (marshalMetricName srt metric labels))
       = marshalSize metric (snd (marshalMetricName srt metric labels))"
proof -
  have "length (concat (map labelBytes ls)) = sum_list (map labelSize ls)" for ls
    by (induction ls) simp_all
  thus ?thesis using assms
    by (simp add: marshalMetricName_def Let_def foldl_appendLabel marshalSize_def bytes_string_def del: map_map)
qed

theorem marshalMetricName_size_witness:
  "length (fst (marshalMetricName (sort_key l_Name) ''m'' [\<lparr>l_Name = ''a'', l_Value = ''bc''\<rparr>])) = 10"
  using marshalMetricName_size [of "[\<lparr>l_Name = ''a'', l_Value = ''bc''\<rparr>]" "sort_key l_Name" "''m''"]
  by (simp add: marshalMetricName_def Let_def marshalSize_def labelSize_def invalid_def
      truncateLabel_def maxLabelNameLen_def maxLabelValueLen_def sort_key_def)

text \<open>
  The name is not unique over all series: the metric whose name is the nine bytes
  \<open>"\0\7metric1"\<close>, without labels, has the same name as \<open>metric1\<close> with one invalid label, and
  two different metrics then share a series.
\<close>

theorem marshalMetricName_collision:
  "fst (marshalMetricName (sort_key l_Name) (CHR 0x00 # CHR 0x07 # ''metric1'') [])
   = fst (marshalMetricName (sort_key l_Name) ''metric1'' [\<lparr>l_Name = ''host'', l_Value = ''''\<rparr>])"
  by code_simp

end
