(* ===== verification/Go_Time.thy ===== *)
theory Go_Time
  imports Data_Model "HOL-Library.Signed_Division"
begin

text \<open>
  What the program uses of Go's package \<open>time\<close>. A \<open>time.Duration\<close> is an \<open>int64\<close> of nanoseconds;
  a \<open>time.Time\<close> is the integer of nanoseconds since the Unix epoch. Go's integer division
  truncates towards zero (\<open>sdiv\<close>); \<open>Time.Unix\<close> rounds down. \<open>Duration.Seconds\<close> is a \<open>float64\<close>,
  which the program converts back to an integer: both of its roundings are computed here.
\<close>

type_synonym Duration = int64
type_synonym Time = int

definition Nanosecond :: Duration where "Nanosecond = 1"
definition Microsecond :: Duration where "Microsecond = 1000"
definition Millisecond :: Duration where "Millisecond = 1000000"
definition Second :: Duration where "Second = 1000000000"
definition Minute :: Duration where "Minute = 60 * Second"
definition Hour :: Duration where "Hour = 60 * Minute"

definition Duration_Microseconds :: "Duration \<Rightarrow> int64" where
  "Duration_Microseconds d = d sdiv 1000"

definition Duration_Milliseconds :: "Duration \<Rightarrow> int64" where
  "Duration_Milliseconds d = d sdiv 1000000"

text \<open>
  A positive rational \<open>a / b\<close> rounded to a 53-bit significand, to nearest, ties to even: the
  result \<open>(n, k)\<close> stands for \<open>n / 2 ^ k\<close>. For the values that occur here, from \<open>1e-9\<close> to below
  \<open>2 ^ 34\<close>, a scale below 128 always exists.
\<close>

definition round_even :: "int \<Rightarrow> int \<Rightarrow> int" where
  "round_even a b =
     (let q = a div b; r = a mod b in if 2 * r < b \<or> 2 * r = b \<and> even q then q else q + 1)"

definition float_round :: "int \<Rightarrow> int \<Rightarrow> int \<times> nat" where
  "float_round a b =
     (case find (\<lambda>k. 2 ^ 52 * b \<le> a * 2 ^ k) [0..<128] of
        Some k \<Rightarrow> (round_even (a * 2 ^ k) b, k)
      | None \<Rightarrow> (0, 0))"

text \<open>
  \<open>int64(d.Seconds())\<close>, where \<open>Seconds\<close> is \<open>float64(d / Second) + float64(d % Second) / 1e9\<close>: the
  quotient is rounded, then the sum, and the conversion drops the fraction. The sign is symmetric.
\<close>

definition abs_Seconds :: "int \<Rightarrow> int" where
  "abs_Seconds d =
     (let sec = d div 1000000000; nsec = d mod 1000000000;
          (n, k) = float_round nsec 1000000000;
          (n, k) = float_round (sec * 2 ^ k + n) (2 ^ k)
      in n div 2 ^ k)"

definition Duration_Seconds_int64 :: "Duration \<Rightarrow> int64" where
  "Duration_Seconds_int64 d = sgn d * abs_Seconds \<bar>d\<bar>"

definition UnixNano :: "Time \<Rightarrow> int64" where
  "UnixNano t = wrap64 t"

definition Unix :: "Time \<Rightarrow> int64" where
  "Unix t = wrap64 (t div 1000000000)"

section \<open>Lemmas\<close>

lemma find_SomeI:
  assumes "x \<in> set xs" "P x"
  shows "\<exists>y. find P xs = Some y \<and> P y"
proof (cases "find P xs")
  case None
  thus ?thesis using assms by (auto simp: find_None_iff)
next
  case (Some y)
  thus ?thesis by (auto simp: find_Some_iff)
qed

text \<open>An integer below \<open>2 ^ 53\<close> is exact, whatever fraction represents it.\<close>

lemma float_round_exact:
  assumes "s > 0" "b > 0" "float_round (s * b) b = (n, k)"
  shows "n = s * 2 ^ k"
proof -
  have "2 ^ 52 * b \<le> s * b * 2 ^ 52" using assms(1,2) mult_right_mono [of 1 s b] by simp
  hence "\<exists>k. find (\<lambda>k. 2 ^ 52 * b \<le> s * b * 2 ^ k) [0..<128] = Some k"
    using find_SomeI [of 52 "[0..<128]" "\<lambda>k. 2 ^ 52 * b \<le> s * b * 2 ^ k"] by auto
  then obtain k' where "find (\<lambda>k. 2 ^ 52 * b \<le> s * b * 2 ^ k) [0..<128] = Some k'" by blast
  hence "k = k'" "n = round_even (s * b * 2 ^ k) b" using assms(3) by (auto simp: float_round_def)
  moreover have "s * b * 2 ^ k = (s * 2 ^ k) * b" by simp
  ultimately show ?thesis using assms(2) by (simp add: round_even_def Let_def)
qed

lemma float_round_zero: "b > 0 \<Longrightarrow> float_round 0 b = (0, 0)"
  by (auto simp: float_round_def find_Some_iff split: option.splits)

text \<open>A whole number of seconds is converted exactly.\<close>

lemma abs_Seconds_whole:
  assumes "s \<ge> 0"
  shows "abs_Seconds (s * 1000000000) = s"
proof (cases "s = 0")
  case True
  thus ?thesis by (simp add: abs_Seconds_def float_round_zero)
next
  case False
  obtain n k where "float_round (s * 1) 1 = (n, k)" by fastforce
  thus ?thesis using False assms float_round_exact [of s 1 n k]
    by (simp add: abs_Seconds_def float_round_zero)
qed

lemma Duration_Seconds_whole [simp]: "Duration_Seconds_int64 (s * 1000000000) = s"
  using abs_Seconds_whole [of "\<bar>s\<bar>"]
  by (simp add: Duration_Seconds_int64_def sgn_mult abs_mult sgn_mult_abs)

text \<open>
  Just below a whole second the sum is rounded up when the duration is long: one nanosecond short
  of two hundred days counts as two hundred days.
\<close>

lemma Duration_Seconds_rounds_up:
  "Duration_Seconds_int64 (24 * 3600 * 200 * 1000000000 - 1) = 24 * 3600 * 200"
  "Duration_Seconds_int64 (3600 * 1000000000 - 1) = 3599"
  by code_simp+

lemma int64_range_UnixNano [simp]: "int64_range (UnixNano t)"
  by (simp add: UnixNano_def)

lemma int64_range_Unix [simp]: "int64_range (Unix t)"
  by (simp add: Unix_def)

end
