(* ===== verification/Memory_Partition.thy ===== *)
theory Memory_Partition
  imports Memory_Metric Labels Go_Time "HOL-Library.AList"
begin

text \<open>
  \<open>memoryPartition\<close> of \<open>src/memory_partition.go\<close>: the writable partition on the heap, a
  \<open>sync.Map\<close> from metric names to metrics with the time range and the number of its points.

  The \<open>sync.Map\<close> is an association list in the order of first storage; the once-only
  initialisation is a flag. The write-ahead log is shared with the rest of the storage, so its
  state is passed through and its \<open>append\<close> is an argument. \<open>clock i\<close> is what \<open>time.Now\<close> returns
  while the row with index \<open>i\<close> of a batch is inserted. A metric is reached through a pointer:
  what \<open>insertPoint\<close> does to it is stored back under its name.
\<close>

section \<open>The partition\<close>

record memoryPartition =
  mp_numPoints :: int64
  mp_minT :: int64
  mp_maxT :: int64
  mp_metrics :: "(string \<times> memoryMetric) list"
  mp_partitionDuration :: int64
  mp_timestampPrecision :: TimestampPrecision
  mp_once :: bool

definition newMemoryPartition :: "Duration \<Rightarrow> TimestampPrecision \<Rightarrow> memoryPartition" where
  "newMemoryPartition partitionDuration precision =
     (let d = (case precision of
                 Nanoseconds \<Rightarrow> partitionDuration
               | Microseconds \<Rightarrow> Duration_Microseconds partitionDuration
               | Milliseconds \<Rightarrow> Duration_Milliseconds partitionDuration
               | Seconds \<Rightarrow> Duration_Seconds_int64 partitionDuration
               | OtherPrecision _ \<Rightarrow> partitionDuration)
      in \<lparr>mp_numPoints = 0, mp_minT = 0, mp_maxT = 0, mp_metrics = [], mp_partitionDuration = d,
          mp_timestampPrecision = precision, mp_once = False\<rparr>)"

definition toUnix :: "Time \<Rightarrow> TimestampPrecision \<Rightarrow> int64" where
  "toUnix t precision =
     (case precision of
        Nanoseconds \<Rightarrow> UnixNano t
      | Microseconds \<Rightarrow> UnixNano t sdiv 1000
      | Milliseconds \<Rightarrow> UnixNano t sdiv 1000000
      | Seconds \<Rightarrow> Unix t
      | OtherPrecision _ \<Rightarrow> UnixNano t)"

definition getMetric :: "string \<Rightarrow> memoryPartition \<Rightarrow> memoryMetric \<times> memoryPartition" where
  "getMetric name m =
     (case map_of (mp_metrics m) name of
        Some mt \<Rightarrow> (mt, m)
      | None \<Rightarrow>
          let mt = new_memoryMetric name
          in (mt, m\<lparr>mp_metrics := AList.update name mt (mp_metrics m)\<rparr>))"

definition mem_minTimestamp :: "memoryPartition \<Rightarrow> int64" where
  [simp]: "mem_minTimestamp m = mp_minT m"

definition mem_maxTimestamp :: "memoryPartition \<Rightarrow> int64" where
  [simp]: "mem_maxTimestamp m = mp_maxT m"

text \<open>The loop over the rows of a batch.\<close>

fun insertRows_loop ::
  "Runtime \<Rightarrow> (nat \<Rightarrow> Time) \<Rightarrow> nat \<Rightarrow> Row list \<Rightarrow> Row list \<Rightarrow> int64 \<Rightarrow> int64 \<Rightarrow> memoryPartition
   \<Rightarrow> (Row list \<times> int64 \<times> int64) result \<times> memoryPartition" where
  "insertRows_loop R clock i [] outdatedRows maxTimestamp rowsNum m =
     (Inr (outdatedRows, maxTimestamp, rowsNum), m)"
| "insertRows_loop R clock i (row # rows) outdatedRows maxTimestamp rowsNum m =
     (if row_Timestamp row < mp_minT m then
        insertRows_loop R clock (i + 1) rows (outdatedRows @ [row]) maxTimestamp rowsNum m
      else
        let p = row_DataPoint row;
            p = (if dp_Timestamp p = 0
                 then p\<lparr>dp_Timestamp := toUnix (clock i) (mp_timestampPrecision m)\<rparr> else p);
            maxTimestamp = (if maxTimestamp < dp_Timestamp p then dp_Timestamp p else maxTimestamp);
            (name, labels) = marshalMetricName (sortLabels R) (row_Metric row) (row_Labels row);
            (mt, m) = getMetric name m
        in andThen (insertPoint p mt)
             (\<lambda>_ mt. insertRows_loop R clock (i + 1) rows outdatedRows maxTimestamp (rowsNum + 1)
                       (m\<lparr>mp_metrics := AList.update name mt (mp_metrics m)\<rparr>))
             (\<lambda>mt. m\<lparr>mp_metrics := AList.update name mt (mp_metrics m)\<rparr>))"

definition once_Do :: "Row list \<Rightarrow> memoryPartition \<Rightarrow> memoryPartition" where
  "once_Do rows m =
     (if mp_once m then m
      else m\<lparr>mp_once := True,
             mp_minT := foldl (\<lambda>mn row. if row_Timestamp row < mn then row_Timestamp row else mn)
                          (row_Timestamp (hd rows)) rows\<rparr>)"

definition mem_insertRows ::
  "Runtime \<Rightarrow> (nat \<Rightarrow> Time) \<Rightarrow> (Row list \<Rightarrow> 'w \<Rightarrow> unit result \<times> 'w) \<Rightarrow> Row list
   \<Rightarrow> 'w \<Rightarrow> memoryPartition \<Rightarrow> Row list result \<times> 'w \<times> memoryPartition" where
  "mem_insertRows R clock wal_append rows w m =
     (if rows = [] then (Inl (Errorf ''no rows given''), w, m)
      else case wal_append rows w of
        (Inl e, w) \<Rightarrow> (Inl (Wrapf ''failed to write to WAL'' e), w, m)
      | (Inr _, w) \<Rightarrow>
          (case insertRows_loop R clock 0 rows [] (row_Timestamp (hd rows)) 0 (once_Do rows m) of
             (Inl e, m) \<Rightarrow> (Inl e, w, m)
           | (Inr (outdatedRows, maxTimestamp, rowsNum), m) \<Rightarrow>
               let m = m\<lparr>mp_numPoints := wrap64 (mp_numPoints m + rowsNum)\<rparr>;
                   m = (if mp_maxT m < maxTimestamp then m\<lparr>mp_maxT := maxTimestamp\<rparr> else m)
               in (Inr outdatedRows, w, m)))"

definition mem_selectDataPoints ::
  "Runtime \<Rightarrow> string \<Rightarrow> Label list \<Rightarrow> int64 \<Rightarrow> int64 \<Rightarrow> memoryPartition
   \<Rightarrow> DataPoint list result \<times> memoryPartition" where
  "mem_selectDataPoints R metric labels start end m =
     (let name = metricName (sortLabels R) metric labels;
          (mt, m) = getMetric name m
      in (selectPoints mt start end, m))"

definition mem_active :: "memoryPartition \<Rightarrow> bool" where
  "mem_active m \<longleftrightarrow> wrap64 (wrap64 (mp_maxT m - mp_minT m) + 1) < mp_partitionDuration m"

definition mem_size :: "memoryPartition \<Rightarrow> int" where
  "mem_size m = mp_numPoints m"

definition mem_clean :: "memoryPartition \<Rightarrow> unit result \<times> memoryPartition" where
  "mem_clean m = (Inr (), m)"

definition mem_expired :: "memoryPartition \<Rightarrow> bool" where
  "mem_expired m = False"

section \<open>What a partition holds\<close>

definition points_of :: "(string \<times> memoryMetric) list \<Rightarrow> (string \<times> DataPoint) multiset" where
  "points_of al = sum_list (map (\<lambda>(n, mt). image_mset (Pair n) (metric_points mt)) al)"

abbreviation mp_points :: "memoryPartition \<Rightarrow> (string \<times> DataPoint) multiset" where
  "mp_points m \<equiv> points_of (mp_metrics m)"

definition metrics_ok :: "(string \<times> memoryMetric) list \<Rightarrow> bool" where
  "metrics_ok al \<longleftrightarrow> distinct (map fst al) \<and> (\<forall>(n, mt) \<in> set al. metric_ok mt \<and> mm_name mt = n)"

text \<open>
  The invariant: the metrics are well formed, the number of points is exact, and every point lies
  in the time range. Before the first batch there are no points.
\<close>

definition mp_ok :: "memoryPartition \<Rightarrow> bool" where
  "mp_ok m \<longleftrightarrow> metrics_ok (mp_metrics m) \<and> mp_numPoints m = int (size (mp_points m)) \<and>
     (\<forall>(n, p) \<in># mp_points m. mp_minT m \<le> dp_Timestamp p \<and> dp_Timestamp p \<le> mp_maxT m) \<and>
     (\<not> mp_once m \<longrightarrow> mp_points m = {#} \<and> mp_minT m = 0 \<and> mp_maxT m = 0)"

text \<open>The rows a partition with a minimum timestamp takes from a batch, as named points.\<close>

definition stamp :: "(nat \<Rightarrow> Time) \<Rightarrow> TimestampPrecision \<Rightarrow> nat \<Rightarrow> DataPoint \<Rightarrow> DataPoint" where
  "stamp clock prec i p =
     (if dp_Timestamp p = 0 then p\<lparr>dp_Timestamp := toUnix (clock i) prec\<rparr> else p)"

fun accepted ::
  "Runtime \<Rightarrow> (nat \<Rightarrow> Time) \<Rightarrow> TimestampPrecision \<Rightarrow> int64 \<Rightarrow> nat \<Rightarrow> Row list \<Rightarrow> (string \<times> DataPoint) list"
  where
  "accepted R clock prec minT i [] = []"
| "accepted R clock prec minT i (row # rows) =
     (if row_Timestamp row < minT then []
      else [(metricName (sortLabels R) (row_Metric row) (row_Labels row),
             stamp clock prec i (row_DataPoint row))])
     @ accepted R clock prec minT (i + 1) rows"

section \<open>Lemmas\<close>

subsection \<open>The map of metrics\<close>

lemma points_of_simps [simp]:
  "points_of [] = {#}"
  "points_of ((n, mt) # al) = image_mset (Pair n) (metric_points mt) + points_of al"
  by (simp_all add: points_of_def)

lemma metrics_ok_simps [simp]:
  "metrics_ok []"
  "metrics_ok ((n, mt) # al) \<longleftrightarrow> n \<notin> fst ` set al \<and> metric_ok mt \<and> mm_name mt = n \<and> metrics_ok al"
  by (auto simp: metrics_ok_def)

lemma metrics_ok_lookup: "metrics_ok al \<Longrightarrow> map_of al n = Some mt \<Longrightarrow> metric_ok mt \<and> mm_name mt = n"
  by (auto simp: metrics_ok_def dest!: map_of_SomeD)

lemma metrics_ok_update:
  "metrics_ok al \<Longrightarrow> metric_ok mt \<Longrightarrow> mm_name mt = n \<Longrightarrow> metrics_ok (AList.update n mt al)"
proof (induction al)
  case (Cons a al)
  thus ?case using dom_update [of n mt al] by (cases a) (force simp: image_iff)
qed simp

lemma points_of_update_new:
  "n \<notin> fst ` set al \<Longrightarrow> points_of (AList.update n mt al) = points_of al + image_mset (Pair n) (metric_points mt)"
  by (induction al) auto

lemma points_of_update:
  "metrics_ok al \<Longrightarrow> map_of al n = Some mt \<Longrightarrow> metric_points mt' = add_mset p (metric_points mt) \<Longrightarrow>
   points_of (AList.update n mt' al) = add_mset (n, p) (points_of al)"
  by (induction al) (auto split: if_splits)

lemma map_of_update [simp]: "map_of (AList.update n mt al) = (map_of al)(n \<mapsto> mt)"
  by (simp add: update_conv')

lemma size_metric_le: "map_of al n = Some mt \<Longrightarrow> size (metric_points mt) \<le> size (points_of al)"
  by (induction al) (auto split: if_splits)

lemma getMetric_spec:
  assumes "metrics_ok (mp_metrics m)" "getMetric name m = (mt, m')"
  shows "map_of (mp_metrics m') name = Some mt \<and> metrics_ok (mp_metrics m') \<and> metric_ok mt \<and>
    mm_name mt = name \<and> mp_points m' = mp_points m \<and> m' = m\<lparr>mp_metrics := mp_metrics m'\<rparr> \<and>
    mt = (case map_of (mp_metrics m) name of Some mt \<Rightarrow> mt | None \<Rightarrow> new_memoryMetric name)"
proof (cases "map_of (mp_metrics m) name")
  case None
  hence "name \<notin> fst ` set (mp_metrics m)" by (simp add: map_of_eq_None_iff)
  thus ?thesis using assms None
    by (auto simp: getMetric_def points_of_update_new Let_def intro!: metrics_ok_update)
next
  case (Some mt)
  thus ?thesis using assms metrics_ok_lookup [OF assms(1) Some] by (auto simp: getMetric_def)
qed

subsection \<open>Inserting rows\<close>

text \<open>The metric of a name: an unknown name stands for a new metric.\<close>

definition metric_at :: "(string \<times> memoryMetric) list \<Rightarrow> string \<Rightarrow> memoryMetric" where
  "metric_at al n = (case map_of al n of Some mt \<Rightarrow> mt | None \<Rightarrow> new_memoryMetric n)"

lemma metric_at_update [simp]:
  "metric_at (AList.update n mt al) n' = (if n' = n then mt else metric_at al n')"
  by (simp add: metric_at_def)

lemma metric_ok_metric_at: "metrics_ok al \<Longrightarrow> metric_ok (metric_at al n) \<and> mm_name (metric_at al n) = n"
  using metrics_ok_lookup by (auto simp: metric_at_def split: option.splits)

lemma getMetric_eq:
  assumes "metrics_ok (mp_metrics m)"
  shows "\<exists>al. getMetric name m = (metric_at (mp_metrics m) name, m\<lparr>mp_metrics := al\<rparr>) \<and>
    map_of al name = Some (metric_at (mp_metrics m) name) \<and> metrics_ok al \<and>
    points_of al = mp_points m \<and> (\<forall>n. metric_at al n = metric_at (mp_metrics m) n)"
proof (cases "map_of (mp_metrics m) name")
  case (Some mt)
  thus ?thesis using assms by (auto simp: getMetric_def metric_at_def intro!: exI [of _ "mp_metrics m"])
next
  case None
  thus ?thesis using getMetric_spec [OF assms, of name]
    by (auto simp: getMetric_def metric_at_def Let_def
        intro!: exI [of _ "AList.update name (new_memoryMetric name) (mp_metrics m)"])
qed

text \<open>The points of one name in a list of named points, in order.\<close>

definition points_named :: "string \<Rightarrow> (string \<times> DataPoint) list \<Rightarrow> DataPoint list" where
  "points_named n nps = map snd (filter (\<lambda>np. fst np = n) nps)"

lemma points_named_simps [simp]:
  "points_named n [] = []"
  "points_named n (np # nps) = (if fst np = n then snd np # points_named n nps else points_named n nps)"
  by (simp_all add: points_named_def)

lemma has_room_metric_at:
  assumes "int (size (points_of al)) + 1 < 2 ^ 63"
  shows "has_room (metric_at al n)"
proof -
  have "length (mm_points (metric_at al n)) \<le> size (metric_points (metric_at al n))"
    by (simp add: metric_points_def)
  also have "\<dots> \<le> size (points_of al)"
    using size_metric_le by (cases "map_of al n") (auto simp: metric_at_def)
  finally show ?thesis using assms by (simp add: has_room_def)
qed

lemma insertRows_loop_spec:
  fixes R clock i m rows
  assumes "metrics_ok (mp_metrics m)" "int (size (mp_points m) + length rows) < 2 ^ 63"
  defines "acc \<equiv> accepted R clock (mp_timestampPrecision m) (mp_minT m) i rows"
  shows "\<exists>al. insertRows_loop R clock i rows out mx n m =
      (Inr (out @ filter (\<lambda>r. row_Timestamp r < mp_minT m) rows,
            foldl max mx (map (\<lambda>np. dp_Timestamp (snd np)) acc), n + int (length acc)),
       m\<lparr>mp_metrics := al\<rparr>) \<and>
    metrics_ok al \<and> points_of al = mp_points m + mset acc \<and>
    (\<forall>nm. insertPoints (points_named nm acc) (metric_at (mp_metrics m) nm) = (Inr (), metric_at al nm))"
  using assms(1,2) unfolding acc_def
proof (induction rows arbitrary: i out mx n m)
  case Nil
  thus ?case by (auto intro!: exI [of _ "mp_metrics m"])
next
  case (Cons row rows)
  show ?case
  proof (cases "row_Timestamp row < mp_minT m")
    case True
    thus ?thesis using Cons.IH [of m "i + 1" "out @ [row]" mx n] Cons.prems by simp
  next
    case False
    let ?nm = "metricName (sortLabels R) (row_Metric row) (row_Labels row)"
    let ?p = "stamp clock (mp_timestampPrecision m) i (row_DataPoint row)"
    let ?mt = "metric_at (mp_metrics m) ?nm"
    let ?acc = "accepted R clock (mp_timestampPrecision m) (mp_minT m) (i + 1) rows"
    obtain al where al: "getMetric ?nm m = (?mt, m\<lparr>mp_metrics := al\<rparr>)" "map_of al ?nm = Some ?mt"
      "metrics_ok al" "points_of al = mp_points m" "\<And>n. metric_at al n = metric_at (mp_metrics m) n"
      using getMetric_eq [OF Cons.prems(1)] by blast
    have mt: "metric_ok ?mt" "mm_name ?mt = ?nm" using metric_ok_metric_at Cons.prems(1) by auto
    have room: "has_room ?mt" by (rule has_room_metric_at) (use Cons.prems(2) in simp)
    obtain mt' where mt': "insertPoint ?p ?mt = (Inr (), mt')" "metric_ok mt'" "mm_name mt' = ?nm"
      "metric_points mt' = add_mset ?p (metric_points ?mt)"
      using insertPoint_spec [OF mt(1) room, of ?p] mt(2) by auto
    let ?al = "AList.update ?nm mt' al"
    have ok: "metrics_ok ?al" using al(3) mt'(2,3) by (rule metrics_ok_update)
    have pts: "points_of ?al = add_mset (?nm, ?p) (mp_points m)"
      using points_of_update [OF al(3,2) mt'(4)] al(4) by simp
    have step: "insertRows_loop R clock i (row # rows) out mx n m =
      insertRows_loop R clock (i + 1) rows out (max mx (dp_Timestamp ?p)) (n + 1) (m\<lparr>mp_metrics := ?al\<rparr>)"
      using False al(1) mt'(1)
      by (auto simp: stamp_def Let_def split_beta max_def)
    have "metrics_ok (mp_metrics (m\<lparr>mp_metrics := ?al\<rparr>))"
      "int (size (mp_points (m\<lparr>mp_metrics := ?al\<rparr>)) + length rows) < 2 ^ 63"
      using ok pts Cons.prems(2) by simp_all
    from Cons.IH [OF this, of "i + 1" out "max mx (dp_Timestamp ?p)" "n + 1", folded step]
    obtain al' where al': "insertRows_loop R clock i (row # rows) out mx n m =
        (Inr (out @ filter (\<lambda>r. row_Timestamp r < mp_minT m) rows,
           foldl max (max mx (dp_Timestamp ?p)) (map (\<lambda>np. dp_Timestamp (snd np)) ?acc),
           n + 1 + int (length ?acc)), m\<lparr>mp_metrics := al'\<rparr>)"
      "metrics_ok al'" "points_of al' = points_of ?al + mset ?acc"
      "\<And>nm. insertPoints (points_named nm ?acc) (metric_at ?al nm) = (Inr (), metric_at al' nm)"
      by (auto simp del: insertRows_loop.simps metric_at_update)
    have "insertPoints (points_named nm ((?nm, ?p) # ?acc)) (metric_at (mp_metrics m) nm)
        = (Inr (), metric_at al' nm)" for nm
      using al'(4) [of nm] al(5) [of nm] mt'(1) by (simp split: if_splits)
    thus ?thesis using al'(1-3) pts False by (intro exI [of _ al']) simp
  qed
qed

lemma foldl_max_ge: "(mx::int) \<le> foldl max mx xs" "x \<in> set xs \<Longrightarrow> x \<le> foldl max mx xs"
proof (induction xs arbitrary: mx)
  case (Cons y ys)
  { case 1 show ?case using Cons.IH(1) [of "max mx y"] by simp
  next
    case 2 thus ?case using Cons.IH(1) [of "max mx y"] Cons.IH(2) by auto }
qed simp_all

lemma once_Do_min:
  assumes "rows \<noteq> []" "\<not> mp_once m" "r \<in> set rows"
  shows "mp_minT (once_Do rows m) \<le> row_Timestamp r"
proof -
  have "foldl (\<lambda>mn row. if row_Timestamp row < mn then row_Timestamp row else mn) x rs
      = fold min (map row_Timestamp rs) x" for x :: int and rs
    by (induction rs arbitrary: x) (auto simp: min_def intro!: arg_cong2 [where f = "fold min"])
  moreover have "fold min xs x \<le> y" if "y \<in> insert x (set xs)" for x y :: int and xs
    using that Min.set_eq_fold [of x xs] Min_le [of "insert x (set xs)" y] by simp
  ultimately show ?thesis using assms by (simp add: once_Do_def)
qed

lemma once_Do_fields [simp]:
  "mp_metrics (once_Do rows m) = mp_metrics m" "mp_maxT (once_Do rows m) = mp_maxT m"
  "mp_numPoints (once_Do rows m) = mp_numPoints m" "mp_once (once_Do rows m)"
  "mp_timestampPrecision (once_Do rows m) = mp_timestampPrecision m"
  "mp_partitionDuration (once_Do rows m) = mp_partitionDuration m"
  "mp_once m \<Longrightarrow> once_Do rows m = m"
  by (simp_all add: once_Do_def)

text \<open>The system clock shows a time between 1970 and 2262.\<close>

definition clock_ok :: "(nat \<Rightarrow> Time) \<Rightarrow> bool" where
  "clock_ok clock \<longleftrightarrow> (\<forall>i. 0 \<le> clock i \<and> clock i < 2 ^ 63)"

lemma toUnix_nonneg:
  assumes "clock_ok clock"
  shows "0 \<le> toUnix (clock i) prec"
proof -
  have "0 \<le> clock i" "int64_range (clock i)" "int64_range (clock i div 1000000000)"
    using assms by (auto simp: clock_ok_def int64_range_def dest!: spec [of _ i])
  thus ?thesis
    by (cases prec) (simp_all add: toUnix_def UnixNano_def Unix_def signed_divide_int_def
        pos_imp_zdiv_nonneg_iff sgn_if)
qed

lemma stamp_ge: "clock_ok clock \<Longrightarrow> mn \<le> dp_Timestamp p \<Longrightarrow> mn \<le> dp_Timestamp (stamp clock prec i p)"
  using toUnix_nonneg [of clock i prec] by (simp add: stamp_def)

lemma accepted_ge:
  "clock_ok clock \<Longrightarrow> (n, p) \<in> set (accepted R clock prec mn i rows) \<Longrightarrow> mn \<le> dp_Timestamp p"
  by (induction rows arbitrary: i) (auto split: if_splits intro!: stamp_ge)

lemma length_accepted: "length (accepted R clock prec mn i rows) \<le> length rows"
  by (induction rows arbitrary: i) (auto simp: le_SucI)

abbreviation batch :: "Runtime \<Rightarrow> (nat \<Rightarrow> Time) \<Rightarrow> Row list \<Rightarrow> memoryPartition \<Rightarrow> (string \<times> DataPoint) list" where
  "batch R clock rows m \<equiv>
     accepted R clock (mp_timestampPrecision m) (mp_minT (once_Do rows m)) 0 rows"

definition new_maxT :: "Runtime \<Rightarrow> (nat \<Rightarrow> Time) \<Rightarrow> Row list \<Rightarrow> memoryPartition \<Rightarrow> int64" where
  "new_maxT R clock rows m = max (mp_maxT m)
     (foldl max (row_Timestamp (hd rows)) (map (\<lambda>np. dp_Timestamp (snd np)) (batch R clock rows m)))"

text \<open>What a batch does to a partition: everything but the metrics in closed form.\<close>

lemma mem_insertRows_eq:
  assumes ok: "mp_ok m" and rows: "rows \<noteq> []" and wal: "wal_append rows w = (Inr (), w')"
    and room: "int (size (mp_points m) + length rows) < 2 ^ 63"
  shows "\<exists>al. mem_insertRows R clock wal_append rows w m =
      (Inr (filter (\<lambda>r. row_Timestamp r < mp_minT (once_Do rows m)) rows), w',
       (once_Do rows m)\<lparr>mp_metrics := al, mp_numPoints := int (size (points_of al)),
                       mp_maxT := new_maxT R clock rows m\<rparr>) \<and>
    metrics_ok al \<and> points_of al = mp_points m + mset (batch R clock rows m) \<and>
    (\<forall>nm. insertPoints (points_named nm (batch R clock rows m)) (metric_at (mp_metrics m) nm)
         = (Inr (), metric_at al nm))"
proof -
  let ?acc = "batch R clock rows m" and ?m1 = "once_Do rows m"
  let ?mx = "foldl max (row_Timestamp (hd rows)) (map (\<lambda>np. dp_Timestamp (snd np)) ?acc)"
  have ok': "metrics_ok (mp_metrics ?m1)" "mp_numPoints m = int (size (mp_points m))"
    using ok by (simp_all add: mp_ok_def)
  obtain al where al: "insertRows_loop R clock 0 rows [] (row_Timestamp (hd rows)) 0 ?m1 =
      (Inr (filter (\<lambda>r. row_Timestamp r < mp_minT ?m1) rows, ?mx, int (length ?acc)), ?m1\<lparr>mp_metrics := al\<rparr>)"
    "metrics_ok al" "points_of al = mp_points m + mset ?acc"
    "\<forall>nm. insertPoints (points_named nm ?acc) (metric_at (mp_metrics m) nm) = (Inr (), metric_at al nm)"
    using insertRows_loop_spec [of ?m1 rows R clock 0 "[]" "row_Timestamp (hd rows)" 0] ok' room by auto
  have "wrap64 (int (size (mp_points m)) + int (length ?acc)) = int (size (points_of al))"
    unfolding al(3)
    using room length_accepted [of R clock "mp_timestampPrecision m" "mp_minT ?m1" 0 rows]
    by (subst wrap64_id) (auto simp: int64_range_def)
  hence "mem_insertRows R clock wal_append rows w m =
      (Inr (filter (\<lambda>r. row_Timestamp r < mp_minT ?m1) rows), w',
       ?m1\<lparr>mp_metrics := al, mp_numPoints := int (size (points_of al)), mp_maxT := new_maxT R clock rows m\<rparr>)"
    using rows wal al(1) ok'(2) by (simp add: mem_insertRows_def Let_def new_maxT_def)
  thus ?thesis using al(2-4) by blast
qed

text \<open>A batch stores metrics under the names of its rows only.\<close>

lemma getMetric_names: "getMetric n m = (mt, m') \<Longrightarrow> fst ` set (mp_metrics m') \<subseteq> insert n (fst ` set (mp_metrics m))"
proof -
  assume "getMetric n m = (mt, m')"
  hence "m' = m \<or> m' = m\<lparr>mp_metrics := AList.update n (new_memoryMetric n) (mp_metrics m)\<rparr>"
    by (auto simp: getMetric_def Let_def split: option.splits)
  thus ?thesis by (elim disjE) (simp_all add: dom_update subset_insertI)
qed

lemma insertRows_loop_names:
  "insertRows_loop R clock i rows out mx n m = (res, m') \<Longrightarrow>
   fst ` set (mp_metrics m') \<subseteq>
     fst ` set (mp_metrics m) \<union> (\<lambda>r. metricName (sortLabels R) (row_Metric r) (row_Labels r)) ` set rows"
proof (induction rows arbitrary: i out mx n m)
  case (Cons row rows)
  let ?name = "metricName (sortLabels R) (row_Metric row) (row_Labels row)"
  show ?case
  proof (cases "row_Timestamp row < mp_minT m")
    case True
    hence "insertRows_loop R clock (i + 1) rows (out @ [row]) mx n m = (res, m')" using Cons.prems by simp
    from Cons.IH [OF this] show ?thesis by (simp only: list.set image_insert) blast
  next
    case False
    obtain mt m1 where g: "getMetric ?name m = (mt, m1)" by fastforce
    let ?p = "stamp clock (mp_timestampPrecision m) i (row_DataPoint row)"
    obtain r mt' where ins: "insertPoint ?p mt = (r, mt')" by fastforce
    let ?m2 = "m1\<lparr>mp_metrics := AList.update ?name mt' (mp_metrics m1)\<rparr>"
    have names: "fst ` set (mp_metrics ?m2) \<subseteq> insert ?name (fst ` set (mp_metrics m))"
      using getMetric_names [OF g] by (simp add: dom_update)
    consider "m' = ?m2" | mx' where "insertRows_loop R clock (i + 1) rows out mx' (n + 1) ?m2 = (res, m')"
      using Cons.prems False g ins unfolding stamp_def by (cases r) (simp_all add: split_beta Let_def)
    thus ?thesis
    proof cases
      case 2
      from Cons.IH [OF this] names show ?thesis by (simp only: list.set image_insert) blast
    qed (use names in \<open>simp only: list.set image_insert, blast\<close>)
  qed
qed simp

lemma mem_insertRows_names:
  assumes "mem_insertRows R clock wal_append rows w m = (res, w', m')"
  shows "fst ` set (mp_metrics m') \<subseteq>
    fst ` set (mp_metrics m) \<union> (\<lambda>r. metricName (sortLabels R) (row_Metric r) (row_Labels r)) ` set rows"
proof -
  obtain r1 m1 where lp: "insertRows_loop R clock 0 rows [] (row_Timestamp (hd rows)) 0 (once_Do rows m) = (r1, m1)" by fastforce
  have "m' = m \<or> mp_metrics m' = mp_metrics m1"
    using assms lp by (auto simp: mem_insertRows_def Let_def split: if_splits prod.splits sum.splits)
  thus ?thesis using insertRows_loop_names [OF lp] by (elim disjE) simp_all
qed

text \<open>The points of a metric, among all points.\<close>

lemma metric_points_named:
  "distinct (map fst al) \<Longrightarrow> metric_points (metric_at al n) = image_mset snd (filter_mset (\<lambda>np. fst np = n) (points_of al))"
proof (induction al)
  case Nil
  show ?case by (simp add: metric_at_def new_memoryMetric_def metric_points_def points_of_def)
next
  case (Cons x al)
  obtain k mt where x: "x = (k, mt)" by fastforce
  have mine: "image_mset snd (filter_mset (\<lambda>np. fst np = n) (image_mset (Pair k) M)) = (if k = n then M else {#})"
    for M :: "DataPoint multiset" by (induction M) auto
  have "metric_points (metric_at al n) = {#}" if "k = n"
    using Cons.prems x that by (simp add: metric_at_def map_of_eq_None_iff [THEN iffD2] new_memoryMetric_def metric_points_def)
  moreover have "metric_at (x # al) n = (if k = n then mt else metric_at al n)" by (simp add: metric_at_def x)
  ultimately show ?case using Cons x mine by simp
qed

lemma mp_ok_batch:
  assumes ok: "mp_ok m" and rows: "rows \<noteq> []" and clk: "clock_ok clock"
    and al: "metrics_ok al" "points_of al = mp_points m + mset (batch R clock rows m)"
  shows "mp_ok ((once_Do rows m)\<lparr>mp_metrics := al, mp_numPoints := int (size (points_of al)),
                       mp_maxT := new_maxT R clock rows m\<rparr>)"
proof -
  have "mp_minT (once_Do rows m) \<le> dp_Timestamp p \<and> dp_Timestamp p \<le> new_maxT R clock rows m"
    if "(n, p) \<in># points_of al" for n p
  proof (cases "(n, p) \<in># mp_points m")
    case True
    hence "mp_once m" "mp_minT m \<le> dp_Timestamp p" "dp_Timestamp p \<le> mp_maxT m"
      using ok by (auto simp: mp_ok_def)
    thus ?thesis by (simp add: new_maxT_def)
  next
    case False
    hence np: "(n, p) \<in> set (batch R clock rows m)" using that al(2) by simp
    hence "dp_Timestamp p \<in> set (map (\<lambda>np. dp_Timestamp (snd np)) (batch R clock rows m))" by force
    hence "dp_Timestamp p \<le> new_maxT R clock rows m"
      using foldl_max_ge(2) unfolding new_maxT_def by (simp add: le_max_iff_disj del: set_map)
    thus ?thesis using accepted_ge [OF clk np] by simp
  qed
  thus ?thesis using al(1) by (auto simp: mp_ok_def)
qed

subsection \<open>Selecting\<close>

lemma mem_selectDataPoints_eq:
  fixes R metric labels m
  assumes "mp_ok m" "start < end"
  defines "mt \<equiv> metric_at (mp_metrics m) (metricName (sortLabels R) metric labels)"
  shows "\<exists>m'. mem_selectDataPoints R metric labels start end m =
      (Inr (filter (in_range mt start end) (mm_points mt)), m') \<and> mp_ok m' \<and> mp_points m' = mp_points m \<and>
      (\<forall>n. metric_at (mp_metrics m') n = metric_at (mp_metrics m) n)"
proof -
  have ok: "metrics_ok (mp_metrics m)" using assms(1) by (simp add: mp_ok_def)
  obtain al where al: "getMetric (metricName (sortLabels R) metric labels) m = (mt, m\<lparr>mp_metrics := al\<rparr>)"
    "metrics_ok al" "points_of al = mp_points m" "\<forall>n. metric_at al n = metric_at (mp_metrics m) n"
    using getMetric_eq [OF ok] unfolding mt_def by blast
  have "mp_ok (m\<lparr>mp_metrics := al\<rparr>)" using assms(1) al(2,3) by (simp add: mp_ok_def)
  moreover have "metric_ok mt" using ok metric_ok_metric_at unfolding mt_def by blast
  ultimately show ?thesis using al assms(2) by (simp add: mem_selectDataPoints_def selectPoints_eq)
qed

lemma mp_ok_new [simp, go_inv]: "mp_ok (newMemoryPartition d prec)"
  by (simp add: mp_ok_def newMemoryPartition_def Let_def)

lemma mp_metrics_new [simp]: "mp_metrics (newMemoryPartition d prec) = []" "\<not> mp_once (newMemoryPartition d prec)"
  by (simp_all add: newMemoryPartition_def Let_def)

lemma metric_at_Nil [simp]: "metric_at [] n = new_memoryMetric n"
  by (simp add: metric_at_def)

lemma accepted_all:
  "(\<And>r. r \<in> set rows \<Longrightarrow> mn \<le> row_Timestamp r \<and> row_Timestamp r \<noteq> 0) \<Longrightarrow>
   accepted R clock prec mn i rows =
     map (\<lambda>r. (metricName (sortLabels R) (row_Metric r) (row_Labels r), row_DataPoint r)) rows"
  by (induction rows arbitrary: i) (auto simp: stamp_def not_less)

lemma points_named_map:
  "points_named n (map (\<lambda>r. (f r, g r)) rows) = map g (filter (\<lambda>r. f r = n) rows)"
  by (induction rows) auto

text \<open>What a batch does to a partition, as a caller sees it.\<close>

lemma mem_insertRows_spec:
  assumes "mp_ok m" and "rows \<noteq> []" and "clock_ok clock" and "wal_append rows w = (Inr (), w')"
    and "int (size (mp_points m) + length rows) < 2 ^ 63"
  shows "\<exists>m'. mem_insertRows R clock wal_append rows w m =
      (Inr (filter (\<lambda>r. row_Timestamp r < mp_minT m') rows), w', m') \<and> mp_ok m' \<and>
    mp_points m' = mp_points m +
      mset (accepted R clock (mp_timestampPrecision m) (mp_minT m') 0 rows) \<and>
    (mp_once m \<longrightarrow> mp_minT m' = mp_minT m) \<and>
    (\<not> mp_once m \<longrightarrow> filter (\<lambda>r. row_Timestamp r < mp_minT m') rows = [])"
proof -
  obtain al where al: "mem_insertRows R clock wal_append rows w m =
      (Inr (filter (\<lambda>r. row_Timestamp r < mp_minT (once_Do rows m)) rows), w',
       (once_Do rows m)\<lparr>mp_metrics := al, mp_numPoints := int (size (points_of al)),
                       mp_maxT := new_maxT R clock rows m\<rparr>)" (is "_ = (_, _, ?m')")
    "metrics_ok al" "points_of al = mp_points m + mset (batch R clock rows m)"
    using mem_insertRows_eq [of m rows wal_append w w' R clock, OF assms(1,2,4,5)] by blast
  have "mp_ok ?m'" by (rule mp_ok_batch [OF assms(1-3) al(2,3)])
  moreover have "filter (\<lambda>r. row_Timestamp r < mp_minT (once_Do rows m)) rows = []" if "\<not> mp_once m"
    using once_Do_min [OF assms(2) that] by (simp add: filter_empty_conv not_less)
  ultimately show ?thesis using al by (intro exI [of _ ?m']) auto
qed

section \<open>Properties\<close>

text \<open>
  C19: Inserting a batch into a memory partition: once the write-ahead log has taken the rows,
  the batch succeeds without a panic, gives back exactly the rows older than the partition's
  minimum timestamp (set by the first batch), adds exactly the points of the other rows under
  their metric names, and keeps the invariant (exact number of points, every point within the
  partition's time range).
\<close>

theorem mem_insertRows_correct:
  assumes "mp_ok m" and "rows \<noteq> []" and "clock_ok clock" and "wal_append rows w = (Inr (), w')"
    and "int (size (mp_points m) + length rows) < 2 ^ 63"
  shows "\<exists>m'. mem_insertRows R clock wal_append rows w m =
      (Inr (filter (\<lambda>r. row_Timestamp r < mp_minT m') rows), w', m') \<and> mp_ok m' \<and>
    mp_points m' = mp_points m +
      mset (accepted R clock (mp_timestampPrecision m) (mp_minT m') 0 rows) \<and>
    (mp_once m \<longrightarrow> mp_minT m' = mp_minT m) \<and>
    (\<not> mp_once m \<longrightarrow> filter (\<lambda>r. row_Timestamp r < mp_minT m') rows = [])"
  by (rule mem_insertRows_spec) (fact assms)+

abbreviation row :: "string \<Rightarrow> int64 \<Rightarrow> float64 \<Rightarrow> Row" where
  "row metric t v \<equiv> \<lparr>row_Metric = metric, row_Labels = [], row_DataPoint = point t v\<rparr>"

theorem mem_insertRows_correct_witness:
  "\<exists>m'. mem_insertRows stable_runtime (\<lambda>_. 5) (\<lambda>_ w. (Inr (), w)) [row ''a'' 7 1, row ''b'' 3 2] ()
      (newMemoryPartition Hour Seconds) = (Inr [], (), m') \<and> mp_ok m'"
  using mem_insertRows_correct
    [of "newMemoryPartition Hour Seconds" "[row ''a'' 7 1, row ''b'' 3 2]" "\<lambda>_. 5" "\<lambda>_ w. (Inr (), w)" "()" "()"
        stable_runtime]
  by (fastforce simp: clock_ok_def)

text \<open>
  A batch that fails leaves the partition as it was: an empty batch is an error, and when
  the write-ahead log cannot take the rows its error is handed on, wrapped, and no row is
  inserted.
\<close>

theorem mem_insertRows_error:
  assumes "rows = [] \<or> fst (wal_append rows w) = Inl e"
  shows "\<exists>err w'. mem_insertRows R clock wal_append rows w m = (Inl err, w', m) \<and>
    (rows \<noteq> [] \<longrightarrow> errors_Is err e \<and> w' = snd (wal_append rows w))"
  using assms by (cases "wal_append rows w") (auto simp: mem_insertRows_def)

theorem mem_insertRows_error_witness:
  "\<exists>err w'. mem_insertRows stable_runtime (\<lambda>_. 5) (\<lambda>_ w. (Inl ErrClosed, w)) [row ''a'' 7 1] ()
      (newMemoryPartition Hour Seconds) = (Inl err, w', newMemoryPartition Hour Seconds) \<and>
    errors_Is err ErrClosed"
  using mem_insertRows_error [of "[row ''a'' 7 1]" "\<lambda>_ w. (Inl ErrClosed, w)" "()" ErrClosed stable_runtime
      "\<lambda>_. 5" "newMemoryPartition Hour Seconds"]
  by simp

text \<open>The points a batch has for one series, in the order of its rows.\<close>

definition row_name :: "Runtime \<Rightarrow> Row \<Rightarrow> string" where
  "row_name R r = metricName (sortLabels R) (row_Metric r) (row_Labels r)"

definition series_of :: "Runtime \<Rightarrow> string \<Rightarrow> Label list \<Rightarrow> Row list \<Rightarrow> DataPoint list" where
  "series_of R metric labels rows =
     map row_DataPoint (filter (\<lambda>r. row_name R r = metricName (sortLabels R) metric labels) rows)"

lemma once_Do_min_mem:
  assumes "rows \<noteq> []" "\<not> mp_once m"
  shows "mp_minT (once_Do rows m) \<in> row_Timestamp ` set rows"
proof -
  have *: "foldl (\<lambda>mn row. if row_Timestamp row < mn then row_Timestamp row else mn) t rs \<in> insert t (row_Timestamp ` set rs)"
    for t rs by (induction rs arbitrary: t) auto
  show ?thesis using * [of "row_Timestamp (hd rows)" rows] assms by (cases rows) (auto simp: once_Do_def)
qed

text \<open>The first batch of a partition, without zero timestamps, is taken whole.\<close>

lemma mem_first_batch:
  assumes rows: "rows \<noteq> []" "\<forall>r \<in> set rows. row_Timestamp r \<noteq> 0" "int (length rows) < 2 ^ 63"
    and wal: "wal_append rows w = (Inr (), w')"
  shows "\<exists>m'. mem_insertRows R clock wal_append rows w (newMemoryPartition d prec) = (Inr [], w', m') \<and>
    (clock_ok clock \<longrightarrow> mp_ok m') \<and> metrics_ok (mp_metrics m') \<and> mp_minT m' \<noteq> 0 \<and>
    mp_points m' = mset (map (\<lambda>r. (row_name R r, row_DataPoint r)) rows) \<and>
    (\<forall>metric labels. sorted_wrt (<) (map dp_Timestamp (series_of R metric labels rows)) \<longrightarrow>
       mm_points (metric_at (mp_metrics m') (metricName (sortLabels R) metric labels)) = series_of R metric labels rows)"
proof -
  let ?m = "newMemoryPartition d prec"
  have min: "mp_minT (once_Do rows ?m) \<le> row_Timestamp r" if "r \<in> set rows" for r
    using once_Do_min [OF rows(1) _ that] by simp
  hence acc: "batch R clock rows ?m = map (\<lambda>r. (row_name R r, row_DataPoint r)) rows"
    using rows(2) unfolding row_name_def by (intro accepted_all) simp
  have out: "filter (\<lambda>r. row_Timestamp r < mp_minT (once_Do rows ?m)) rows = []"
    using min by (simp add: filter_empty_conv not_less)
  obtain al where al: "mem_insertRows R clock wal_append rows w ?m = (Inr [], w',
       (once_Do rows ?m)\<lparr>mp_metrics := al, mp_numPoints := int (size (points_of al)),
                       mp_maxT := new_maxT R clock rows ?m\<rparr>)" (is "_ = (_, _, ?m')")
    "metrics_ok al" "points_of al = mp_points ?m + mset (batch R clock rows ?m)"
    "\<forall>nm. insertPoints (points_named nm (batch R clock rows ?m)) (metric_at (mp_metrics ?m) nm) = (Inr (), metric_at al nm)"
    using mem_insertRows_eq [of ?m rows wal_append w w' R clock] rows(1,3) wal out by auto
  have "mm_points (metric_at al (metricName (sortLabels R) metric labels)) = series_of R metric labels rows"
    if sorted: "sorted_wrt (<) (map dp_Timestamp (series_of R metric labels rows))" for metric labels
  proof -
    let ?series = "series_of R metric labels rows" and ?nm = "metricName (sortLabels R) metric labels"
    have "insertPoints ?series (new_memoryMetric ?nm) = (Inr (), metric_at al ?nm)"
      using al(4) [unfolded acc] by (simp add: points_named_map series_of_def)
    moreover have "int (length ?series) < 2 ^ 63"
      using rows(3) length_filter_le [of _ rows] by (metis series_of_def length_map of_nat_le_iff order_le_less_trans)
    ultimately show ?thesis
      using insertPoints_ordered [of "new_memoryMetric ?nm" ?series] sorted by (simp add: new_memoryMetric_def metric_ok_def)
  qed
  moreover have "mp_minT ?m' \<noteq> 0" using once_Do_min_mem [of rows ?m] rows(1,2) by auto
  moreover have "mp_ok ?m'" if "clock_ok clock" using mp_ok_batch [OF _ rows(1) that al(2,3)] by simp
  moreover have "points_of al = mset (map (\<lambda>r. (row_name R r, row_DataPoint r)) rows)" using al(3) acc by simp
  ultimately show ?thesis using al(1,2) by (intro exI [of _ ?m']) simp
qed

text \<open>
  What is inserted can be selected: after a first batch without zero timestamps into a new
  partition, in which the rows of some series are in increasing order of time, a selection of
  that series for a range not ending at its newest timestamp returns exactly the points of the
  series' rows in the range, in order.
\<close>

theorem mem_insert_select:
  assumes "rows \<noteq> []" and "\<forall>r \<in> set rows. row_Timestamp r \<noteq> 0" and "int (length rows) < 2 ^ 63"
    and "wal_append rows w = (Inr (), w')"
    and "sorted_wrt (<) (map dp_Timestamp (series_of R metric labels rows))"
    and "start < end"
    and "\<forall>p \<in> set (series_of R metric labels rows). dp_Timestamp p \<noteq> end"
  shows "\<exists>m' m''. mem_insertRows R clock wal_append rows w (newMemoryPartition d prec) = (Inr [], w', m') \<and>
    mem_selectDataPoints R metric labels start end m' =
      (Inr (filter (\<lambda>p. start \<le> dp_Timestamp p \<and> dp_Timestamp p < end)
         (series_of R metric labels rows)), m'')"
proof -
  let ?series = "series_of R metric labels rows" and ?nm = "metricName (sortLabels R) metric labels"
  obtain m' where m': "mem_insertRows R clock wal_append rows w (newMemoryPartition d prec) = (Inr [], w', m')"
    "metrics_ok (mp_metrics m')" "mm_points (metric_at (mp_metrics m') ?nm) = ?series"
    using mem_first_batch [of rows wal_append w w' R clock d prec, OF assms(1-4)] assms(5) by blast
  have ok: "metric_ok (metric_at (mp_metrics m') ?nm)" using m'(2) metric_ok_metric_at by blast
  have rng: "filter (in_range (metric_at (mp_metrics m') ?nm) start end) ?series
      = filter (\<lambda>p. start \<le> dp_Timestamp p \<and> dp_Timestamp p < end) ?series"
    by (rule filter_cong) (use ok m'(3) assms(7) in \<open>auto simp: in_range_def metric_ok_def split: if_splits\<close>)
  obtain al' where "getMetric ?nm m' = (metric_at (mp_metrics m') ?nm, m'\<lparr>mp_metrics := al'\<rparr>)"
    using getMetric_eq [of m' ?nm] m'(2) by auto
  hence "mem_selectDataPoints R metric labels start end m' =
    (Inr (filter (\<lambda>p. start \<le> dp_Timestamp p \<and> dp_Timestamp p < end) ?series), m'\<lparr>mp_metrics := al'\<rparr>)"
    using selectPoints_eq [OF ok assms(6)] m'(3) rng by (simp add: mem_selectDataPoints_def)
  thus ?thesis using m'(1) by blast
qed

theorem mem_insert_select_witness:
  "\<exists>m' m''. mem_insertRows stable_runtime (\<lambda>_. 5) (\<lambda>_ w. (Inr (), w)) [row ''a'' 7 1, row ''b'' 3 2, row ''a'' 9 3]
      () (newMemoryPartition Hour Seconds) = (Inr [], (), m') \<and>
    mem_selectDataPoints stable_runtime ''a'' [] 1 8 m' = (Inr [point 7 1], m'')"
  using mem_insert_select
    [of "[row ''a'' 7 1, row ''b'' 3 2, row ''a'' 9 3]" "\<lambda>_ w. (Inr (), w)" "()" "()" stable_runtime
        "''a''" "[]" 1 8 "\<lambda>_. 5" Hour Seconds]
  by (simp add: series_of_def row_name_def)

end
