(* ===== verification/Go_OS.thy ===== *)
theory Go_OS
  imports Go_Varint "HOL-Library.AList"
begin

text \<open>
  What the program uses of Go's packages \<open>os\<close>, \<open>io\<close> and \<open>bufio\<close>: a file system with directories
  and files, in which an open file is reached by its inode so that a removed file stays writable
  through an open descriptor; a buffered writer; and a reader of the bytes of a file.

  The contents of a file are its bytes, or a JSON document, which stands for the text of the
  value it was marshalled from, or a JSON document cut short. Every system call takes the next element of a list of faults: it
  succeeds, or fails with an error after writing some of its bytes. With no faults left every
  call succeeds unless the state of the file system is the reason.
\<close>

section \<open>The file system\<close>

type_synonym path = "string list"

datatype entry = Dir | File nat

datatype 'j content = Bytes "byte list" | Json 'j | JsonCut

datatype fault = NoFault | Fault nat go_error

record 'j filesys =
  fs_entries :: "(path \<times> entry) list"
  fs_inodes :: "nat \<Rightarrow> 'j content"
  fs_next :: nat
  fs_faults :: "fault list"

definition empty_fs :: "'j filesys" where
  "empty_fs = \<lparr>fs_entries = [], fs_inodes = (\<lambda>_. Bytes []), fs_next = 0, fs_faults = []\<rparr>"

definition next_fault :: "'j filesys \<Rightarrow> fault \<times> 'j filesys" where
  "next_fault fs =
     (case fs_faults fs of [] \<Rightarrow> (NoFault, fs) | f # fl \<Rightarrow> (f, fs\<lparr>fs_faults := fl\<rparr>))"

definition syscall ::
  "'j filesys \<Rightarrow> ('j filesys \<Rightarrow> 'a result \<times> 'j filesys) \<Rightarrow> 'a result \<times> 'j filesys" where
  "syscall fs f =
     (case next_fault fs of (NoFault, fs) \<Rightarrow> f fs | (Fault _ e, fs) \<Rightarrow> (Inl e, fs))"

definition lookup :: "'j filesys \<Rightarrow> path \<Rightarrow> entry option" where
  "lookup fs p = (if p = [] then Some Dir else map_of (fs_entries fs) p)"

definition set_entry :: "path \<Rightarrow> entry \<Rightarrow> 'j filesys \<Rightarrow> 'j filesys" where
  "set_entry p e fs = fs\<lparr>fs_entries := AList.update p e (fs_entries fs)\<rparr>"

text \<open>\<open>os.MkdirAll\<close>: every prefix of the path becomes a directory.\<close>

fun mkdirs :: "path \<Rightarrow> path \<Rightarrow> 'j filesys \<Rightarrow> unit result \<times> 'j filesys" where
  "mkdirs done [] fs = (Inr (), fs)"
| "mkdirs done (n # ns) fs =
     (let p = done @ [n] in
      case lookup fs p of
        None \<Rightarrow> mkdirs p ns (set_entry p Dir fs)
      | Some Dir \<Rightarrow> mkdirs p ns fs
      | Some (File _) \<Rightarrow> (Inl (Errorf ''not a directory''), fs))"

definition MkdirAll :: "path \<Rightarrow> 'j filesys \<Rightarrow> unit result \<times> 'j filesys" where
  "MkdirAll p fs = syscall fs (mkdirs [] p)"

definition new_file :: "path \<Rightarrow> 'j filesys \<Rightarrow> nat result \<times> 'j filesys" where
  "new_file p fs =
     (let i = fs_next fs
      in (Inr i, (set_entry p (File i) fs)\<lparr>fs_inodes := (fs_inodes fs)(i := Bytes []), fs_next := i + 1\<rparr>))"

text \<open>
  \<open>os.OpenFile\<close> with \<open>O_APPEND|O_CREATE|O_WRONLY\<close>, \<open>os.Create\<close>, which truncates, and
  \<open>os.Open\<close>.
\<close>

definition open_with :: "bool \<Rightarrow> bool \<Rightarrow> path \<Rightarrow> 'j filesys \<Rightarrow> nat result \<times> 'j filesys" where
  "open_with create trunc p fs =
     syscall fs (\<lambda>fs.
       if lookup fs (butlast p) \<noteq> Some Dir then (Inl ErrNotExist, fs)
       else case lookup fs p of
         None \<Rightarrow> if create then new_file p fs else (Inl ErrNotExist, fs)
       | Some Dir \<Rightarrow> (Inl (Errorf ''is a directory''), fs)
       | Some (File i) \<Rightarrow>
           (Inr i, if trunc then fs\<lparr>fs_inodes := (fs_inodes fs)(i := Bytes [])\<rparr> else fs))"

definition OpenAppend :: "path \<Rightarrow> 'j filesys \<Rightarrow> nat result \<times> 'j filesys" where
  "OpenAppend = open_with True False"

definition Create :: "path \<Rightarrow> 'j filesys \<Rightarrow> nat result \<times> 'j filesys" where
  "Create = open_with True True"

definition OpenRead :: "path \<Rightarrow> 'j filesys \<Rightarrow> nat result \<times> 'j filesys" where
  "OpenRead = open_with False False"

text \<open>The bytes of a file; the text of a JSON document is not looked at as bytes.\<close>

definition file_bytes :: "'j filesys \<Rightarrow> nat \<Rightarrow> byte list" where
  "file_bytes fs i = (case fs_inodes fs i of Bytes bs \<Rightarrow> bs | _ \<Rightarrow> [])"

text \<open>\<open>File.Write\<close>: the number of bytes written, an error when they are fewer.\<close>

definition append_bytes :: "nat \<Rightarrow> byte list \<Rightarrow> 'j filesys \<Rightarrow> 'j filesys" where
  "append_bytes i bs fs = fs\<lparr>fs_inodes := (fs_inodes fs)(i := Bytes (file_bytes fs i @ bs))\<rparr>"

definition file_Write :: "nat \<Rightarrow> byte list \<Rightarrow> 'j filesys \<Rightarrow> (nat \<times> go_error option) \<times> 'j filesys" where
  "file_Write i bs fs =
     (case next_fault fs of
        (NoFault, fs) \<Rightarrow> ((length bs, None), append_bytes i bs fs)
      | (Fault n e, fs) \<Rightarrow> ((min n (length bs), Some e), append_bytes i (take n bs) fs))"

definition file_Close :: "'j filesys \<Rightarrow> unit result \<times> 'j filesys" where
  "file_Close fs = syscall fs (\<lambda>fs. (Inr (), fs))"

text \<open>\<open>os.ReadDir\<close>: the entries of a directory, sorted by file name.\<close>

definition dir_entries :: "path \<Rightarrow> 'j filesys \<Rightarrow> (string \<times> entry) list" where
  "dir_entries p fs =
     sort_key fst (map (\<lambda>(q, e). (last q, e)) (filter (\<lambda>(q, e). q \<noteq> [] \<and> butlast q = p) (fs_entries fs)))"

definition ReadDir :: "path \<Rightarrow> 'j filesys \<Rightarrow> (string \<times> entry) list result \<times> 'j filesys" where
  "ReadDir p fs =
     syscall fs (\<lambda>fs. if lookup fs p = Some Dir then (Inr (dir_entries p fs), fs) else (Inl ErrNotExist, fs))"

definition RemoveAll :: "path \<Rightarrow> 'j filesys \<Rightarrow> unit result \<times> 'j filesys" where
  "RemoveAll p fs =
     syscall fs (\<lambda>fs. (Inr (), fs\<lparr>fs_entries := filter (\<lambda>(q, e). \<not> prefix p q) (fs_entries fs)\<rparr>))"

section \<open>The buffered writer\<close>

text \<open>
  \<open>bufio.Writer\<close> over a writer given as a function. Its error is sticky. \<open>WriteString\<close> on a file,
  which has \<open>WriteString\<close> itself, behaves as \<open>Write\<close>.
\<close>

record bufioWriter =
  bw_err :: "go_error option"
  bw_buf :: "byte list"
  bw_size :: nat

definition NewWriterSize :: "int \<Rightarrow> bufioWriter" where
  "NewWriterSize sz = \<lparr>bw_err = None, bw_buf = [], bw_size = (if sz \<le> 0 then 4096 else nat sz)\<rparr>"

definition bw_Available :: "bufioWriter \<Rightarrow> nat" where
  "bw_Available b = bw_size b - length (bw_buf b)"

type_synonym 's writer = "byte list \<Rightarrow> 's \<Rightarrow> (nat \<times> go_error option) \<times> 's"

definition bw_Flush :: "'s writer \<Rightarrow> bufioWriter \<Rightarrow> 's \<Rightarrow> bufioWriter \<times> 's" where
  "bw_Flush wr b s =
     (if bw_err b \<noteq> None \<or> bw_buf b = [] then (b, s)
      else
        let ((n, err), s) = wr (bw_buf b) s;
            err = (if n < length (bw_buf b) \<and> err = None then Some (Errorf ''short write'') else err)
        in (if err = None then b\<lparr>bw_buf := []\<rparr>
            else b\<lparr>bw_buf := drop n (bw_buf b), bw_err := err\<rparr>, s))"

text \<open>
  The loop of \<open>Write\<close>. A file reports an error whenever it writes less than it was given, so the
  direct write of an empty buffer ends the loop; after a flush without error the buffer is empty.
\<close>

lemma bw_Flush_cases:
  assumes "bw_Flush wr b s = (b', s')"
  shows "bw_err b' \<noteq> None \<or> bw_buf b' = []"
  using assms by (auto simp: bw_Flush_def Let_def split: if_splits prod.splits)

function bw_Write :: "'s writer \<Rightarrow> byte list \<Rightarrow> bufioWriter \<Rightarrow> 's \<Rightarrow> bufioWriter \<times> 's" where
  "bw_Write wr p b s =
     (if bw_Available b < length p \<and> bw_err b = None then
        if bw_buf b = [] then
          let ((n, err), s) = wr p s in (b\<lparr>bw_err := err\<rparr>, s)
        else
          let n = bw_Available b;
              (b, s) = bw_Flush wr (b\<lparr>bw_buf := bw_buf b @ take n p\<rparr>) s
          in bw_Write wr (drop n p) b s
      else if bw_err b \<noteq> None then (b, s)
      else (b\<lparr>bw_buf := bw_buf b @ p\<rparr>, s))"
  by pat_completeness auto
termination
  by (relation "measure (\<lambda>(wr, p, b, s). if bw_err b \<noteq> None then 0 else if bw_buf b = [] then 1 else 2)")
     (auto split: prod.splits dest: bw_Flush_cases)

declare bw_Write.simps [simp del]

definition bw_WriteByte :: "'s writer \<Rightarrow> byte \<Rightarrow> bufioWriter \<Rightarrow> 's \<Rightarrow> bufioWriter \<times> 's" where
  "bw_WriteByte wr c b s =
     (if bw_err b \<noteq> None then (b, s)
      else
        let (b, s) = (if bw_Available b \<le> 0 then bw_Flush wr b s else (b, s))
        in if bw_err b \<noteq> None then (b, s) else (b\<lparr>bw_buf := bw_buf b @ [c]\<rparr>, s))"

section \<open>Reading the bytes of a file\<close>

text \<open>\<open>bufio.Reader\<close> over an open file, as the bytes not yet read.\<close>

fun br_ReadByte :: "byte list \<Rightarrow> byte result \<times> byte list" where
  "br_ReadByte [] = (Inl EOF, [])"
| "br_ReadByte (b # bs) = (Inr b, bs)"

text \<open>\<open>io.ReadFull\<close> into a buffer of \<open>n\<close> bytes.\<close>

definition ReadFull :: "nat \<Rightarrow> byte list \<Rightarrow> byte list result \<times> byte list" where
  "ReadFull n bs =
     (if n \<le> length bs then (Inr (take n bs), drop n bs)
      else (Inl (if bs = [] then EOF else ErrUnexpectedEOF), []))"

section \<open>Lemmas on the buffered writer\<close>

text \<open>
  The contract of the underlying writer: it appends a prefix of what it is given, and all of it
  when it reports no error. Whatever fails, the file holds a prefix of what was written; while
  nothing has failed, the file and the buffer together hold exactly what was written.
\<close>

definition bw_ok :: "bufioWriter \<Rightarrow> bool" where
  "bw_ok b \<longleftrightarrow> length (bw_buf b) \<le> bw_size b \<and> 0 < bw_size b"

locale log_writer =
  fixes wr :: "'s writer"
    and contents :: "'s \<Rightarrow> byte list"
  assumes wr_prefix: "wr p s = ((n, err), s') \<Longrightarrow>
      n \<le> length p \<and> contents s' = contents s @ take n p \<and> (err = None \<longrightarrow> n = length p)"
begin

text \<open>
  \<open>advances b s b' s' p\<close>: the writer goes from \<open>(b, s)\<close> to \<open>(b', s')\<close> having been given \<open>p\<close>.
\<close>

definition advances :: "bufioWriter \<Rightarrow> 's \<Rightarrow> bufioWriter \<Rightarrow> 's \<Rightarrow> byte list \<Rightarrow> bool" where
  "advances b s b' s' p \<longleftrightarrow>
     (if bw_err b \<noteq> None then b' = b \<and> s' = s
      else if bw_err b' \<noteq> None then \<exists>k. contents s' = contents s @ take k (bw_buf b @ p)
      else contents s' @ bw_buf b' = contents s @ bw_buf b @ p \<and> prefix (contents s) (contents s'))
     \<and> bw_size b' = bw_size b \<and> (bw_ok b \<longrightarrow> bw_ok b')"

lemma bw_Flush_advances:
  assumes "bw_Flush wr b s = (b', s')"
  shows "advances b s b' s' [] \<and> (bw_err b' = None \<longrightarrow> bw_buf b' = [])"
proof (cases "bw_err b \<noteq> None \<or> bw_buf b = []")
  case True
  thus ?thesis using assms by (auto simp: bw_Flush_def advances_def)
next
  case False
  obtain n err s1 where wr: "wr (bw_buf b) s = ((n, err), s1)" by (metis prod.exhaust)
  note c = wr_prefix [OF wr]
  show ?thesis using assms False wr c
    by (auto simp: bw_Flush_def advances_def Let_def bw_ok_def split: if_splits)
qed

lemma advances_trans:
  assumes "advances b s b1 s1 p" "advances b1 s1 b2 s2 q"
  shows "advances b s b2 s2 (p @ q)"
proof (cases "bw_err b \<noteq> None \<or> bw_err b1 \<noteq> None")
  case True
  have "\<exists>j. take k (xs @ p) = take j (xs @ p @ q)" for k and xs :: "byte list"
    by (rule exI [of _ "min k (length (xs @ p))"]) (simp add: min_def)
  thus ?thesis using assms True by (auto simp: advances_def split: if_splits)
next
  case ok: False
  hence one: "contents s1 @ bw_buf b1 = contents s @ bw_buf b @ p" "prefix (contents s) (contents s1)"
    using assms(1) by (auto simp: advances_def)
  show ?thesis
  proof (cases "bw_err b2 = None")
    case True
    thus ?thesis using assms ok one by (auto simp: advances_def intro: prefix_order.trans)
  next
    case False
    then obtain k where k: "contents s2 = contents s1 @ take k (bw_buf b1 @ q)"
      using assms(2) ok by (auto simp: advances_def)
    obtain zs where zs: "contents s1 = contents s @ zs" using one(2) by (auto simp: prefix_def)
    have "zs @ bw_buf b1 = bw_buf b @ p" using one(1) zs by simp
    hence eq: "bw_buf b @ p @ q = zs @ bw_buf b1 @ q" by (metis append.assoc)
    have "contents s2 = contents s @ take (length zs + k) (bw_buf b @ p @ q)"
      unfolding eq using k zs by simp
    thus ?thesis using assms ok False by (auto simp: advances_def)
  qed
qed

lemma advances_buffer:
  assumes "length (bw_buf b) + length p \<le> bw_size b \<or> bw_err b \<noteq> None"
  shows "advances b s (if bw_err b \<noteq> None then b else b\<lparr>bw_buf := bw_buf b @ p\<rparr>) s p"
  using assms by (auto simp: advances_def bw_ok_def)

lemma bw_Write_advances: "bw_Write wr p b s = (b', s') \<Longrightarrow> bw_ok b \<Longrightarrow> advances b s b' s' p"
proof (induction wr' \<equiv> wr p b s arbitrary: b' s' rule: bw_Write.induct)
  case (1 p b s)
  note IH = "1.hyps" and ret = "1.prems"(1) and ok = "1.prems"(2)
  show ?case
  proof (cases "bw_Available b < length p \<and> bw_err b = None")
    case False
    thus ?thesis using ret advances_buffer [of b p s] ok
      by (subst (asm) bw_Write.simps) (auto simp: bw_Available_def bw_ok_def split: if_splits)
  next
    case True
    show ?thesis
    proof (cases "bw_buf b = []")
      case empty: True
      obtain n err s1 where wr: "wr p s = ((n, err), s1)" by (metis prod.exhaust)
      show ?thesis using ret True empty wr wr_prefix [OF wr] ok
        by (subst (asm) bw_Write.simps) (auto simp: advances_def bw_ok_def)
    next
      case False
      let ?n = "bw_Available b" and ?b = "b\<lparr>bw_buf := bw_buf b @ take (bw_Available b) p\<rparr>"
      obtain b1 s1 where fl: "bw_Flush wr ?b s = (b1, s1)" by fastforce
      have "advances b s ?b s (take ?n p)"
        using advances_buffer [of b "take ?n p" s] True ok by (simp add: bw_Available_def bw_ok_def)
      hence b1: "advances b s b1 s1 (take ?n p)"
        using advances_trans [OF _ conjunct1 [OF bw_Flush_advances [OF fl]]] by fastforce
      have "bw_Write wr (drop ?n p) b1 s1 = (b', s')"
        using ret True False fl by (subst (asm) bw_Write.simps) (simp add: Let_def)
      moreover have "bw_ok b1" using b1 ok by (simp add: advances_def)
      ultimately have "advances b1 s1 b' s' (drop ?n p)"
        using IH [OF True False refl fl [symmetric] refl] by blast
      from advances_trans [OF b1 this] show ?thesis by simp
    qed
  qed
qed

lemma bw_WriteByte_advances:
  assumes "bw_WriteByte wr c b s = (b', s')" "bw_ok b"
  shows "advances b s b' s' [c]"
proof (cases "bw_err b \<noteq> None")
  case True
  thus ?thesis using assms by (auto simp: bw_WriteByte_def advances_def)
next
  case False
  obtain b1 s1 where b1: "(if bw_Available b \<le> 0 then bw_Flush wr b s else (b, s)) = (b1, s1)" by fastforce
  have a1: "advances b s b1 s1 []" and room: "bw_err b1 = None \<Longrightarrow> length (bw_buf b1) < bw_size b1"
    using b1 bw_Flush_advances [of b s b1 s1] assms(2)
    by (auto simp: advances_def bw_ok_def bw_Available_def split: if_splits)
  have "b' = (if bw_err b1 \<noteq> None then b1 else b1\<lparr>bw_buf := bw_buf b1 @ [c]\<rparr>)" "s' = s1"
    using assms(1) b1 False by (auto simp: bw_WriteByte_def split: if_splits)
  hence "advances b1 s1 b' s' [c]" using advances_buffer [of b1 "[c]" s1] room by fastforce
  from advances_trans [OF a1 this] show ?thesis by simp
qed

end

section \<open>Lemmas on the file system\<close>

lemma syscall_no_faults [simp]: "fs_faults fs = [] \<Longrightarrow> syscall fs f = f fs"
  by (simp add: syscall_def next_fault_def)

text \<open>The next \<open>n\<close> system calls do not fail; the file system without their faults.\<close>

definition quiet :: "nat \<Rightarrow> 'j filesys \<Rightarrow> bool" where
  "quiet n fs \<longleftrightarrow> (\<forall>f \<in> set (take n (fs_faults fs)). f = NoFault)"

abbreviation spent :: "nat \<Rightarrow> 'j filesys \<Rightarrow> 'j filesys" where
  "spent n fs \<equiv> fs\<lparr>fs_faults := drop n (fs_faults fs)\<rparr>"

lemma quiet_no_faults [simp]: "fs_faults fs = [] \<Longrightarrow> quiet n fs" "fs_faults fs = [] \<Longrightarrow> fs\<lparr>fs_faults := []\<rparr> = fs"
  by (simp_all add: quiet_def)

lemma quiet_less: "quiet n fs \<Longrightarrow> k \<le> n \<Longrightarrow> quiet k fs"
  using set_take_subset_set_take [of k n "fs_faults fs"] by (auto simp: quiet_def)

lemma quiet_spent: "quiet (k + n) fs \<Longrightarrow> quiet n (spent k fs)"
  using take_drop [of n k "fs_faults fs"] by (auto simp: quiet_def add.commute [of k n] dest: in_set_dropD)

lemma next_fault_quiet:
  assumes "quiet n fs" "0 < n"
  shows "next_fault fs = (NoFault, spent 1 fs)"
  using assms by (cases "fs_faults fs"; cases n) (simp_all add: quiet_def next_fault_def)

lemma syscall_quiet: "quiet n fs \<Longrightarrow> 0 < n \<Longrightarrow> syscall fs f = f (spent 1 fs)"
  by (simp add: syscall_def next_fault_quiet)

lemma lookup_spent [simp]: "lookup (fs\<lparr>fs_faults := fl\<rparr>) = lookup fs"
  by (simp add: lookup_def fun_eq_iff)

lemma lookup_set_entry: "p \<noteq> [] \<Longrightarrow> lookup (set_entry p e fs) q = (if q = p then Some e else lookup fs q)"
  by (auto simp: lookup_def set_entry_def update_conv')

lemma set_entry_fields [simp]:
  "fs_faults (set_entry p e fs) = fs_faults fs" "fs_inodes (set_entry p e fs) = fs_inodes fs"
  "fs_next (set_entry p e fs) = fs_next fs"
  by (simp_all add: set_entry_def)

lemma lookup_fields [simp]:
  "lookup (fs\<lparr>fs_inodes := ino\<rparr>) q = lookup fs q" "lookup (fs\<lparr>fs_next := i\<rparr>) q = lookup fs q"
  by (simp_all add: lookup_def)

text \<open>A directory can be made when no file stands on the way; nothing else changes.\<close>

lemma mkdirs_ok:
  assumes "\<forall>q. prefix q (done @ ns) \<longrightarrow> lookup fs q = None \<or> lookup fs q = Some Dir" "lookup fs done = Some Dir"
  shows "\<exists>fs'. mkdirs done ns fs = (Inr (), fs') \<and> lookup fs' (done @ ns) = Some Dir \<and>
    fs_faults fs' = fs_faults fs \<and> fs_inodes fs' = fs_inodes fs \<and> fs_next fs' = fs_next fs \<and>
    (\<forall>q. \<not> prefix q (done @ ns) \<longrightarrow> lookup fs' q = lookup fs q)"
  using assms
proof (induction ns arbitrary: "done" fs)
  case (Cons n ns)
  let ?p = "done @ [n]"
  show ?case
  proof (cases "lookup fs ?p")
    case None
    have "\<exists>fs'. mkdirs ?p ns (set_entry ?p Dir fs) = (Inr (), fs') \<and> lookup fs' (?p @ ns) = Some Dir \<and>
      fs_faults fs' = fs_faults (set_entry ?p Dir fs) \<and> fs_inodes fs' = fs_inodes (set_entry ?p Dir fs) \<and>
      fs_next fs' = fs_next (set_entry ?p Dir fs) \<and>
      (\<forall>q. \<not> prefix q (?p @ ns) \<longrightarrow> lookup fs' q = lookup (set_entry ?p Dir fs) q)"
      by (rule Cons.IH) (use Cons.prems in \<open>auto simp: lookup_set_entry\<close>)
    thus ?thesis using None by (auto simp: Let_def lookup_set_entry)
  next
    case (Some e)
    have "prefix ?p (done @ n # ns)" by (simp add: prefix_def)
    hence "e = Dir" using Cons.prems(1) Some by fastforce
    moreover have "\<exists>fs'. mkdirs ?p ns fs = (Inr (), fs') \<and> lookup fs' (?p @ ns) = Some Dir \<and>
      fs_faults fs' = fs_faults fs \<and> fs_inodes fs' = fs_inodes fs \<and> fs_next fs' = fs_next fs \<and>
      (\<forall>q. \<not> prefix q (?p @ ns) \<longrightarrow> lookup fs' q = lookup fs q)"
      by (rule Cons.IH) (use Cons.prems Some \<open>e = Dir\<close> in auto)
    ultimately show ?thesis using Some by (simp add: Let_def)
  qed
qed simp

text \<open>A path at which a directory with new files can be made.\<close>

definition can_create :: "path \<Rightarrow> 'j filesys \<Rightarrow> bool" where
  "can_create dir fs \<longleftrightarrow> dir \<noteq> [] \<and> fs_faults fs = [] \<and>
     (\<forall>q. prefix q dir \<longrightarrow> lookup fs q = None \<or> lookup fs q = Some Dir) \<and> (\<forall>n. lookup fs (dir @ [n]) = None)"

lemma MkdirAll_can_create:
  assumes "can_create dir fs"
  shows "\<exists>fs'. MkdirAll dir fs = (Inr (), fs') \<and> lookup fs' dir = Some Dir \<and> fs_faults fs' = [] \<and>
    fs_inodes fs' = fs_inodes fs \<and> fs_next fs' = fs_next fs \<and> (\<forall>n. lookup fs' (dir @ [n]) = None)"
proof -
  have "\<not> prefix (dir @ [n]) dir" for n by (auto dest: prefix_length_le)
  moreover have "lookup fs [] = Some Dir" by (simp add: lookup_def)
  ultimately show ?thesis
    using mkdirs_ok [of "[]" dir fs] assms by (auto simp: can_create_def MkdirAll_def)
qed

lemma open_new:
  assumes "fs_faults fs = []" "lookup fs dir = Some Dir" "lookup fs (dir @ [n]) = None"
  shows "open_with True tr (dir @ [n]) fs =
    (Inr (fs_next fs), (set_entry (dir @ [n]) (File (fs_next fs)) fs)
       \<lparr>fs_inodes := (fs_inodes fs)(fs_next fs := Bytes []), fs_next := fs_next fs + 1\<rparr>)"
  using assms by (simp add: open_with_def new_file_def Let_def)

lemma open_found:
  assumes "fs_faults fs = []" "lookup fs dir = Some Dir" "lookup fs (dir @ [n]) = Some (File i)"
  shows "open_with cr False (dir @ [n]) fs = (Inr i, fs)"
  using assms by (simp add: open_with_def)

lemma set_entry_new: "p \<noteq> [] \<Longrightarrow> lookup fs p = None \<Longrightarrow> fs_entries (set_entry p e fs) = fs_entries fs @ [(p, e)]"
proof -
  have "map_of es p = None \<Longrightarrow> AList.update p e es = es @ [(p, e)]" for es by (induction es) (auto split: if_splits)
  thus "p \<noteq> [] \<Longrightarrow> lookup fs p = None \<Longrightarrow> ?thesis" by (simp add: set_entry_def lookup_def)
qed

end
