(* ===== verification/Go_JSON.thy ===== *)
theory Go_JSON
  imports Go_Prelude
begin

text \<open>
  What a round trip through Go's \<open>encoding/json\<close> does to a string: bytes that are not part of a
  valid UTF-8 sequence are replaced by the replacement character U+FFFD, one for each byte, as
  \<open>json.Marshal\<close> documents. A string that is valid UTF-8 comes back as it was.
\<close>

abbreviation cont_byte :: "nat \<Rightarrow> bool" where
  "cont_byte b \<equiv> 0x80 \<le> b \<and> b \<le> 0xBF"

text \<open>The length of the valid UTF-8 sequence at the start of a byte string, 0 if there is none.\<close>

fun utf8_len :: "nat list \<Rightarrow> nat" where
  "utf8_len [] = 0"
| "utf8_len (b0 # bs) =
     (if b0 < 0x80 then 1
      else if 0xC2 \<le> b0 \<and> b0 \<le> 0xDF then
        (case bs of b1 # _ \<Rightarrow> if cont_byte b1 then 2 else 0 | _ \<Rightarrow> 0)
      else if 0xE0 \<le> b0 \<and> b0 \<le> 0xEF then
        (case bs of
           b1 # b2 # _ \<Rightarrow>
             if (if b0 = 0xE0 then 0xA0 \<le> b1 \<and> b1 \<le> 0xBF else if b0 = 0xED then 0x80 \<le> b1 \<and> b1 \<le> 0x9F
                 else cont_byte b1) \<and> cont_byte b2 then 3 else 0
         | _ \<Rightarrow> 0)
      else if 0xF0 \<le> b0 \<and> b0 \<le> 0xF4 then
        (case bs of
           b1 # b2 # b3 # _ \<Rightarrow>
             if (if b0 = 0xF0 then 0x90 \<le> b1 \<and> b1 \<le> 0xBF else if b0 = 0xF4 then 0x80 \<le> b1 \<and> b1 \<le> 0x8F
                 else cont_byte b1) \<and> cont_byte b2 \<and> cont_byte b3 then 4 else 0
         | _ \<Rightarrow> 0)
      else 0)"

definition replacement_char :: string where
  "replacement_char = [CHR 0xEF, CHR 0xBF, CHR 0xBD]"

function to_utf8 :: "string \<Rightarrow> string" where
  "to_utf8 s =
     (if s = [] then []
      else let k = utf8_len (map of_char s)
           in if k = 0 then replacement_char @ to_utf8 (tl s)
              else take k s @ to_utf8 (drop k s))"
  by pat_completeness auto
termination
  by (relation "measure length") auto

declare to_utf8.simps [simp del]

text \<open>A string is valid when it is a sequence of valid UTF-8 sequences.\<close>

function valid_utf8 :: "string \<Rightarrow> bool" where
  "valid_utf8 s =
     (if s = [] then True
      else let k = utf8_len (map of_char s) in if k = 0 then False else valid_utf8 (drop k s))"
  by pat_completeness auto
termination
  by (relation "measure length") auto

declare valid_utf8.simps [simp del]

lemma to_utf8_Nil [simp]: "to_utf8 [] = []"
  by (subst to_utf8.simps) simp

lemma to_utf8_valid [simp]: "valid_utf8 s \<Longrightarrow> to_utf8 s = s"
proof (induction s rule: to_utf8.induct)
  case (1 s)
  show ?case
  proof (cases "s = []")
    case False
    let ?k = "utf8_len (map of_char s)"
    have "?k \<noteq> 0" "valid_utf8 (drop ?k s)"
      using "1.prems" False by (subst (asm) valid_utf8.simps; simp add: Let_def split: if_splits)+
    thus ?thesis using "1.IH"(2) [OF False refl] False by (subst to_utf8.simps) (simp add: Let_def)
  qed simp
qed

text \<open>Seven-bit strings are valid.\<close>

lemma valid_utf8_ascii: "\<forall>c \<in> set s. (of_char c :: nat) < 128 \<Longrightarrow> valid_utf8 s"
proof (induction s)
  case Nil
  show ?case by (subst valid_utf8.simps) simp
next
  case (Cons c s)
  thus ?case by (subst valid_utf8.simps) simp
qed

text \<open>What comes back from JSON is always valid, whatever went in.\<close>

lemma utf8_len_le: "utf8_len bs \<le> length bs"
  by (cases bs) (auto split: list.splits)

lemma utf8_len_take:
  assumes "utf8_len bs = k" "k \<noteq> 0"
  shows "utf8_len (take k bs @ cs) = k"
proof -
  obtain b0 bs1 where "bs = b0 # bs1" using assms by (cases bs) auto
  thus ?thesis using assms
    by (cases bs1; cases "tl bs1"; cases "tl (tl bs1)") (auto split: if_splits)
qed

lemma valid_utf8_Nil [simp]: "valid_utf8 []"
  by (subst valid_utf8.simps) simp

lemma valid_utf8_append:
  assumes "utf8_len (map of_char s) = k" "k \<noteq> 0" "valid_utf8 t"
  shows "valid_utf8 (take k s @ t)"
proof -
  have len: "k \<le> length s" using utf8_len_le [of "map of_char s"] assms(1) by simp
  have "utf8_len (map of_char (take k s @ t)) = k"
    using utf8_len_take [of "map of_char s" k "map of_char t"] assms(1,2) by (simp add: take_map)
  thus ?thesis using assms len by (subst valid_utf8.simps) (auto simp: Let_def)
qed

lemma valid_replacement: "valid_utf8 t \<Longrightarrow> valid_utf8 (replacement_char @ t)"
  using valid_utf8_append [of replacement_char 3 t] by (simp add: replacement_char_def)

lemma valid_to_utf8: "valid_utf8 (to_utf8 s)"
proof (induction s rule: to_utf8.induct)
  case (1 s)
  show ?case
    using 1 by (subst to_utf8.simps) (auto simp: Let_def intro: valid_replacement valid_utf8_append)
qed

end
