(* ===== verification/Disk_Partition.thy ===== *)
theory Disk_Partition
  imports Gorilla_Series Labels Go_Time Go_OS Go_JSON
begin

text \<open>
  \<open>src/disk_partition.go\<close>: a read-only partition in a directory with a data file, which holds the
  encoded series one after the other, and a meta file in JSON, which says where each series starts
  and how many points it has.

  The meta file is the JSON document of a \<open>meta\<close> record; \<open>json_meta\<close> is what decoding the document
  gives back. \<open>now\<close> is the time of the call. The memory-mapped data file is its bytes at the time it
  was mapped.
\<close>

section \<open>The partition and its meta data\<close>

record diskMetric =
  dm_Name :: string
  dm_Offset :: int64
  dm_MinTimestamp :: int64
  dm_MaxTimestamp :: int64
  dm_NumDataPoints :: int64

record meta =
  meta_MinTimestamp :: int64
  meta_MaxTimestamp :: int64
  meta_NumDataPoints :: int
  meta_Metrics :: "(string \<times> diskMetric) list"
  meta_CreatedAt :: Time

record diskPartition =
  dk_dirPath :: path
  dk_meta :: meta
  dk_mappedFile :: "byte list"
  dk_retention :: Duration

definition dataFileName :: string where "dataFileName = ''data''"
definition metaFileName :: string where "metaFileName = ''meta.json''"

text \<open>
  JSON writes the keys of a map in sorted order and decoding enters them one after the other; names
  are coerced to valid UTF-8 on the way.
\<close>

definition json_metrics :: "(string \<times> diskMetric) list \<Rightarrow> (string \<times> diskMetric) list" where
  "json_metrics ms =
     foldl (\<lambda>al (k, dm). AList.update (to_utf8 k) (dm\<lparr>dm_Name := to_utf8 (dm_Name dm)\<rparr>) al) []
       (sort_key fst ms)"

definition json_meta :: "meta \<Rightarrow> meta" where
  "json_meta m = m\<lparr>meta_Metrics := json_metrics (meta_Metrics m)\<rparr>"

section \<open>Opening\<close>

definition os_Stat :: "path \<Rightarrow> 'j filesys \<Rightarrow> unit result \<times> 'j filesys" where
  "os_Stat p fs = syscall fs (\<lambda>fs. (if lookup fs p = None then Inl ErrNotExist else Inr (), fs))"

text \<open>\<open>f.Stat\<close> and \<open>syscall.Mmap\<close> on an open file.\<close>

definition file_call :: "'j filesys \<Rightarrow> unit result \<times> 'j filesys" where
  "file_call fs = syscall fs (\<lambda>fs. (Inr (), fs))"

definition json_Decode :: "meta content \<Rightarrow> meta result" where
  "json_Decode c =
     (case c of Json m \<Rightarrow> Inr m | Bytes [] \<Rightarrow> Inl EOF | Bytes _ \<Rightarrow> Inl (Errorf ''invalid JSON'')
      | JsonCut \<Rightarrow> Inl ErrUnexpectedEOF)"

definition openDiskPartition :: "path \<Rightarrow> Duration \<Rightarrow> meta filesys \<Rightarrow> diskPartition result \<times> meta filesys" where
  "openDiskPartition dirPath retention fs =
     (if dirPath = [] then (Inl (Errorf ''dir path is required''), fs)
      else case os_Stat (dirPath @ [metaFileName]) fs of (st, fs) \<Rightarrow>
        if (case st of Inl e \<Rightarrow> errors_Is e ErrNotExist | Inr _ \<Rightarrow> False) then (Inl ErrInvalidPartition, fs)
        else case OpenRead (dirPath @ [dataFileName]) fs of
          (Inl e, fs) \<Rightarrow> (Inl (Wrapf ''failed to read data file'' e), fs)
        | (Inr f, fs) \<Rightarrow>
            (case file_call fs of
               (Inl e, fs) \<Rightarrow> (Inl (Wrapf ''failed to fetch file info'' e), fs)
             | (Inr _, fs) \<Rightarrow>
                 if file_bytes fs f = [] then (Inl ErrNoDataPoints, fs)
                 else
            (case file_call fs of
               (Inl e, fs) \<Rightarrow> (Inl (Wrapf ''failed to perform mmap'' e), fs)
             | (Inr _, fs) \<Rightarrow>
            (case OpenRead (dirPath @ [metaFileName]) fs of
               (Inl e, fs) \<Rightarrow> (Inl (Wrapf ''failed to read metadata'' e), fs)
             | (Inr mf, fs) \<Rightarrow>
            (case json_Decode (fs_inodes fs mf) of
               Inl e \<Rightarrow> (Inl (Wrapf ''failed to decode metadata'' e), fs)
             | Inr m \<Rightarrow>
                 (Inr \<lparr>dk_dirPath = dirPath, dk_meta = m, dk_mappedFile = file_bytes fs f,
                        dk_retention = retention\<rparr>, fs))))))"

section \<open>Reading\<close>

text \<open>\<open>time.Since\<close>: the difference saturates at the range of a duration.\<close>

definition time_Since :: "Time \<Rightarrow> Time \<Rightarrow> Duration" where
  "time_Since now t = min (2 ^ 63 - 1) (max (- (2 ^ 63)) (now - t))"

definition dk_expired :: "Time \<Rightarrow> diskPartition \<Rightarrow> bool" where
  "dk_expired now d \<longleftrightarrow> dk_retention d < time_Since now (meta_CreatedAt (dk_meta d))"

definition dk_insertRows :: "Row list \<Rightarrow> Row list result" where
  "dk_insertRows rows = Inl (Errorf (''can'' @ [CHR 0x27] @ ''t insert rows into disk partition''))"

text \<open>The loop over the points of a series.\<close>

fun dk_points :: "nat \<Rightarrow> gorillaDecoder \<Rightarrow> int64 \<Rightarrow> int64 \<Rightarrow> DataPoint list result" where
  "dk_points 0 decoder start end = Inr []"
| "dk_points (Suc n) decoder start end =
     (case decodePoint decoder of
        (Inl e, _) \<Rightarrow> Inl (Wrapf ''failed to decode point'' e)
      | (Inr p, decoder) \<Rightarrow>
          if dp_Timestamp p < start then dk_points n decoder start end
          else if end \<le> dp_Timestamp p then Inr []
          else map_sum id ((#) p) (dk_points n decoder start end))"

definition dk_selectDataPoints ::
  "Runtime \<Rightarrow> Time \<Rightarrow> string \<Rightarrow> Label list \<Rightarrow> int64 \<Rightarrow> int64 \<Rightarrow> diskPartition \<Rightarrow> DataPoint list result" where
  "dk_selectDataPoints R now metric labels start end d =
     (if dk_expired now d then Inl (Wrapf ''this partition is expired'' ErrNoDataPoints)
      else case map_of (meta_Metrics (dk_meta d)) (metricName (sortLabels R) metric labels) of
        None \<Rightarrow> Inl ErrNoDataPoints
      | Some mt \<Rightarrow>
          if dm_Offset mt < 0 then Inl (Wrapf ''failed to seek'' (Errorf ''bytes.Reader.Seek: negative position''))
          else if dm_NumDataPoints mt < 0 \<or> 2 ^ 45 < dm_NumDataPoints mt
               then Inl (Panic ''makeslice: cap out of range'')
          else dk_points (nat (dm_NumDataPoints mt))
                 (newSeriesDecoder (drop (nat (dm_Offset mt)) (dk_mappedFile d))) start end)"

definition dk_minTimestamp :: "diskPartition \<Rightarrow> int64" where
  "dk_minTimestamp d = meta_MinTimestamp (dk_meta d)"

definition dk_maxTimestamp :: "diskPartition \<Rightarrow> int64" where
  "dk_maxTimestamp d = meta_MaxTimestamp (dk_meta d)"

definition dk_size :: "diskPartition \<Rightarrow> int" where
  "dk_size d = meta_NumDataPoints (dk_meta d)"

definition dk_active :: "diskPartition \<Rightarrow> bool" where
  "dk_active d = False"

definition dk_clean :: "diskPartition \<Rightarrow> 'j filesys \<Rightarrow> unit result \<times> 'j filesys" where
  "dk_clean d fs =
     (case RemoveAll (dk_dirPath d) fs of
        (Inl e, fs) \<Rightarrow> (Inl (Wrapf ''failed to remove all files inside the partition'' e), fs)
      | (Inr _, fs) \<Rightarrow> (Inr (), fs))"

section \<open>Lemmas\<close>

lemma decodePoints_Suc:
  assumes "decodePoints (Suc n) d = Inr ps"
  shows "\<exists>p d' ps'. decodePoint d = (Inr p, d') \<and> decodePoints n d' = Inr ps' \<and> ps = p # ps'"
proof -
  obtain r d' where 1: "decodePoint d = (r, d')" by fastforce
  then obtain p where 2: "r = Inr p" using assms by (cases r) auto
  then obtain ps' where "decodePoints n d' = Inr ps'" using assms 1 by (cases "decodePoints n d'") auto
  thus ?thesis using assms 1 2 by auto
qed

text \<open>The loop selects what decoding the whole series and filtering gives, when it is in order.\<close>

lemma dk_points_eq:
  "decodePoints n d = Inr ps \<Longrightarrow> sorted (map dp_Timestamp ps) \<Longrightarrow>
   dk_points n d start end = Inr (filter (\<lambda>p. start \<le> dp_Timestamp p \<and> dp_Timestamp p < end) ps)"
proof (induction n arbitrary: d ps)
  case (Suc n)
  obtain p d' ps' where dec: "decodePoint d = (Inr p, d')" "decodePoints n d' = Inr ps'" "ps = p # ps'"
    using decodePoints_Suc [OF Suc.prems(1)] by blast
  have IH: "dk_points n d' start end = Inr (filter (\<lambda>p. start \<le> dp_Timestamp p \<and> dp_Timestamp p < end) ps')"
    using Suc.IH [OF dec(2)] Suc.prems(2) dec(3) by simp
  have "filter (\<lambda>p. start \<le> dp_Timestamp p \<and> dp_Timestamp p < end) ps' = []" if "end \<le> dp_Timestamp p"
    using that Suc.prems(2) dec(3) by (auto simp: filter_empty_conv)
  thus ?case using dec IH by auto
qed simp

end
