(* ===== verification/Flush.thy ===== *)
theory Flush
  imports Memory_Partition Disk_Partition
begin

text \<open>
  \<open>flush\<close> of \<open>src/storage.go\<close>: a memory partition is written to a directory, the series of its
  metrics one after the other to the data file and then the meta file, whose presence makes the
  directory a valid partition.

  \<open>sync.Map.Range\<close> visits the metrics in the order \<open>rangeNames\<close>; a metric that cannot be written
  only ends the visit, with a message to the logger, and the meta file is written with the metrics
  so far. Encoding a metric sorts its out-of-order points in place, so the partition is returned.

  The lemmas show that a directory written without faults opens as a disk partition in which every
  series is found and selected exactly, and what becomes of names JSON cannot represent.
\<close>

section \<open>Writing a partition\<close>

text \<open>The data file as the writer of the series encoder.\<close>

definition fs_write :: "nat \<Rightarrow> 'j filesys \<Rightarrow> byte list \<Rightarrow> unit result \<times> 'j filesys" where
  "fs_write fd fs bs =
     (case file_Write fd bs fs of ((_, None), fs) \<Rightarrow> (Inr (), fs) | ((_, Some e), fs) \<Rightarrow> (Inl e, fs))"

fun flush_metrics ::
  "Runtime \<Rightarrow> nat \<Rightarrow> string list \<Rightarrow> memoryPartition \<Rightarrow> 'j filesys gorillaEncoder \<Rightarrow> (string \<times> diskMetric) list
   \<Rightarrow> memoryPartition \<times> 'j filesys gorillaEncoder \<times> (string \<times> diskMetric) list" where
  "flush_metrics R fd [] m e metrics = (m, e, metrics)"
| "flush_metrics R fd (name # names) m e metrics =
     (case map_of (mp_metrics m) name of
        None \<Rightarrow> (m, e, metrics)
      | Some mt \<Rightarrow>
          (case file_call (e_w e) of
             (Inl _, fs) \<Rightarrow> (m, e\<lparr>e_w := fs\<rparr>, metrics)
           | (Inr _, fs) \<Rightarrow>
               let offset = int (length (file_bytes fs fd));
                   (r, mt, e) = encodeAllPoints (sortPoints R) encodePoint mt (e\<lparr>e_w := fs\<rparr>);
                   m = m\<lparr>mp_metrics := AList.update name mt (mp_metrics m)\<rparr>
               in if isl r then (m, e, metrics)
                  else
                    let (r, e) = gorilla_flush (fs_write fd) e in
                    if isl r then (m, e, metrics)
                    else
                      let totalNumPoints = wrap64 (mm_size mt + int (length (mm_outOfOrderPoints mt)));
                          dm = \<lparr>dm_Name = mm_name mt, dm_Offset = offset, dm_MinTimestamp = mm_minTimestamp mt,
                                dm_MaxTimestamp = mm_maxTimestamp mt, dm_NumDataPoints = totalNumPoints\<rparr>
                      in flush_metrics R fd names m e (AList.update (mm_name mt) dm metrics)))"

text \<open>
  \<open>json.Marshal\<close> refuses years outside 0 to 9999; \<open>os.WriteFile\<close> creates, writes and closes. \<open>File.Write\<close>
  reports an error when it has written fewer bytes than it was given, so a fault of the write leaves
  nothing or a text cut short.
\<close>

definition marshal_ok :: "meta \<Rightarrow> bool" where
  "marshal_ok mt \<longleftrightarrow> - 62167219200 * 1000000000 \<le> meta_CreatedAt mt \<and> meta_CreatedAt mt < 253402300800 * 1000000000"

definition WriteFile :: "path \<Rightarrow> meta \<Rightarrow> meta filesys \<Rightarrow> unit result \<times> meta filesys" where
  "WriteFile p b fs =
     (case Create p fs of
        (Inl e, fs) \<Rightarrow> (Inl e, fs)
      | (Inr i, fs) \<Rightarrow>
          (case next_fault fs of
             (NoFault, fs) \<Rightarrow> file_Close (fs\<lparr>fs_inodes := (fs_inodes fs)(i := Json (json_meta b))\<rparr>)
           | (Fault n e, fs) \<Rightarrow>
               (Inl e, snd (file_Close (fs\<lparr>fs_inodes := (fs_inodes fs)(i := if n = 0 then Bytes [] else JsonCut)\<rparr>)))))"

definition storage_flush ::
  "Runtime \<Rightarrow> Time \<Rightarrow> path \<Rightarrow> memoryPartition \<Rightarrow> meta filesys \<Rightarrow> unit result \<times> memoryPartition \<times> meta filesys" where
  "storage_flush R now dirPath m fs =
     (if dirPath = [] then (Inl (Errorf ''dir path is required''), m, fs)
      else case MkdirAll dirPath fs of
        (Inl e, fs) \<Rightarrow> (Inl (Wrapf ''failed to make directory'' e), m, fs)
      | (Inr _, fs) \<Rightarrow>
          (case Create (dirPath @ [dataFileName]) fs of
             (Inl e, fs) \<Rightarrow> (Inl (Wrapf ''failed to create file'' e), m, fs)
           | (Inr f, fs) \<Rightarrow>
               let (m, encoder, metrics) =
                     flush_metrics R f (rangeNames R (map fst (mp_metrics m))) m (newSeriesEncoder fs) [];
                   fs = e_w encoder;
                   b = \<lparr>meta_MinTimestamp = mp_minT m, meta_MaxTimestamp = mp_maxT m,
                        meta_NumDataPoints = mem_size m, meta_Metrics = metrics, meta_CreatedAt = now\<rparr>
               in if \<not> marshal_ok b then (Inl (Errorf ''failed to encode metadata''), m, fs)
                  else case WriteFile (dirPath @ [metaFileName]) b fs of
                    (Inl e, fs) \<Rightarrow> (Inl (Wrapf ''failed to write metadata'' e), m, fs)
                  | (Inr _, fs) \<Rightarrow> (Inr (), m, fs)))"

section \<open>Encoding into the file\<close>

text \<open>Encoders that differ in their writers only.\<close>

definition same_state :: "'v gorillaEncoder \<Rightarrow> 'w gorillaEncoder \<Rightarrow> bool" where
  "same_state e e' \<longleftrightarrow> e_buf e = e_buf e' \<and> e_t0 e = e_t0 e' \<and> e_t1 e = e_t1 e' \<and> e_t e = e_t e' \<and>
     e_tDelta e = e_tDelta e' \<and> e_v e = e_v e' \<and> e_leading e = e_leading e' \<and> e_trailing e = e_trailing e'"

lemma same_state_encodePoint:
  "same_state e e' \<Longrightarrow> same_state (snd (encodePoint e p)) (snd (encodePoint e' p))"
  by (simp add: same_state_def encodePoint_def writeVDelta_def Let_def)

lemma same_state_encodePoints: "same_state e e' \<Longrightarrow> same_state (encodePoints e ps) (encodePoints e' ps)"
  by (induction ps arbitrary: e e') (simp_all add: same_state_encodePoint)

lemma series_buffer: "bstream_bytes (e_buf (encodePoints (newSeriesEncoder w) ps)) = series_bytes ps"
proof -
  have "same_state (newSeriesEncoder w) (newSeriesEncoder ([] :: byte list))"
    by (simp add: same_state_def newSeriesEncoder_def)
  from same_state_encodePoints [OF this, of ps] show ?thesis by (simp add: same_state_def series_bytes_def)
qed

lemma newSeriesEncoder_writer [simp]:
  "e_w (newSeriesEncoder w) = w" "(newSeriesEncoder w)\<lparr>e_w := w'\<rparr> = newSeriesEncoder w'"
  by (simp_all add: newSeriesEncoder_def)

lemma gorilla_flush_series:
  assumes "wr w (series_bytes ps) = (Inr (), w')"
  shows "gorilla_flush wr (encodePoints (newSeriesEncoder w) ps) = (Inr (), newSeriesEncoder w')"
proof -
  have *: "gorilla_flush wr e = (Inr (), newSeriesEncoder w')"
    if "wr (e_w e) (bstream_bytes (e_buf e)) = (Inr (), w')" for e
    using that by (simp add: gorilla_flush_def newSeriesEncoder_def bstream_reset_def new_bstream_def)
  have "e_w (encodePoints (newSeriesEncoder w) ps) = w"
    by (simp add: encodePoints_writer)
  thus ?thesis using assms by (intro *) (simp add: series_buffer)
qed

lemma fs_write_quiet: "quiet n fs \<Longrightarrow> 0 < n \<Longrightarrow> fs_write fd fs bs = (Inr (), append_bytes fd bs (spent 1 fs))"
  by (simp add: fs_write_def file_Write_def next_fault_quiet)

lemma append_bytes_simps [simp]:
  "fs_faults (append_bytes fd bs fs) = fs_faults fs" "fs_entries (append_bytes fd bs fs) = fs_entries fs"
  "fs_next (append_bytes fd bs fs) = fs_next fs"
  "file_bytes (append_bytes fd bs fs) fd = file_bytes fs fd @ bs"
  "append_bytes fd cs (append_bytes fd bs fs) = append_bytes fd (bs @ cs) fs"
  "(append_bytes fd bs fs)\<lparr>fs_faults := fl\<rparr> = append_bytes fd bs (fs\<lparr>fs_faults := fl\<rparr>)"
  by (simp_all add: append_bytes_def file_bytes_def)

lemma append_bytes_Nil: "fs_inodes fs fd = Bytes bs \<Longrightarrow> append_bytes fd [] fs = fs"
  by (simp add: append_bytes_def file_bytes_def fun_upd_idem)

section \<open>The layout of the data file\<close>

text \<open>The entries of the meta file, for the metrics of \<open>al\<close> visited in a given order.\<close>

definition metric_bytes :: "Runtime \<Rightarrow> (string \<times> memoryMetric) list \<Rightarrow> string \<Rightarrow> byte list" where
  "metric_bytes R al n = series_bytes (metric_series (sortPoints R) (metric_at al n))"

definition disk_entry :: "(string \<times> memoryMetric) list \<Rightarrow> nat \<Rightarrow> string \<Rightarrow> diskMetric" where
  "disk_entry al off n =
     \<lparr>dm_Name = n, dm_Offset = int off, dm_MinTimestamp = mm_minTimestamp (metric_at al n),
      dm_MaxTimestamp = mm_maxTimestamp (metric_at al n),
      dm_NumDataPoints = int (size (metric_points (metric_at al n)))\<rparr>"

fun layout :: "Runtime \<Rightarrow> (string \<times> memoryMetric) list \<Rightarrow> nat \<Rightarrow> string list \<Rightarrow> (string \<times> diskMetric) list" where
  "layout R al off [] = []"
| "layout R al off (n # ns) = (n, disk_entry al off n) # layout R al (off + length (metric_bytes R al n)) ns"

lemma layout_names [simp]: "map fst (layout R al off ns) = ns"
  by (induction ns arbitrary: off) simp_all

lemma layout_found:
  assumes "(n, dm) \<in> set (layout R al off ns)"
  shows "\<exists>us vs. ns = us @ n # vs \<and> dm = disk_entry al (off + length (concat (map (metric_bytes R al) us))) n"
  using assms
proof (induction ns arbitrary: off)
  case (Cons k ns)
  show ?case
  proof (cases "(n, dm) = (k, disk_entry al off k)")
    case True
    thus ?thesis by (intro exI [of _ "[]"] exI [of _ ns]) simp
  next
    case False
    hence "(n, dm) \<in> set (layout R al (off + length (metric_bytes R al k)) ns)" using Cons.prems by auto
    from Cons.IH [OF this] obtain us vs where "ns = us @ n # vs"
      "dm = disk_entry al (off + length (metric_bytes R al k) + length (concat (map (metric_bytes R al) us))) n"
      by blast
    thus ?thesis by (intro exI [of _ "k # us"] exI [of _ vs]) (simp add: add.assoc)
  qed
qed simp

lemma alist_update_new: "k \<notin> fst ` set al \<Longrightarrow> AList.update k v al = al @ [(k, v)]"
  by (induction al) auto

text \<open>
  While no call fails, every visited metric is written; sorting its late points leaves its fields.
  The metrics still to come are as before.
\<close>

lemma encode_metric:
  assumes "metric_ok mt" "quiet 1 fs" "slice_sort dp_Timestamp (sortPoints R)"
  shows "\<exists>mt' e. encodeAllPoints (sortPoints R) encodePoint mt (newSeriesEncoder fs) = (Inr (), mt', e) \<and>
    gorilla_flush (fs_write fd) e =
      (Inr (), newSeriesEncoder (append_bytes fd (series_bytes (metric_series (sortPoints R) mt)) (spent 1 fs))) \<and>
    mm_name mt' = mm_name mt \<and> mm_minTimestamp mt' = mm_minTimestamp mt \<and> mm_maxTimestamp mt' = mm_maxTimestamp mt \<and>
    mm_size mt' + int (length (mm_outOfOrderPoints mt')) = int (size (metric_points mt)) \<and>
    metric_ok mt' \<and> metric_points mt' = metric_points mt"
proof -
  let ?mt' = "mt\<lparr>mm_outOfOrderPoints := sortPoints R (mm_outOfOrderPoints mt)\<rparr>"
  have "encodeAllPoints (sortPoints R) encodePoint mt (newSeriesEncoder fs) =
      (Inr (), ?mt', encodePoints (newSeriesEncoder fs) (metric_series (sortPoints R) mt))"
    by (rule encodeAllPoints_gorilla) simp
  moreover have "metric_ok ?mt'"
    using assms(1) slice_sort.set_srt [OF assms(3)] slice_sort.srt_eq_Nil [OF assms(3)]
    by (auto simp: metric_ok_def)
  moreover have "metric_points ?mt' = metric_points mt"
    using slice_sort.mset_srt [OF assms(3)] by (simp add: metric_points_def)
  moreover have "mm_size ?mt' + int (length (mm_outOfOrderPoints ?mt')) = int (size (metric_points mt))"
    using assms(1) slice_sort.length_srt [OF assms(3)] by (simp add: metric_ok_def metric_points_def)
  ultimately show ?thesis
    using gorilla_flush_series [where wr = "fs_write fd", OF fs_write_quiet [OF assms(2)]] by auto
qed

lemma flush_metrics_prefix:
  assumes "distinct names" "set names \<subseteq> fst ` set (mp_metrics m)" "metrics_ok (mp_metrics m)" "quiet (2 * length names) fs"
    "fs_inodes fs fd = Bytes bs" "slice_sort dp_Timestamp (sortPoints R)"
    "\<forall>n \<in> set names. n \<notin> fst ` set metrics"
    "\<forall>n \<in> set names. int (size (metric_points (metric_at (mp_metrics m) n))) < 2 ^ 63"
  shows "\<exists>al'. flush_metrics R fd (names @ rest) m (newSeriesEncoder fs) metrics =
     flush_metrics R fd rest (m\<lparr>mp_metrics := al'\<rparr>)
      (newSeriesEncoder (append_bytes fd (concat (map (metric_bytes R (mp_metrics m)) names)) (spent (2 * length names) fs)))
      (metrics @ layout R (mp_metrics m) (length bs) names) \<and>
     metrics_ok al' \<and> (\<forall>k. k \<notin> set names \<longrightarrow> map_of al' k = map_of (mp_metrics m) k)"
  using assms
proof (induction names arbitrary: m fs bs metrics)
  case Nil
  thus ?case using append_bytes_Nil [of fs fd bs] by (intro exI [of _ "mp_metrics m"]) simp
next
  case (Cons n names)
  let ?al = "mp_metrics m"
  let ?mt = "metric_at ?al n"
  have found: "map_of ?al n = Some ?mt"
    using Cons.prems(2) by (cases "map_of ?al n") (auto simp: metric_at_def map_of_eq_None_iff)
  have mt: "metric_ok ?mt" "mm_name ?mt = n" using metric_ok_metric_at Cons.prems(3) by auto
  have calls: "quiet (2 + 2 * length names) fs" using Cons.prems(4) by simp
  have q: "quiet 1 fs" "quiet 1 (spent 1 fs)" "quiet (2 * length names) (spent 2 fs)"
    by (rule quiet_less [OF calls], simp, rule quiet_spent, rule quiet_less [OF calls], simp, rule quiet_spent [OF calls])
  have two: "spent 1 (spent 1 fs) = spent 2 fs" by (simp add: numeral_2_eq_2)
  obtain mt' e where enc: "encodeAllPoints (sortPoints R) encodePoint ?mt (newSeriesEncoder (spent 1 fs)) = (Inr (), mt', e)"
    "gorilla_flush (fs_write fd) e = (Inr (), newSeriesEncoder (append_bytes fd (metric_bytes R ?al n) (spent 2 fs)))"
    "mm_name mt' = n" "mm_minTimestamp mt' = mm_minTimestamp ?mt" "mm_maxTimestamp mt' = mm_maxTimestamp ?mt"
    "mm_size mt' + int (length (mm_outOfOrderPoints mt')) = int (size (metric_points ?mt))" "metric_ok mt'"
    using encode_metric [OF mt(1) q(2) Cons.prems(6), of fd, unfolded two mt(2)] unfolding metric_bytes_def by blast
  have wrap: "wrap64 (int (size (metric_points ?mt))) = int (size (metric_points ?mt))"
    using Cons.prems(8) by (intro wrap64_id) (simp add: int64_range_def)
  let ?m1 = "m\<lparr>mp_metrics := AList.update n mt' ?al\<rparr>" and ?fs1 = "append_bytes fd (metric_bytes R ?al n) (spent 2 fs)"
  let ?ms1 = "metrics @ [(n, disk_entry ?al (length bs) n)]"
  have upd: "AList.update n (disk_entry ?al (length bs) n) metrics = ?ms1"
    using Cons.prems(7) by (simp add: alist_update_new)
  have seek: "file_call fs = (Inr (), spent 1 fs)" using q(1) by (simp add: file_call_def syscall_quiet)
  have len: "length (file_bytes (spent 1 fs) fd) = length bs" using Cons.prems(5) by (simp add: file_bytes_def)
  have step: "flush_metrics R fd ((n # names) @ rest) m (newSeriesEncoder fs) metrics =
      flush_metrics R fd (names @ rest) ?m1 (newSeriesEncoder ?fs1) ?ms1"
    using found seek enc wrap len upd
    by (simp add: Let_def disk_entry_def)
  have same: "metric_at (AList.update n mt' ?al) k = metric_at ?al k" if "k \<in> set names" for k
    using that Cons.prems(1) by auto
  have names_eq: "map (metric_bytes R (mp_metrics ?m1)) names = map (metric_bytes R ?al) names"
    using same by (simp add: metric_bytes_def)
  have layout_eq: "layout R (mp_metrics ?m1) off ks = layout R ?al off ks" if "set ks \<subseteq> set names" for off ks
    using that Cons.prems(1)
    by (induction ks arbitrary: off) (auto simp: disk_entry_def metric_bytes_def)
  obtain al' where al': "flush_metrics R fd (names @ rest) ?m1 (newSeriesEncoder ?fs1) ?ms1 =
     flush_metrics R fd rest (?m1\<lparr>mp_metrics := al'\<rparr>)
      (newSeriesEncoder (append_bytes fd (concat (map (metric_bytes R (mp_metrics ?m1)) names)) (spent (2 * length names) ?fs1)))
      (?ms1 @ layout R (mp_metrics ?m1) (length (bs @ metric_bytes R ?al n)) names)"
    "metrics_ok al'" "\<forall>k. k \<notin> set names \<longrightarrow> map_of al' k = map_of (mp_metrics ?m1) k"
  proof -
    have "distinct names" "set names \<subseteq> fst ` set (mp_metrics ?m1)" "metrics_ok (mp_metrics ?m1)"
      "quiet (2 * length names) ?fs1" "fs_inodes ?fs1 fd = Bytes (bs @ metric_bytes R ?al n)"
      "\<forall>k \<in> set names. k \<notin> fst ` set ?ms1"
      "\<forall>k \<in> set names. int (size (metric_points (metric_at (mp_metrics ?m1) k))) < 2 ^ 63"
      using Cons.prems(1,2,5,7,8) metrics_ok_update [OF Cons.prems(3) enc(7,3)] same q(3)
      by (auto simp: dom_update append_bytes_def file_bytes_def quiet_def)
    from Cons.IH [OF this(1-5) Cons.prems(6) this(6,7)] show ?thesis using that by blast
  qed
  show ?case unfolding step al'(1) names_eq layout_eq [OF subset_refl]
    by (intro exI [of _ al']) (use al'(2,3) in \<open>simp add: update_conv'\<close>)
qed

lemma flush_metrics_eq:
  assumes "distinct names" "set names \<subseteq> fst ` set (mp_metrics m)" "metrics_ok (mp_metrics m)" "quiet (2 * length names) fs"
    "fs_inodes fs fd = Bytes bs" "slice_sort dp_Timestamp (sortPoints R)"
    "\<forall>n \<in> set names. int (size (metric_points (metric_at (mp_metrics m) n))) < 2 ^ 63"
  shows "\<exists>al'. flush_metrics R fd names m (newSeriesEncoder fs) [] =
     (m\<lparr>mp_metrics := al'\<rparr>,
      newSeriesEncoder (append_bytes fd (concat (map (metric_bytes R (mp_metrics m)) names)) (spent (2 * length names) fs)),
      layout R (mp_metrics m) (length bs) names)"
  using flush_metrics_prefix [OF assms(1-6) _ assms(7), of "[]" "[]"] by auto

section \<open>Opening what was written\<close>

abbreviation visited :: "Runtime \<Rightarrow> memoryPartition \<Rightarrow> string list" where
  "visited R m \<equiv> rangeNames R (map fst (mp_metrics m))"

definition data_bytes :: "Runtime \<Rightarrow> memoryPartition \<Rightarrow> byte list" where
  "data_bytes R m = concat (map (metric_bytes R (mp_metrics m)) (visited R m))"

definition disk_meta :: "Runtime \<Rightarrow> Time \<Rightarrow> memoryPartition \<Rightarrow> meta" where
  "disk_meta R now m = \<lparr>meta_MinTimestamp = mp_minT m, meta_MaxTimestamp = mp_maxT m,
     meta_NumDataPoints = mp_numPoints m, meta_Metrics = layout R (mp_metrics m) 0 (visited R m),
     meta_CreatedAt = now\<rparr>"

definition flushable :: "Runtime \<Rightarrow> Time \<Rightarrow> memoryPartition \<Rightarrow> bool" where
  "flushable R now m \<longleftrightarrow> runtime_ok R \<and> mp_ok m \<and> int (size (mp_points m)) < 2 ^ 45 \<and> 0 \<le> now \<and> now < 2 ^ 63"

lemma visited_props:
  assumes "flushable R now m"
  shows "distinct (visited R m)" "set (visited R m) = fst ` set (mp_metrics m)"
proof -
  have eq: "mset (visited R m) = mset (map fst (mp_metrics m))"
    using assms by (simp add: flushable_def runtime_ok_def)
  show "distinct (visited R m)"
    unfolding mset_eq_imp_distinct_iff [OF eq] using assms by (simp add: flushable_def mp_ok_def metrics_ok_def)
  show "set (visited R m) = fst ` set (mp_metrics m)" using mset_eq_setD [OF eq] by simp
qed

lemma size_metric_at_le: "size (metric_points (metric_at al n)) \<le> size (points_of al)"
  using size_metric_le by (cases "map_of al n") (auto simp: metric_at_def)

lemma storage_flush_writes:
  assumes ok: "flushable R now m" and dir: "can_create dir fs" and mk: "MkdirAll dir fs = (Inr (), fs1)"
  shows "\<exists>m' fs'. storage_flush R now dir m fs = (Inr (), m', fs') \<and> fs_faults fs' = [] \<and>
    fs_entries fs' = fs_entries fs1 @ [(dir @ [dataFileName], File (fs_next fs)), (dir @ [metaFileName], File (fs_next fs + 1))] \<and>
    fs_next fs' = fs_next fs + 2 \<and> fs_inodes fs' (fs_next fs) = Bytes (data_bytes R m) \<and>
    fs_inodes fs' (fs_next fs + 1) = Json (json_meta (disk_meta R now m))"
proof -
  have fs1: "lookup fs1 dir = Some Dir" "fs_faults fs1 = []" "\<And>n. lookup fs1 (dir @ [n]) = None" "fs_next fs1 = fs_next fs"
    using MkdirAll_can_create [OF dir] mk by auto
  let ?i = "fs_next fs"
  let ?fs2 = "(set_entry (dir @ [dataFileName]) (File ?i) fs1)
    \<lparr>fs_inodes := (fs_inodes fs1)(?i := Bytes []), fs_next := ?i + 1\<rparr>"
  have create: "Create (dir @ [dataFileName]) fs1 = (Inr ?i, ?fs2)"
    using open_new [OF fs1(2,1,3)] fs1(4) by (simp add: Create_def)
  have inv: "metrics_ok (mp_metrics m)" "slice_sort dp_Timestamp (sortPoints R)"
    "int (size (mp_points m)) < 2 ^ 45"
    using ok by (simp_all add: flushable_def mp_ok_def runtime_ok_def)
  have "int (size (metric_points (metric_at (mp_metrics m) n))) < 2 ^ 63" for n
    using size_metric_at_le [of "mp_metrics m" n] inv(3) by simp
  with inv(1,2) obtain al where
    "flush_metrics R ?i (visited R m) m (newSeriesEncoder ?fs2) [] =
      (m\<lparr>mp_metrics := al\<rparr>, newSeriesEncoder (append_bytes ?i (data_bytes R m) ?fs2),
       layout R (mp_metrics m) 0 (visited R m))"
    using flush_metrics_eq [of "visited R m" m ?fs2 ?i "[]" R] visited_props [OF ok] fs1(2)
    unfolding data_bytes_def by auto
  note loop = this
  let ?fs3 = "append_bytes ?i (data_bytes R m) ?fs2" and ?j = "?i + 1"
  have neq: "dataFileName \<noteq> metaFileName" by (simp add: dataFileName_def metaFileName_def)
  have fs3: "fs_faults ?fs3 = []" "lookup ?fs3 dir = Some Dir" "lookup ?fs3 (dir @ [metaFileName]) = None"
    "fs_inodes ?fs3 ?i = Bytes (data_bytes R m)" "fs_next ?fs3 = ?j"
    using fs1 neq by (auto simp: append_bytes_def lookup_set_entry file_bytes_def)
  let ?fs4 = "(set_entry (dir @ [metaFileName]) (File ?j) ?fs3)
    \<lparr>fs_inodes := (fs_inodes ?fs3)(?j := Json (json_meta (disk_meta R now m))), fs_next := ?j + 1\<rparr>"
  have "WriteFile (dir @ [metaFileName]) (disk_meta R now m) ?fs3 = (Inr (), ?fs4)"
    using open_new [OF fs3(1-3), of True] fs3(1,5)
    by (simp add: WriteFile_def Create_def next_fault_def file_Close_def)
  moreover have "marshal_ok (disk_meta R now m)" using ok by (simp add: marshal_ok_def disk_meta_def flushable_def)
  moreover have "dir \<noteq> []" using dir by (simp add: can_create_def)
  ultimately have "storage_flush R now dir m fs = (Inr (), m\<lparr>mp_metrics := al\<rparr>, ?fs4)"
    using mk create loop by (simp add: storage_flush_def mem_size_def disk_meta_def Let_def)
  moreover have "fs_faults ?fs4 = []" "fs_inodes ?fs4 ?i = Bytes (data_bytes R m)" "fs_next ?fs4 = ?i + 2"
    "fs_inodes ?fs4 ?j = Json (json_meta (disk_meta R now m))"
    using fs3 by simp_all
  moreover have "fs_entries ?fs4 = fs_entries fs1 @ [(dir @ [dataFileName], File ?i), (dir @ [metaFileName], File ?j)]"
    using set_entry_new [of "dir @ [metaFileName]" ?fs3] fs3(3) set_entry_new [of "dir @ [dataFileName]" fs1] fs1(3) by simp
  ultimately show ?thesis by blast
qed

lemma storage_flush_written:
  assumes "flushable R now m" "can_create dir fs"
  shows "\<exists>m' fs' i j. storage_flush R now dir m fs = (Inr (), m', fs') \<and> fs_faults fs' = [] \<and>
    lookup fs' dir = Some Dir \<and> lookup fs' (dir @ [dataFileName]) = Some (File i) \<and>
    lookup fs' (dir @ [metaFileName]) = Some (File j) \<and> fs_inodes fs' i = Bytes (data_bytes R m) \<and>
    fs_inodes fs' j = Json (json_meta (disk_meta R now m))"
proof -
  obtain fs1 where fs1: "MkdirAll dir fs = (Inr (), fs1)" "lookup fs1 dir = Some Dir" "\<And>n. lookup fs1 (dir @ [n]) = None"
    using MkdirAll_can_create [OF assms(2)] by blast
  obtain m' fs' where fl: "storage_flush R now dir m fs = (Inr (), m', fs')" "fs_faults fs' = []"
    "fs_entries fs' = fs_entries fs1 @ [(dir @ [dataFileName], File (fs_next fs)), (dir @ [metaFileName], File (fs_next fs + 1))]"
    "fs_inodes fs' (fs_next fs) = Bytes (data_bytes R m)" "fs_inodes fs' (fs_next fs + 1) = Json (json_meta (disk_meta R now m))"
    using storage_flush_writes [OF assms fs1(1)] by blast
  have "dir \<noteq> []" using assms(2) by (simp add: can_create_def)
  hence "lookup fs' dir = Some Dir" "lookup fs' (dir @ [dataFileName]) = Some (File (fs_next fs))"
    "lookup fs' (dir @ [metaFileName]) = Some (File (fs_next fs + 1))"
    using fs1(2) fs1(3) [of dataFileName] fs1(3) [of metaFileName] fl(3)
    by (simp_all add: lookup_def map_add_def dataFileName_def metaFileName_def)
  thus ?thesis using fl by blast
qed

lemma openDiskPartition_written:
  assumes "fs_faults fs = []" "dir \<noteq> []" "lookup fs dir = Some Dir" "lookup fs (dir @ [dataFileName]) = Some (File i)"
    "lookup fs (dir @ [metaFileName]) = Some (File j)" "fs_inodes fs i = Bytes bs" "fs_inodes fs j = Json mt"
  shows "openDiskPartition dir ret fs =
    (if bs = [] then Inl ErrNoDataPoints
     else Inr \<lparr>dk_dirPath = dir, dk_meta = mt, dk_mappedFile = bs, dk_retention = ret\<rparr>, fs)"
  using assms
  by (simp add: openDiskPartition_def os_Stat_def OpenRead_def open_found file_call_def file_bytes_def json_Decode_def)

section \<open>Finding the metrics\<close>

lemma map_of_foldl_update:
  "distinct (map fst ms) \<Longrightarrow> (\<forall>k \<in> fst ` set ms. k \<notin> fst ` set al) \<Longrightarrow>
   map_of (foldl (\<lambda>al (k, v). AList.update k (f v) al) al ms) n
     = (case map_of ms n of Some v \<Rightarrow> Some (f v) | None \<Rightarrow> map_of al n)"
proof (induction ms arbitrary: al)
  case (Cons kv ms)
  obtain k v where kv: "kv = (k, v)" by fastforce
  have "map_of (foldl (\<lambda>al (k, v). AList.update k (f v) al) (AList.update k (f v) al) ms) n
      = (case map_of ms n of Some v \<Rightarrow> Some (f v) | None \<Rightarrow> map_of (AList.update k (f v) al) n)"
    by (rule Cons.IH) (use Cons.prems kv in \<open>auto simp: dom_update\<close>)
  moreover have "map_of ms k = None" using Cons.prems(1) kv by (simp add: map_of_eq_None_iff)
  ultimately show ?case using kv by (cases "n = k") (simp_all split: option.splits)
qed simp

lemma json_metrics_valid:
  assumes "distinct (map fst ms)" "\<forall>(k, dm) \<in> set ms. valid_utf8 k \<and> dm_Name dm = k"
  shows "map_of (json_metrics ms) n = map_of ms n"
proof -
  let ?s = "sort_key fst ms"
  have d: "distinct (map fst ?s)" using assms(1) stable_sort.distinct_keys_srt [of fst ms] by simp
  have "json_metrics ms = foldl (\<lambda>al (k, v). AList.update k (id v) al) [] ?s"
    unfolding json_metrics_def by (rule foldl_cong) (use assms(2) in auto)
  hence "map_of (json_metrics ms) n = map_of ?s n"
    using map_of_foldl_update [OF d, of "[]" id n] by (simp split: option.splits)
  also have "\<dots> = map_of ms n"
    using map_of_inject_set [OF d assms(1)] by simp
  finally show ?thesis .
qed

lemma json_metrics_names: "\<forall>k \<in> fst ` set (json_metrics ms). valid_utf8 k"
proof -
  have "\<forall>k \<in> fst ` set (foldl (\<lambda>al (k, dm). AList.update (to_utf8 k) (dm\<lparr>dm_Name := to_utf8 (dm_Name dm)\<rparr>) al) al xs). valid_utf8 k"
    if "\<forall>k \<in> fst ` set al. valid_utf8 k" for al :: "(string \<times> diskMetric) list" and xs
    using that
  proof (induction xs arbitrary: al)
    case (Cons x xs)
    obtain k dm where x: "x = (k, dm)" by fastforce
    have "\<forall>j \<in> fst ` set (AList.update (to_utf8 k) (dm\<lparr>dm_Name := to_utf8 (dm_Name dm)\<rparr>) al). valid_utf8 j"
      unfolding dom_update using Cons.prems valid_to_utf8 by simp
    from Cons.IH [OF this] show ?case using x by simp
  qed simp
  from this [of "[]" "sort_key fst ms"] show ?thesis by (simp add: json_metrics_def)
qed

lemma layout_valid:
  assumes "\<forall>n \<in> set ns. valid_utf8 n"
  shows "\<forall>(k, dm) \<in> set (layout R al off ns). valid_utf8 k \<and> dm_Name dm = k"
  using assms by (induction ns arbitrary: off) (auto simp: disk_entry_def)

lemma points_of_metric:
  "metrics_ok al \<Longrightarrow> (n, p) \<in># points_of al \<Longrightarrow>
   n \<in> fst ` set al \<and> p \<in># metric_points (metric_at al n)"
  by (induction al) (force simp: metric_at_def image_iff split: if_splits)+

lemma metric_points_in: "map_of al n = Some mt \<Longrightarrow> p \<in># metric_points mt \<Longrightarrow> (n, p) \<in># points_of al"
  by (induction al) (auto split: if_splits)

definition written_partition :: "Runtime \<Rightarrow> Time \<Rightarrow> path \<Rightarrow> Duration \<Rightarrow> memoryPartition \<Rightarrow> diskPartition" where
  "written_partition R now dir ret m = \<lparr>dk_dirPath = dir, dk_meta = json_meta (disk_meta R now m),
     dk_mappedFile = data_bytes R m, dk_retention = ret\<rparr>"

lemma stored_series:
  assumes ok: "flushable R now m" and pts: "\<forall>(n, p) \<in># mp_points m. point_ok p \<and> dp_Timestamp p \<noteq> 0"
    and name: "name \<in> fst ` set (mp_metrics m)"
  shows "series_ok (newSeriesEncoder ([] :: byte list)) (metric_series (sortPoints R) (metric_at (mp_metrics m) name))"
    (is "series_ok _ ?ps")
proof -
  let ?mt = "metric_at (mp_metrics m) name"
  obtain v where "map_of (mp_metrics m) name = Some v" using name by (metis map_of_eq_None_iff not_None_eq)
  hence mt: "map_of (mp_metrics m) name = Some ?mt" by (simp add: metric_at_def)
  have mset: "mset ?ps = metric_points ?mt" using ok by (simp add: flushable_def runtime_ok_def)
  have pt: "point_ok p \<and> dp_Timestamp p \<noteq> 0" if "p \<in> set ?ps" for p
  proof -
    have "p \<in># metric_points ?mt" using that unfolding mset [symmetric] set_mset_mset .
    from bspec [OF pts metric_points_in [OF mt this]] show ?thesis by simp
  qed
  show ?thesis
    by (intro series_ok_newI ballI) (rule conjunct1 [OF pt], assumption, rule conjunct2 [OF pt], erule in_set_takeD)
qed

lemma series_bytes_nonempty:
  assumes "series_ok (newSeriesEncoder ([] :: byte list)) ps" "ps \<noteq> []"
  shows "series_bytes ps \<noteq> []"
proof
  assume "series_bytes ps = []"
  hence dec: "decodePoints (length ps) (newSeriesDecoder []) = Inr ps"
    using series_roundtrip [OF assms(1), of "[]"] by simp
  obtain n where "length ps = Suc n" using assms(2) by (cases ps) auto
  moreover have "isl (fst (decodePoint (newSeriesDecoder [])))" by code_simp
  ultimately show False using dec by (auto simp: isl_def split: prod.splits)
qed

lemma data_bytes_nonempty:
  assumes ok: "flushable R now m" and pts: "\<forall>(n, p) \<in># mp_points m. point_ok p \<and> dp_Timestamp p \<noteq> 0"
    and some: "mp_points m \<noteq> {#}"
  shows "data_bytes R m \<noteq> []"
proof -
  obtain n p where np: "(n, p) \<in># mp_points m" using some by (metis multiset_nonemptyE prod.exhaust)
  let ?ps = "metric_series (sortPoints R) (metric_at (mp_metrics m) n)"
  have n: "n \<in> fst ` set (mp_metrics m)" and p: "p \<in># metric_points (metric_at (mp_metrics m) n)"
    using points_of_metric [OF _ np] ok by (simp_all add: flushable_def mp_ok_def)
  have "mset ?ps = metric_points (metric_at (mp_metrics m) n)" using ok by (simp add: flushable_def runtime_ok_def)
  hence "?ps \<noteq> []" using p by auto
  hence "metric_bytes R (mp_metrics m) n \<noteq> []"
    using series_bytes_nonempty [OF stored_series [OF ok pts n]] by (simp add: metric_bytes_def)
  thus ?thesis using n visited_props [OF ok] by (auto simp: data_bytes_def)
qed

text \<open>
  The entry of a series in a data file with the series \<open>ns\<close>, and what its bytes decode to, with any
  bytes behind the series.
\<close>

lemma laid_out_entry:
  assumes ok: "flushable R now m" and utf8: "\<forall>n \<in> set ns. valid_utf8 n"
    and pts: "\<forall>(n, p) \<in># mp_points m. point_ok p \<and> dp_Timestamp p \<noteq> 0"
    and ns: "distinct ns" "set ns \<subseteq> fst ` set (mp_metrics m)" and name: "name \<in> set ns"
  shows "\<exists>dm. map_of (json_metrics (layout R (mp_metrics m) 0 ns)) name = Some dm \<and> 0 \<le> dm_Offset dm \<and>
    0 \<le> dm_NumDataPoints dm \<and> dm_NumDataPoints dm \<le> 2 ^ 45 \<and>
    decodePoints (nat (dm_NumDataPoints dm))
        (newSeriesDecoder (drop (nat (dm_Offset dm)) (concat (map (metric_bytes R (mp_metrics m)) ns) @ extra))) =
      Inr (metric_series (sortPoints R) (metric_at (mp_metrics m) name))"
proof -
  let ?al = "mp_metrics m"
  let ?mt = "metric_at ?al name" and ?ps = "metric_series (sortPoints R) (metric_at ?al name)"
  have inv: "slice_sort dp_Timestamp (sortPoints R)" "int (size (mp_points m)) < 2 ^ 45"
    using ok by (simp_all add: flushable_def runtime_ok_def)
  have "name \<in> fst ` set (layout R ?al 0 ns)" using name layout_names [of R ?al 0 ns] by (metis set_map)
  then obtain dm where "(name, dm) \<in> set (layout R ?al 0 ns)" by auto
  moreover from layout_found [OF this] obtain us vs where sp: "ns = us @ name # vs"
    "dm = disk_entry ?al (length (concat (map (metric_bytes R ?al) us))) name" by auto
  ultimately have "map_of (layout R ?al 0 ns) name = Some dm" using ns(1) by (intro map_of_is_SomeI) simp_all
  hence found: "map_of (json_metrics (layout R ?al 0 ns)) name = Some dm"
    using json_metrics_valid [of "layout R ?al 0 ns" name] layout_valid [OF utf8, of R ?al 0] ns(1) by simp
  have mset: "mset ?ps = metric_points ?mt" using inv(1) by simp
  have len: "length ?ps = size (metric_points ?mt)" unfolding mset [symmetric] size_mset ..
  have drop: "drop (length (concat (map (metric_bytes R ?al) us))) (concat (map (metric_bytes R ?al) ns) @ extra) =
      metric_bytes R ?al name @ concat (map (metric_bytes R ?al) vs) @ extra"
    using sp(1) by simp
  have "name \<in> fst ` set ?al" using name ns(2) by blast
  hence "decodePoints (size (metric_points ?mt)) (newSeriesDecoder (metric_bytes R ?al name @ rest)) = Inr ?ps" for rest
    using series_roundtrip [OF stored_series [OF ok pts], of name rest] unfolding metric_bytes_def len by blast
  moreover have "size (metric_points ?mt) \<le> 2 ^ 45" using size_metric_at_le [of ?al name] inv(2) by simp
  ultimately show ?thesis using found drop by (intro exI [of _ dm]) (simp add: sp(2) disk_entry_def)
qed

lemma written_entry:
  assumes ok: "flushable R now m" and utf8: "\<forall>n \<in> fst ` set (mp_metrics m). valid_utf8 n"
    and pts: "\<forall>(n, p) \<in># mp_points m. point_ok p \<and> dp_Timestamp p \<noteq> 0" and name: "name \<in> fst ` set (mp_metrics m)"
  shows "\<exists>dm. map_of (meta_Metrics (dk_meta (written_partition R now dir ret m))) name = Some dm \<and> 0 \<le> dm_Offset dm \<and>
    0 \<le> dm_NumDataPoints dm \<and> dm_NumDataPoints dm \<le> 2 ^ 45 \<and>
    decodePoints (nat (dm_NumDataPoints dm)) (newSeriesDecoder (drop (nat (dm_Offset dm)) (data_bytes R m))) =
      Inr (metric_series (sortPoints R) (metric_at (mp_metrics m) name))"
  using laid_out_entry [OF ok _ pts visited_props(1) [OF ok], of name "[]"] visited_props(2) [OF ok] utf8 name
  by (simp add: written_partition_def json_meta_def disk_meta_def data_bytes_def)

lemma select_laid_out:
  assumes ok: "flushable R now m" and utf8: "\<forall>n \<in> set ns. valid_utf8 n"
    and pts: "\<forall>(n, p) \<in># mp_points m. point_ok p \<and> dp_Timestamp p \<noteq> 0"
    and ns: "distinct ns" "set ns \<subseteq> fst ` set (mp_metrics m)"
    and d: "meta_Metrics (dk_meta d) = json_metrics (layout R (mp_metrics m) 0 ns)"
      "dk_mappedFile d = concat (map (metric_bytes R (mp_metrics m)) ns) @ extra" "\<not> dk_expired t d"
    and name: "name = metricName (sortLabels R) metric labels" "name \<in> set ns"
  shows "dk_selectDataPoints R t metric labels start end d =
    Inr (filter (\<lambda>p. start \<le> dp_Timestamp p \<and> dp_Timestamp p < end)
           (metric_series (sortPoints R) (metric_at (mp_metrics m) name)))"
proof -
  obtain dm where dm: "map_of (meta_Metrics (dk_meta d)) name = Some dm"
    "0 \<le> dm_Offset dm" "0 \<le> dm_NumDataPoints dm" "dm_NumDataPoints dm \<le> 2 ^ 45"
    "decodePoints (nat (dm_NumDataPoints dm)) (newSeriesDecoder (drop (nat (dm_Offset dm)) (dk_mappedFile d))) =
      Inr (metric_series (sortPoints R) (metric_at (mp_metrics m) name))"
    unfolding d(1,2) using laid_out_entry [OF ok utf8 pts ns name(2), of extra] by blast
  have "sorted (map dp_Timestamp (metric_series (sortPoints R) (metric_at (mp_metrics m) name)))"
    using ok metric_ok_metric_at by (intro sorted_metric_series) (auto simp: flushable_def mp_ok_def runtime_ok_def)
  thus ?thesis using dk_points_eq [OF dm(5)] d(3) dm(1-4)
    unfolding dk_selectDataPoints_def name(1) [symmetric] by simp
qed

lemma select_written:
  assumes ok: "flushable R now m" and utf8: "\<forall>n \<in> fst ` set (mp_metrics m). valid_utf8 n"
    and pts: "\<forall>(n, p) \<in># mp_points m. point_ok p \<and> dp_Timestamp p \<noteq> 0"
    and fresh: "\<not> dk_expired t (written_partition R now dir ret m)"
    and name: "name = metricName (sortLabels R) metric labels" "name \<in> fst ` set (mp_metrics m)"
  shows "dk_selectDataPoints R t metric labels start end (written_partition R now dir ret m) =
    Inr (filter (\<lambda>p. start \<le> dp_Timestamp p \<and> dp_Timestamp p < end)
           (metric_series (sortPoints R) (metric_at (mp_metrics m) name)))"
  by (rule select_laid_out [OF ok _ pts visited_props(1) [OF ok], where extra = "[]"])
     (use visited_props(2) [OF ok] utf8 fresh name in
       \<open>simp_all add: written_partition_def json_meta_def disk_meta_def data_bytes_def\<close>)

section \<open>What a flush leaves in memory\<close>

text \<open>Whatever fails, the partition keeps its points and its invariant; late points get sorted.\<close>

definition late_sorted :: "Runtime \<Rightarrow> memoryMetric \<Rightarrow> memoryMetric" where
  "late_sorted R mt = mt\<lparr>mm_outOfOrderPoints := sortPoints R (mm_outOfOrderPoints mt)\<rparr>"

lemma late_sorted_ok:
  assumes "slice_sort dp_Timestamp (sortPoints R)" "metric_ok mt"
  shows "metric_ok (late_sorted R mt)" "metric_points (late_sorted R mt) = metric_points mt"
    "mm_name (late_sorted R mt) = mm_name mt" "mm_points (late_sorted R mt) = mm_points mt"
  using assms slice_sort.set_srt [OF assms(1)] slice_sort.srt_eq_Nil [OF assms(1)] slice_sort.mset_srt [OF assms(1)]
  by (auto simp: metric_ok_def metric_points_def late_sorted_def)

lemma points_of_update_same:
  "distinct (map fst al) \<Longrightarrow> map_of al n = Some mt \<Longrightarrow> metric_points mt' = metric_points mt \<Longrightarrow>
   points_of (AList.update n mt' al) = points_of al"
  by (induction al) (auto split: if_splits)

lemma flush_metrics_keeps:
  assumes "slice_sort dp_Timestamp (sortPoints R)" "metrics_ok (mp_metrics m)"
    "flush_metrics R fd names m e metrics = (m', e', metrics')"
  shows "m' = m\<lparr>mp_metrics := mp_metrics m'\<rparr> \<and> metrics_ok (mp_metrics m') \<and> mp_points m' = mp_points m \<and>
    (\<forall>n. mm_points (metric_at (mp_metrics m') n) = mm_points (metric_at (mp_metrics m) n))"
  using assms(2,3)
proof (induction names arbitrary: m e metrics)
  case (Cons name names)
  show ?case
  proof (cases "map_of (mp_metrics m) name")
    case None
    thus ?thesis using Cons.prems by simp
  next
    case (Some mt)
    have mt: "metric_ok mt" "mm_name mt = name" using metrics_ok_lookup [OF Cons.prems(1) Some] by auto
    note srt = late_sorted_ok [OF assms(1) mt(1)]
    let ?m = "m\<lparr>mp_metrics := AList.update name (late_sorted R mt) (mp_metrics m)\<rparr>"
    have enc: "\<exists>r e'. encodeAllPoints (sortPoints R) encodePoint mt e = (r, late_sorted R mt, e')" for e
      by (auto simp: encodeAllPoints_def late_sorted_def split: prod.splits)
    have m: "metrics_ok (mp_metrics ?m)" "mp_points ?m = mp_points m"
      "mm_points (metric_at (mp_metrics ?m) n) = mm_points (metric_at (mp_metrics m) n)" for n
      using metrics_ok_update [OF Cons.prems(1) srt(1)] mt(2) srt(2-4) Cons.prems(1) Some
      by (auto simp: points_of_update_same [OF _ Some] metrics_ok_def) (simp add: metric_at_def)
    obtain rc fs where call: "file_call (e_w e) = (rc, fs)" by fastforce
    obtain r e1 where e1: "encodeAllPoints (sortPoints R) encodePoint mt (e\<lparr>e_w := fs\<rparr>) = (r, late_sorted R mt, e1)"
      using enc by blast
    obtain r' e2 where e2: "gorilla_flush (fs_write fd) e1 = (r', e2)" by fastforce
    consider "m' = m" | "m' = ?m" | e metrics where "flush_metrics R fd names ?m e metrics = (m', e', metrics')"
      using Cons.prems(2) Some call e1 e2
      by (simp add: Let_def split: sum.splits if_splits)
    thus ?thesis
    proof cases
      case 1
      thus ?thesis using Cons.prems(1) by simp
    next
      case 2
      thus ?thesis using m by simp
    next
      case 3
      thus ?thesis using Cons.IH [OF m(1)] m by fastforce
    qed
  qed
qed simp

lemma storage_flush_keeps:
  assumes "runtime_ok R" "mp_ok m" "storage_flush R now dir m fs = (res, m', fs')"
  shows "mp_ok m' \<and> mp_points m' = mp_points m \<and> m' = m\<lparr>mp_metrics := mp_metrics m'\<rparr> \<and>
    (\<forall>n. mm_points (metric_at (mp_metrics m') n) = mm_points (metric_at (mp_metrics m) n))"
proof -
  have srt: "slice_sort dp_Timestamp (sortPoints R)" "metrics_ok (mp_metrics m)"
    using assms(1,2) by (simp_all add: runtime_ok_def mp_ok_def)
  consider "m' = m" | f e e' metrics where
      "flush_metrics R f (visited R m) m (e :: meta filesys gorillaEncoder) [] = (m', e', metrics)"
    using assms(3) by (auto simp: storage_flush_def Let_def split: prod.splits sum.splits if_splits)
  hence *: "m' = m\<lparr>mp_metrics := mp_metrics m'\<rparr> \<and> metrics_ok (mp_metrics m') \<and> mp_points m' = mp_points m \<and>
    (\<forall>n. mm_points (metric_at (mp_metrics m') n) = mm_points (metric_at (mp_metrics m) n))"
    by cases (use srt(2) in simp, erule flush_metrics_keeps [OF srt])
  hence "mp_numPoints m' = mp_numPoints m" "mp_minT m' = mp_minT m" "mp_maxT m' = mp_maxT m" "mp_once m' = mp_once m"
    by (metis memoryPartition.ext_inject memoryPartition.surjective memoryPartition.update_convs(4))+
  thus ?thesis using * assms(2) by (simp add: mp_ok_def)
qed

text \<open>
  Whatever else failed, a partition that opens after a flush that succeeded has the range and the
  number of points.
\<close>

lemma open_with_file:
  assumes "open_with c t p fs = (Inr i, fs')" "p \<noteq> []"
  shows "lookup fs' p = Some (File i)"
  using assms
  by (auto simp: open_with_def syscall_def new_file_def lookup_set_entry Let_def
      split: prod.splits fault.splits if_splits option.splits entry.splits)

lemma syscall_lookup:
  assumes "syscall fs f = (r, fs')" "\<And>fs r fs'. f fs = (r, fs') \<Longrightarrow> fs_entries fs' = fs_entries fs \<and> fs_inodes fs' = fs_inodes fs"
  shows "lookup fs' = lookup fs" "fs_inodes fs' = fs_inodes fs"
proof -
  have "fs_entries fs' = fs_entries fs \<and> fs_inodes fs' = fs_inodes fs"
  proof (cases "fs_faults fs")
    case Nil
    thus ?thesis using assms by (auto simp: syscall_def next_fault_def)
  next
    case (Cons x xs)
    thus ?thesis using assms(1) assms(2) [of "fs\<lparr>fs_faults := xs\<rparr>"] by (cases x) (auto simp: syscall_def next_fault_def)
  qed
  thus "lookup fs' = lookup fs" "fs_inodes fs' = fs_inodes fs" by (auto simp: lookup_def)
qed

lemma call_lookup:
  assumes "file_call fs = (r, fs')"
  shows "lookup fs' = lookup fs" "fs_inodes fs' = fs_inodes fs"
  using syscall_lookup [OF assms [unfolded file_call_def]] by auto

lemma stat_lookup:
  assumes "os_Stat p fs = (r, fs')"
  shows "lookup fs' = lookup fs" "fs_inodes fs' = fs_inodes fs"
  using syscall_lookup [OF assms [unfolded os_Stat_def]] by auto

lemma close_lookup:
  assumes "file_Close fs = (r, fs')"
  shows "lookup fs' = lookup fs" "fs_inodes fs' = fs_inodes fs"
  using syscall_lookup [OF assms [unfolded file_Close_def]] by auto

lemma OpenRead_lookup:
  assumes "OpenRead p fs = (r, fs')"
  shows "lookup fs' = lookup fs" "fs_inodes fs' = fs_inodes fs"
  by (rule syscall_lookup(1) [OF assms [unfolded OpenRead_def open_with_def]],
      auto split: if_splits option.splits entry.splits)
     (rule syscall_lookup(2) [OF assms [unfolded OpenRead_def open_with_def]],
      auto split: if_splits option.splits entry.splits)

lemma WriteFile_contents:
  assumes "WriteFile p b fs = (Inr (), fs')" "p \<noteq> []"
  shows "\<exists>j. lookup fs' p = Some (File j) \<and> fs_inodes fs' j = Json (json_meta b)"
proof -
  obtain j fs1 fs2 where w: "Create p fs = (Inr j, fs1)" "next_fault fs1 = (NoFault, fs2)"
    "file_Close (fs2\<lparr>fs_inodes := (fs_inodes fs2)(j := Json (json_meta b))\<rparr>) = (Inr (), fs')"
    using assms(1) by (auto simp: WriteFile_def split: prod.splits sum.splits fault.splits)
  have "lookup fs2 = lookup fs1" using w(2) by (auto simp: next_fault_def lookup_def split: list.splits)
  moreover have "lookup fs1 p = Some (File j)" using open_with_file [OF w(1) [unfolded Create_def] assms(2)] .
  moreover have "lookup fs' p = lookup fs2 p" "fs_inodes fs' j = Json (json_meta b)"
    using close_lookup [OF w(3)] by simp_all
  ultimately show ?thesis by (intro exI [of _ j]) simp
qed

lemma storage_flush_meta:
  assumes "storage_flush R now dir m fs = (Inr (), m', fs')"
  shows "\<exists>j b. lookup fs' (dir @ [metaFileName]) = Some (File j) \<and> fs_inodes fs' j = Json (json_meta b) \<and>
    meta_MinTimestamp b = mp_minT m' \<and> meta_MaxTimestamp b = mp_maxT m' \<and> meta_NumDataPoints b = mem_size m' \<and>
    meta_CreatedAt b = now"
proof -
  obtain fs1 metrics where w: "WriteFile (dir @ [metaFileName]) \<lparr>meta_MinTimestamp = mp_minT m', meta_MaxTimestamp = mp_maxT m',
      meta_NumDataPoints = mem_size m', meta_Metrics = metrics, meta_CreatedAt = now\<rparr> fs1 = (Inr (), fs')"
    using assms by (auto simp: storage_flush_def Let_def split: prod.splits sum.splits if_splits)
  from WriteFile_contents [OF w] obtain j where "lookup fs' (dir @ [metaFileName]) = Some (File j)"
    "fs_inodes fs' j = Json (json_meta \<lparr>meta_MinTimestamp = mp_minT m', meta_MaxTimestamp = mp_maxT m',
      meta_NumDataPoints = mem_size m', meta_Metrics = metrics, meta_CreatedAt = now\<rparr>)" by auto
  thus ?thesis by (intro exI [of _ j] exI [of _ "\<lparr>meta_MinTimestamp = mp_minT m', meta_MaxTimestamp = mp_maxT m',
      meta_NumDataPoints = mem_size m', meta_Metrics = metrics, meta_CreatedAt = now\<rparr>"]) simp
qed

lemma openDiskPartition_meta:
  assumes "openDiskPartition dir ret fs = (Inr d, fs')" "lookup fs (dir @ [metaFileName]) = Some (File j)"
    "fs_inodes fs j = Json b"
  shows "dk_meta d = b"
proof -
  obtain st fs1 f fs2 u fs3 u' fs4 mf fs5 where o: "os_Stat (dir @ [metaFileName]) fs = (st, fs1)"
    "OpenRead (dir @ [dataFileName]) fs1 = (Inr f, fs2)" "file_call fs2 = (u, fs3)" "file_call fs3 = (u', fs4)"
    "OpenRead (dir @ [metaFileName]) fs4 = (Inr mf, fs5)" "json_Decode (fs_inodes fs5 mf) = Inr (dk_meta d)"
    using assms(1) by (auto simp: openDiskPartition_def Let_def split: prod.splits sum.splits if_splits)
  have same: "lookup fs5 = lookup fs" "fs_inodes fs5 = fs_inodes fs"
    using stat_lookup [OF o(1)] OpenRead_lookup [OF o(2)] call_lookup [OF o(3)] call_lookup [OF o(4)] OpenRead_lookup [OF o(5)]
    by simp_all
  have "lookup fs5 (dir @ [metaFileName]) = Some (File mf)"
    using open_with_file [OF o(5) [unfolded OpenRead_def]] by simp
  thus ?thesis using o(6) same assms(2,3) by (simp add: json_Decode_def)
qed

lemma flushed_partition_meta:
  assumes "storage_flush R now dir m fs = (Inr (), m', fs1)" "openDiskPartition dir ret fs1 = (Inr d, fs2)"
  shows "dk_minTimestamp d = mp_minT m' \<and> dk_maxTimestamp d = mp_maxT m' \<and> dk_size d = mem_size m'"
  using storage_flush_meta [OF assms(1)] openDiskPartition_meta [OF assms(2)]
  by (auto simp: dk_minTimestamp_def dk_maxTimestamp_def dk_size_def json_meta_def)

section \<open>Properties\<close>

text \<open>
  C5: Writing a memory partition to disk loses nothing and changes nothing but the place: with a
  working file system the flush succeeds, the directory opens as a disk partition with the same
  time range and number of points, which expires by the time of the flush, and selecting any stored series whose name is valid UTF-8 (and
  all of whose timestamps are not zero) returns exactly its points in the range, in order of time,
  including those that had arrived out of order.
\<close>

theorem flush_then_select:
  assumes "flushable R now m" and "can_create dir fs"
    and "\<forall>n \<in> fst ` set (mp_metrics m). valid_utf8 n"
    and "\<forall>(n, p) \<in># mp_points m. point_ok p \<and> dp_Timestamp p \<noteq> 0" and "mp_points m \<noteq> {#}"
  shows "\<exists>m' fs' d. storage_flush R now dir m fs = (Inr (), m', fs') \<and>
    openDiskPartition dir ret fs' = (Inr d, fs') \<and>
    dk_minTimestamp d = mp_minT m \<and> dk_maxTimestamp d = mp_maxT m \<and> dk_size d = mem_size m \<and>
    (\<forall>t. dk_expired t d \<longleftrightarrow> ret < time_Since t now) \<and>
    (\<forall>t metric labels start end.
       \<not> dk_expired t d \<and> metricName (sortLabels R) metric labels \<in> fst ` set (mp_metrics m) \<longrightarrow>
       (\<exists>ps. dk_selectDataPoints R t metric labels start end d =
              Inr (filter (\<lambda>p. start \<le> dp_Timestamp p \<and> dp_Timestamp p < end) ps) \<and>
            sorted (map dp_Timestamp ps) \<and>
            mset ps = metric_points (metric_at (mp_metrics m) (metricName (sortLabels R) metric labels))))"
proof -
  obtain m' fs' i j where fl: "storage_flush R now dir m fs = (Inr (), m', fs')" "fs_faults fs' = []"
    "lookup fs' dir = Some Dir" "lookup fs' (dir @ [dataFileName]) = Some (File i)"
    "lookup fs' (dir @ [metaFileName]) = Some (File j)" "fs_inodes fs' i = Bytes (data_bytes R m)"
    "fs_inodes fs' j = Json (json_meta (disk_meta R now m))"
    using storage_flush_written [OF assms(1,2)] by blast
  have dir: "dir \<noteq> []" using assms(2) by (simp add: can_create_def)
  let ?d = "written_partition R now dir ret m"
  have op: "openDiskPartition dir ret fs' = (Inr ?d, fs')"
    using openDiskPartition_written [OF fl(2) dir fl(3-7), of ret] data_bytes_nonempty [OF assms(1,4,5)] by (simp add: written_partition_def)
  have inv: "slice_sort dp_Timestamp (sortPoints R)" "metrics_ok (mp_metrics m)"
    using assms(1) by (simp_all add: flushable_def mp_ok_def runtime_ok_def)
  have sel: "\<exists>ps. dk_selectDataPoints R t metric labels start end ?d =
              Inr (filter (\<lambda>p. start \<le> dp_Timestamp p \<and> dp_Timestamp p < end) ps) \<and>
            sorted (map dp_Timestamp ps) \<and>
            mset ps = metric_points (metric_at (mp_metrics m) (metricName (sortLabels R) metric labels))"
    if "\<not> dk_expired t ?d" "metricName (sortLabels R) metric labels \<in> fst ` set (mp_metrics m)"
    for t metric labels start "end"
    using select_written [OF assms(1,3,4) that(1) refl that(2)] inv
      sorted_metric_series [OF inv(1)] metric_ok_metric_at [OF inv(2)] by auto
  show ?thesis
    by (rule exI [of _ m'], rule exI [of _ fs'], rule exI [of _ ?d])
       (use fl(1) op sel in \<open>simp add: dk_expired_def dk_minTimestamp_def dk_maxTimestamp_def dk_size_def written_partition_def
          json_meta_def disk_meta_def mem_size_def\<close>)
qed

definition sample_partition :: memoryPartition where
  "sample_partition = \<lparr>mp_numPoints = 3, mp_minT = 3, mp_maxT = 9, mp_metrics =
     [(''a'', \<lparr>mm_name = ''a'', mm_size = 1, mm_minTimestamp = 9, mm_maxTimestamp = 9, mm_points = [point 9 1],
        mm_outOfOrderPoints = [point 7 2]\<rparr>),
      (''b'', \<lparr>mm_name = ''b'', mm_size = 1, mm_minTimestamp = 3, mm_maxTimestamp = 3, mm_points = [point 3 5],
        mm_outOfOrderPoints = []\<rparr>)],
     mp_partitionDuration = 3600, mp_timestampPrecision = Seconds, mp_once = True\<rparr>"

lemma sample_partition_ok:
  "flushable stable_runtime 5 sample_partition" "can_create [''p''] (empty_fs :: meta filesys)"
  by (simp_all add: flushable_def sample_partition_def mp_ok_def metric_ok_def metric_points_def can_create_def
      empty_fs_def lookup_def prefix_Cons)

theorem flush_then_select_witness:
  "\<exists>m' fs' d ps. storage_flush stable_runtime 5 [''p''] sample_partition empty_fs = (Inr (), m', fs') \<and>
    openDiskPartition [''p''] 100 fs' = (Inr d, fs') \<and> dk_size d = 3 \<and>
    dk_selectDataPoints stable_runtime 50 ''a'' [] 1 20 d = Inr (filter (\<lambda>p. 1 \<le> dp_Timestamp p \<and> dp_Timestamp p < 20) ps) \<and>
    mset ps = {#point 9 1, point 7 2#}"
proof -
  have utf8: "\<forall>n \<in> fst ` set (mp_metrics sample_partition). valid_utf8 n"
    by (simp add: sample_partition_def valid_utf8_ascii)
  have pts: "\<forall>(n, p) \<in># mp_points sample_partition. point_ok p \<and> dp_Timestamp p \<noteq> 0"
    "mp_points sample_partition \<noteq> {#}"
    by (simp_all add: sample_partition_def metric_points_def point_ok_def int64_range_def)
  have name: "metricName (sortLabels stable_runtime) ''a'' [] = ''a''" by code_simp
  have mt: "''a'' \<in> fst ` set (mp_metrics sample_partition)"
    "metric_points (metric_at (mp_metrics sample_partition) ''a'') = {#point 9 1, point 7 2#}"
    "mem_size sample_partition = 3"
    by (simp_all add: sample_partition_def metric_at_def metric_points_def mem_size_def)
  have t: "\<not> 100 < time_Since 50 5" by code_simp
  obtain m' fs' d where fl: "storage_flush stable_runtime 5 [''p''] sample_partition empty_fs = (Inr (), m', fs')"
    "openDiskPartition [''p''] 100 fs' = (Inr d, fs')" "dk_size d = mem_size sample_partition"
    "\<forall>t. dk_expired t d \<longleftrightarrow> 100 < time_Since t 5"
    "\<forall>t metric labels start end.
       \<not> dk_expired t d \<and> metricName (sortLabels stable_runtime) metric labels \<in> fst ` set (mp_metrics sample_partition) \<longrightarrow>
       (\<exists>ps. dk_selectDataPoints stable_runtime t metric labels start end d =
              Inr (filter (\<lambda>p. start \<le> dp_Timestamp p \<and> dp_Timestamp p < end) ps) \<and>
            sorted (map dp_Timestamp ps) \<and>
            mset ps = metric_points (metric_at (mp_metrics sample_partition) (metricName (sortLabels stable_runtime) metric labels)))"
    using flush_then_select [OF sample_partition_ok utf8 pts, of 100] by auto
  from fl(5) [rule_format, of 50 "''a''" "[]" 1 20] obtain ps where
    "dk_selectDataPoints stable_runtime 50 ''a'' [] 1 20 d = Inr (filter (\<lambda>p. 1 \<le> dp_Timestamp p \<and> dp_Timestamp p < 20) ps)"
    "mset ps = {#point 9 1, point 7 2#}"
    using fl(4) t mt name by auto
  thus ?thesis using fl(1-3) mt(3) by (intro exI conjI) simp_all
qed

text \<open>
  C33: A series whose marshalled name is not valid UTF-8 cannot be selected any more once its
  partition is on disk: the flush reports success, but the names of the meta file have gone
  through JSON, which replaces invalid bytes. A labelled metric whose name has 128 bytes has such
  a name, since the length is part of it.
\<close>

theorem flush_loses_name:
  assumes "flushable R now m" and "can_create dir fs"
    and "\<forall>(n, p) \<in># mp_points m. point_ok p \<and> dp_Timestamp p \<noteq> 0" and "mp_points m \<noteq> {#}"
    and "\<not> valid_utf8 (metricName (sortLabels R) metric labels)"
  shows "\<exists>m' fs' d err. storage_flush R now dir m fs = (Inr (), m', fs') \<and>
    openDiskPartition dir ret fs' = (Inr d, fs') \<and> dk_size d = mem_size m \<and>
    dk_selectDataPoints R t metric labels start end d = Inl err \<and> errors_Is err ErrNoDataPoints"
proof -
  obtain m' fs' i j where fl: "storage_flush R now dir m fs = (Inr (), m', fs')" "fs_faults fs' = []"
    "lookup fs' dir = Some Dir" "lookup fs' (dir @ [dataFileName]) = Some (File i)"
    "lookup fs' (dir @ [metaFileName]) = Some (File j)" "fs_inodes fs' i = Bytes (data_bytes R m)"
    "fs_inodes fs' j = Json (json_meta (disk_meta R now m))"
    using storage_flush_written [OF assms(1,2)] by blast
  have dir: "dir \<noteq> []" using assms(2) by (simp add: can_create_def)
  let ?d = "written_partition R now dir ret m"
  have op: "openDiskPartition dir ret fs' = (Inr ?d, fs')"
    using openDiskPartition_written [OF fl(2) dir fl(3-7), of ret] data_bytes_nonempty [OF assms(1,3,4)]
    by (simp add: written_partition_def)
  have "metricName (sortLabels R) metric labels \<notin> fst ` set (meta_Metrics (dk_meta ?d))"
    using json_metrics_names [of "meta_Metrics (disk_meta R now m)"] assms(5)
    by (auto simp: written_partition_def json_meta_def)
  hence "map_of (meta_Metrics (dk_meta ?d)) (metricName (sortLabels R) metric labels) = None"
    by (simp add: map_of_eq_None_iff)
  hence "\<exists>err. dk_selectDataPoints R t metric labels start end ?d = Inl err \<and> errors_Is err ErrNoDataPoints"
    by (simp add: dk_selectDataPoints_def)
  moreover have "dk_size ?d = mem_size m"
    by (simp add: dk_size_def written_partition_def json_meta_def disk_meta_def mem_size_def)
  ultimately show ?thesis using fl(1) op by (intro exI [of _ m'] exI [of _ fs'] exI [of _ ?d]) simp
qed

theorem flush_loses_name_witness:
  "\<exists>m' fs' d err. storage_flush stable_runtime 5 [''p'']
      (sample_partition\<lparr>mp_numPoints := 1, mp_metrics := [([CHR 0xFF],
        \<lparr>mm_name = [CHR 0xFF], mm_size = 1, mm_minTimestamp = 9, mm_maxTimestamp = 9, mm_points = [point 9 1],
         mm_outOfOrderPoints = []\<rparr>)]\<rparr>) empty_fs = (Inr (), m', fs') \<and>
    openDiskPartition [''p''] 100 fs' = (Inr d, fs') \<and> dk_size d = 1 \<and>
    dk_selectDataPoints stable_runtime 6 [CHR 0xFF] [] 0 20 d = Inl err \<and> errors_Is err ErrNoDataPoints"
proof -
  let ?m = "sample_partition\<lparr>mp_numPoints := 1, mp_metrics := [([CHR 0xFF],
        \<lparr>mm_name = [CHR 0xFF], mm_size = 1, mm_minTimestamp = 9, mm_maxTimestamp = 9, mm_points = [point 9 1],
         mm_outOfOrderPoints = []\<rparr>)]\<rparr>"
  have ok: "flushable stable_runtime 5 ?m"
    by (simp add: flushable_def sample_partition_def mp_ok_def metric_ok_def metric_points_def)
  have pts: "\<forall>(n, p) \<in># mp_points ?m. point_ok p \<and> dp_Timestamp p \<noteq> 0" "mp_points ?m \<noteq> {#}"
    by (simp_all add: metric_points_def point_ok_def int64_range_def)
  have name: "\<not> valid_utf8 (metricName (sortLabels stable_runtime) [CHR 0xFF] [])" by code_simp
  show ?thesis
    using flush_loses_name [OF ok sample_partition_ok(2) pts name, of 100 6 0 20] by (simp add: mem_size_def)
qed

end
