(* ===== verification/Write_Ahead_Log.thy ===== *)
theory Write_Ahead_Log
  imports Go_OS Labels
begin

text \<open>
  \<open>src/disk_wal.go\<close> and \<open>src/wal.go\<close>: the write-ahead log. A log is a directory of numbered
  segment files; rows are appended through a buffered writer to the active segment, a new segment
  starts with every partition, and a reader turns the segments back into rows when the storage is
  opened again.

  The state of the log is passed together with the file system. \<open>segment_next\<close> works on the
  unread bytes of a segment. Allocating the buffer for a metric name panics for lengths the Go
  runtime refuses, which a damaged segment can contain.
\<close>

section \<open>The log\<close>

record diskWAL =
  dw_dir :: path
  dw_bufferedSize :: int
  dw_w :: bufioWriter
  dw_fd :: nat
  dw_open :: bool
  dw_index :: uint32

definition operationInsert :: byte where
  "operationInsert = 0"

text \<open>The open descriptor as a writer; a closed one refuses every write.\<close>

definition fd_writer :: "nat \<Rightarrow> bool \<Rightarrow> 'j filesys writer" where
  "fd_writer fd is_open bs fs = (if is_open then file_Write fd bs fs else ((0, Some ErrClosed), fs))"

definition createSegmentFile :: "diskWAL \<Rightarrow> 'j filesys \<Rightarrow> nat result \<times> diskWAL \<times> 'j filesys" where
  "createSegmentFile w fs =
     (case OpenAppend (dw_dir w @ [itoa (unat (dw_index w))]) fs of
        (Inl e, fs) \<Rightarrow> (Inl (Wrapf ''failed to create segment file'' e), w, fs)
      | (Inr fd, fs) \<Rightarrow> (Inr fd, w\<lparr>dw_index := dw_index w + 1\<rparr>, fs))"

text \<open>The active segment becomes the created one, with a new buffered writer.\<close>

definition startSegment :: "diskWAL \<Rightarrow> 'j filesys \<Rightarrow> unit result \<times> diskWAL \<times> 'j filesys" where
  "startSegment w fs =
     (case createSegmentFile w fs of
        (Inl e, w, fs) \<Rightarrow> (Inl e, w, fs)
      | (Inr fd, w, fs) \<Rightarrow>
          (Inr (), w\<lparr>dw_fd := fd, dw_open := True, dw_w := NewWriterSize (dw_bufferedSize w)\<rparr>, fs))"

definition newDiskWAL :: "path \<Rightarrow> int \<Rightarrow> 'j filesys \<Rightarrow> diskWAL result \<times> 'j filesys" where
  "newDiskWAL dir bufferedSize fs =
     (case MkdirAll dir fs of
        (Inl e, fs) \<Rightarrow> (Inl (Wrapf ''failed to make WAL dir'' e), fs)
      | (Inr _, fs) \<Rightarrow>
          (case startSegment \<lparr>dw_dir = dir, dw_bufferedSize = bufferedSize, dw_w = NewWriterSize bufferedSize,
                              dw_fd = 0, dw_open = False, dw_index = 0\<rparr> fs of
             (Inl e, _, fs) \<Rightarrow> (Inl e, fs)
           | (Inr _, w, fs) \<Rightarrow> (Inr w, fs)))"

section \<open>Appending\<close>

text \<open>One write to the buffered writer with its error check.\<close>

definition put ::
  "string \<Rightarrow> (bufioWriter \<Rightarrow> 's \<Rightarrow> bufioWriter \<times> 's) \<Rightarrow> bufioWriter \<times> 's \<Rightarrow> unit result \<times> (bufioWriter \<times> 's)" where
  "put msg f bs =
     (let (b, s) = f (fst bs) (snd bs)
      in case bw_err b of None \<Rightarrow> (Inr (), (b, s)) | Some e \<Rightarrow> (Inl (Wrapf msg e), (b, s)))"

definition append_row :: "'s writer \<Rightarrow> Runtime \<Rightarrow> Row \<Rightarrow> bufioWriter \<times> 's \<Rightarrow> unit result \<times> (bufioWriter \<times> 's)" where
  "append_row wr R row st =
     andThen (put ''failed to write operation'' (bw_WriteByte wr operationInsert) st) (\<lambda>_ st.
       let name = metricName (sortLabels R) (row_Metric row) (row_Labels row) in
       andThen (put ''failed to write the length of the metric name''
                  (bw_Write wr (PutUvarint (of_nat (length name)))) st) (\<lambda>_ st.
       andThen (put ''failed to write the metric name'' (bw_Write wr (string_bytes name)) st) (\<lambda>_ st.
       andThen (put ''failed to write the timestamp'' (bw_Write wr (PutVarint (row_Timestamp row))) st) (\<lambda>_ st.
       put ''failed to write the value'' (bw_Write wr (PutUvarint (dp_Value (row_DataPoint row)))) st) id) id) id) id"

fun append_rows :: "'s writer \<Rightarrow> Runtime \<Rightarrow> Row list \<Rightarrow> bufioWriter \<times> 's \<Rightarrow> unit result \<times> (bufioWriter \<times> 's)" where
  "append_rows wr R [] st = (Inr (), st)"
| "append_rows wr R (row # rows) st = andThen (append_row wr R row st) (\<lambda>_ st. append_rows wr R rows st) id"

definition wal_flush :: "diskWAL \<Rightarrow> 'j filesys \<Rightarrow> unit result \<times> diskWAL \<times> 'j filesys" where
  "wal_flush w fs =
     (let (b, fs) = bw_Flush (fd_writer (dw_fd w) (dw_open w)) (dw_w w) fs;
          w = w\<lparr>dw_w := b\<rparr>
      in case bw_err b of
           None \<Rightarrow> (Inr (), w, fs)
         | Some e \<Rightarrow> (Inl (Wrapf ''failed to flush buffered-data into the underlying WAL file'' e), w, fs))"

definition wal_append :: "Runtime \<Rightarrow> byte \<Rightarrow> Row list \<Rightarrow> diskWAL \<Rightarrow> 'j filesys \<Rightarrow> unit result \<times> diskWAL \<times> 'j filesys" where
  "wal_append R op rows w fs =
     (if op = operationInsert then
        case append_rows (fd_writer (dw_fd w) (dw_open w)) R rows (dw_w w, fs) of
          (Inl e, (b, fs)) \<Rightarrow> (Inl e, w\<lparr>dw_w := b\<rparr>, fs)
        | (Inr _, (b, fs)) \<Rightarrow>
            if dw_bufferedSize w = 0 then wal_flush (w\<lparr>dw_w := b\<rparr>) fs
            else (Inr (), w\<lparr>dw_w := b\<rparr>, fs)
      else (Inl (Errorf ''unknown operation given''), w, fs))"

section \<open>Segments\<close>

definition close_fd :: "diskWAL \<Rightarrow> 'j filesys \<Rightarrow> unit result \<times> diskWAL \<times> 'j filesys" where
  "close_fd w fs =
     (if dw_open w then let (r, fs) = file_Close fs in (r, w\<lparr>dw_open := False\<rparr>, fs)
      else (Inl ErrClosed, w, fs))"

definition wal_punctuate :: "diskWAL \<Rightarrow> 'j filesys \<Rightarrow> unit result \<times> diskWAL \<times> 'j filesys" where
  "wal_punctuate w fs =
     (case wal_flush w fs of
        (Inl e, w, fs) \<Rightarrow> (Inl e, w, fs)
      | (Inr _, w, fs) \<Rightarrow>
          (case close_fd w fs of
             (Inl e, w, fs) \<Rightarrow> (Inl e, w, fs)
           | (Inr _, w, fs) \<Rightarrow> startSegment w fs))"

definition wal_removeOldest :: "diskWAL \<Rightarrow> 'j filesys \<Rightarrow> unit result \<times> diskWAL \<times> 'j filesys" where
  "wal_removeOldest w fs =
     (case ReadDir (dw_dir w) fs of
        (Inl e, fs) \<Rightarrow> (Inl (Wrapf ''failed to read WAL directory'' e), w, fs)
      | (Inr files, fs) \<Rightarrow>
          (case files of
             [] \<Rightarrow> (Inl (Errorf ''no segment found''), w, fs)
           | (name, _) # _ \<Rightarrow> let (r, fs) = RemoveAll (dw_dir w @ [name]) fs in (r, w, fs)))"

definition wal_removeAll :: "diskWAL \<Rightarrow> 'j filesys \<Rightarrow> unit result \<times> diskWAL \<times> 'j filesys" where
  "wal_removeAll w fs =
     (case close_fd w fs of
        (Inl e, w, fs) \<Rightarrow> (Inl e, w, fs)
      | (Inr _, w, fs) \<Rightarrow>
          (case RemoveAll (dw_dir w) fs of
             (Inl e, fs) \<Rightarrow> (Inl (Wrapf ''failed to remove files'' e), w, fs)
           | (Inr _, fs) \<Rightarrow> let (r, fs) = MkdirAll (dw_dir w) fs in (r, w, fs)))"

definition wal_refresh :: "diskWAL \<Rightarrow> 'j filesys \<Rightarrow> unit result \<times> diskWAL \<times> 'j filesys" where
  "wal_refresh w fs =
     (case wal_removeAll w fs of
        (Inl e, w, fs) \<Rightarrow> (Inl e, w, fs)
      | (Inr _, w, fs) \<Rightarrow> startSegment w fs)"

section \<open>Reading\<close>

text \<open>
  What \<open>segment.next\<close> finds: a record, or the end with the segment's error. The Go runtime
  refuses to make a slice longer than its address space.
\<close>

datatype next_record = Record Row | End "go_error option"

definition makeslice_ok :: "uint64 \<Rightarrow> bool" where
  "makeslice_ok len \<longleftrightarrow> len \<le> 2 ^ 48"

definition segment_next :: "byte list \<Rightarrow> next_record \<times> byte list" where
  "segment_next r =
     (case br_ReadByte r of
        (Inl err, r) \<Rightarrow> (End (if errors_Is err EOF then None else Some err), r)
      | (Inr op, r) \<Rightarrow>
          if op = operationInsert then
            (case ReadUvarint br_ReadByte r of
               (Inl err, r) \<Rightarrow> (End (Some (Wrapf ''failed to read the length of metric name'' err)), r)
             | (Inr metricLen, r) \<Rightarrow>
                 if \<not> makeslice_ok metricLen then (End (Some (Panic ''makeslice: len out of range'')), r)
                 else
            (case ReadFull (unat metricLen) r of
               (Inl err, r) \<Rightarrow> (End (Some (Wrapf ''failed to read the metric name'' err)), r)
             | (Inr metric, r) \<Rightarrow>
            (case ReadVarint br_ReadByte r of
               (Inl err, r) \<Rightarrow> (End (Some (Wrapf ''failed to read timestamp'' err)), r)
             | (Inr ts, r) \<Rightarrow>
            (case ReadUvarint br_ReadByte r of
               (Inl err, r) \<Rightarrow> (End (Some (Wrapf ''failed to read value'' err)), r)
             | (Inr val, r) \<Rightarrow>
                 (Record \<lparr>row_Metric = bytes_string metric, row_Labels = [], row_DataPoint = point ts val\<rparr>, r)))))
          else (End (Some (Errorf ''unknown operation found'')), r))"

text \<open>Reading never gets longer, so the loop over a segment ends.\<close>

lemma br_ReadByte_shorter: "br_ReadByte r = (x, r') \<Longrightarrow> length r' \<le> length r"
  by (cases r) auto

lemma ReadUvarint_loop_shorter:
  "ReadUvarint_loop br_ReadByte i x s r = (v, r') \<Longrightarrow> length r' \<le> length r"
proof (induction "10 - i" arbitrary: i x s r)
  case 0
  hence "r' = r" by (subst (asm) ReadUvarint_loop.simps) (simp add: MaxVarintLen64_def)
  thus ?case by simp
next
  case (Suc k)
  have i: "i < 10" using Suc.hyps(2) by simp
  show ?case
  proof (cases r)
    case Nil
    thus ?thesis using Suc.prems by (subst (asm) ReadUvarint_loop.simps) (auto split: if_splits)
  next
    case (Cons b bs)
    show ?thesis
    proof (cases "b < 128")
      case True
      hence "r' = bs"
        using Suc.prems i Cons True
        by (subst (asm) ReadUvarint_loop.simps) (simp add: MaxVarintLen64_def split: if_splits)
      thus ?thesis using Cons by simp
    next
      case False
      have "ReadUvarint_loop br_ReadByte (i + 1) (x OR push_bit s (ucast (b AND 127))) (s + 7) bs = (v, r')"
        using Suc.prems i Cons False
        by (subst (asm) ReadUvarint_loop.simps) (simp add: MaxVarintLen64_def)
      moreover have "k = 10 - (i + 1)" using Suc.hyps(2) by simp
      ultimately show ?thesis using Suc.hyps(1) Cons by fastforce
    qed
  qed
qed

lemma ReadUvarint_shorter: "ReadUvarint br_ReadByte r = (v, r') \<Longrightarrow> length r' \<le> length r"
  by (simp add: ReadUvarint_def ReadUvarint_loop_shorter)

lemma ReadVarint_shorter: "ReadVarint br_ReadByte r = (v, r') \<Longrightarrow> length r' \<le> length r"
  using ReadUvarint_shorter by (fastforce simp: ReadVarint_def andThen_def split: prod.splits sum.splits)

lemma ReadFull_shorter: "ReadFull n r = (v, r') \<Longrightarrow> length r' \<le> length r"
  by (auto simp: ReadFull_def split: if_splits)

lemma segment_next_shorter: "segment_next r = (Record row, r') \<Longrightarrow> length r' < length r"
  by (cases r)
     (auto simp: segment_next_def split: prod.splits sum.splits if_splits
       dest!: ReadUvarint_shorter ReadVarint_shorter ReadFull_shorter)

function read_segment :: "byte list \<Rightarrow> Row list \<times> go_error option" where
  "read_segment r =
     (case segment_next r of
        (End e, _) \<Rightarrow> ([], e)
      | (Record row, r) \<Rightarrow> let (rows, e) = read_segment r in (row # rows, e))"
  by pat_completeness auto
termination
  by (relation "measure length") (auto dest: segment_next_shorter [OF sym])

declare read_segment.simps [simp del]

text \<open>\<open>newDiskWALReader\<close> and \<open>readAll\<close>: the segments in the order of the directory.\<close>

definition newDiskWALReader :: "path \<Rightarrow> 'j filesys \<Rightarrow> (string \<times> entry) list result \<times> 'j filesys" where
  "newDiskWALReader dir fs =
     (case ReadDir dir fs of
        (Inl e, fs) \<Rightarrow> (Inl (Wrapf ''failed to read the WAL dir'' e), fs)
      | (Inr files, fs) \<Rightarrow> (Inr files, fs))"

definition is_panic :: "go_error \<Rightarrow> bool" where
  "is_panic e = (case e of Panic _ \<Rightarrow> True | _ \<Rightarrow> False)"

fun readAll :: "path \<Rightarrow> (string \<times> entry) list \<Rightarrow> Row list \<Rightarrow> 'j filesys \<Rightarrow> Row list result \<times> 'j filesys" where
  "readAll dir [] rows fs = (Inr rows, fs)"
| "readAll dir ((name, e) # files) rows fs =
     (if e = Dir then (Inl (Errorf ''unexpected directory found under the WAL directory''), fs)
      else case OpenRead (dir @ [name]) fs of
        (Inl err, fs) \<Rightarrow> (Inl (Wrapf ''failed to open WAL segment file'' err), fs)
      | (Inr fd, fs) \<Rightarrow>
          let (recs, err) = read_segment (file_bytes fs fd);
              rows = rows @ recs
          in if (case err of Some e \<Rightarrow> is_panic e | None \<Rightarrow> False) then (Inl (the err), fs)
             else case file_Close fs of
               (Inl e, fs) \<Rightarrow> (Inl e, fs)
             | (Inr _, fs) \<Rightarrow>
                 (case err of
                    None \<Rightarrow> readAll dir files rows fs
                  | Some err \<Rightarrow>
                      if errors_Is err ErrUnexpectedEOF \<or> errors_Is err EOF then (Inr rows, fs)
                      else (Inl (Wrapf ''encounter an error while reading WAL segment file'' err), fs)))"

section \<open>The format\<close>

text \<open>The bytes of a record, and the row that is read back: the marshalled name has become the metric.\<close>

definition record_bytes :: "Runtime \<Rightarrow> Row \<Rightarrow> byte list" where
  "record_bytes R row =
     (let name = metricName (sortLabels R) (row_Metric row) (row_Labels row)
      in operationInsert # PutUvarint (of_nat (length name)) @ string_bytes name
         @ PutVarint (row_Timestamp row) @ PutUvarint (dp_Value (row_DataPoint row)))"

definition wal_row :: "Runtime \<Rightarrow> Row \<Rightarrow> Row" where
  "wal_row R row = \<lparr>row_Metric = metricName (sortLabels R) (row_Metric row) (row_Labels row),
     row_Labels = [], row_DataPoint = row_DataPoint row\<rparr>"

text \<open>Names fit into memory and timestamps are \<open>int64\<close> values.\<close>

definition loggable :: "Runtime \<Rightarrow> Row \<Rightarrow> bool" where
  "loggable R row \<longleftrightarrow>
     length (metricName (sortLabels R) (row_Metric row) (row_Labels row)) \<le> 2 ^ 48 \<and>
     point_ok (row_DataPoint row)"

section \<open>Reading whole and truncated records\<close>

lemma to_bits_8_inject: "to_bits 8 x = to_bits 8 y \<Longrightarrow> x = (y :: byte)"
  by (rule bit_word_eqI) (simp add: to_bits_eq_iff)

lemma byte_bits_inject: "byte_bits xs = byte_bits ys \<Longrightarrow> xs = ys"
proof (induction xs arbitrary: ys)
  case (Cons x xs)
  then obtain y ys' where ys: "ys = y # ys'" by (cases ys) auto
  have "to_bits 8 x = to_bits 8 y" "byte_bits xs = byte_bits ys'"
    using Cons.prems ys by (simp_all only: byte_bits_simps append_eq_append_conv length_to_bits simp_thms)
  moreover from this(1) have "x = y" by (rule to_bits_8_inject)
  ultimately show ?case using Cons.IH ys by simp
qed (metis byte_bits_eq_Nil byte_bits_simps(1))

interpretation list_reader: byte_reader br_ReadByte byte_bits "\<lambda>_. True"
proof
  fix st :: "byte list" and b :: byte and xs
  assume eq: "byte_bits st = to_bits 8 b @ xs"
  then obtain c bs where st: "st = c # bs" by (cases st) auto
  have "to_bits 8 c = to_bits 8 b" "byte_bits bs = xs"
    using eq st by (simp_all only: byte_bits_simps append_eq_append_conv length_to_bits simp_thms)
  moreover from this(1) have "c = b" by (rule to_bits_8_inject)
  ultimately show "\<exists>st'. br_ReadByte st = (Inr b, st') \<and> byte_bits st' = xs \<and> True" using st by simp
qed

lemma ReadUvarint_list [simp]: "ReadUvarint br_ReadByte (PutUvarint u @ bs) = (Inr u, bs)"
proof -
  obtain st' where "ReadUvarint br_ReadByte (PutUvarint u @ bs) = (Inr u, st')" "byte_bits st' = byte_bits bs"
    using list_reader.ReadUvarint_put [of "PutUvarint u @ bs" u "byte_bits bs"] by auto
  thus ?thesis using byte_bits_inject by auto
qed

lemma ReadVarint_list [simp]:
  "int64_range t \<Longrightarrow> ReadVarint br_ReadByte (PutVarint t @ bs) = (Inr t, bs)"
  by (simp add: ReadVarint_def PutVarint_def)

lemma ReadFull_append [simp]: "ReadFull (length xs) (xs @ bs) = (Inr xs, bs)"
  by (simp add: ReadFull_def)

lemma makeslice_ok_of_nat: "n \<le> 2 ^ 48 \<Longrightarrow> makeslice_ok (of_nat n) \<and> unat (of_nat n :: uint64) = n"
  by (simp add: makeslice_ok_def word_le_nat_alt unat_of_nat)

lemma segment_next_record:
  assumes "loggable R row"
  shows "segment_next (record_bytes R row @ bs) = (Record (wal_row R row), bs)"
proof -
  let ?name = "metricName (sortLabels R) (row_Metric row) (row_Labels row)"
  have len: "makeslice_ok (of_nat (length ?name))" "unat (of_nat (length ?name) :: uint64) = length (string_bytes ?name)"
    using assms makeslice_ok_of_nat [of "length ?name"] by (simp_all add: loggable_def)
  have ts: "int64_range (row_Timestamp row)" using assms by (simp add: loggable_def point_ok_def)
  show ?thesis
    using len(1) ts
    by (simp add: segment_next_def record_bytes_def Let_def wal_row_def len(2) del: length_string_bytes)
qed

text \<open>A varint cut short: every byte but the last of an encoding announces another one.\<close>

lemma PutUvarint_continues: "\<forall>b \<in> set (butlast (PutUvarint u)). \<not> b < 128"
proof (induction u rule: PutUvarint.induct)
  case (1 u)
  thus ?case by (subst PutUvarint.simps) (auto simp: continuation_byte)
qed

lemma ReadUvarint_loop_truncated:
  "\<forall>b \<in> set xs. \<not> b < 128 \<Longrightarrow> i + length xs < 10 \<Longrightarrow>
   ReadUvarint_loop br_ReadByte i x s xs = (Inl (if 0 < i + length xs then ErrUnexpectedEOF else EOF), [])"
proof (induction xs arbitrary: i x s)
  case Nil
  thus ?case by (subst ReadUvarint_loop.simps) (simp add: MaxVarintLen64_def)
next
  case (Cons b bs)
  have "ReadUvarint_loop br_ReadByte i x s (b # bs) =
      ReadUvarint_loop br_ReadByte (i + 1) (x OR push_bit s (ucast (b AND 127))) (s + 7) bs"
    using Cons.prems by (subst ReadUvarint_loop.simps) (simp add: MaxVarintLen64_def)
  thus ?case using Cons.IH [of "i + 1"] Cons.prems by simp
qed

definition eof :: "go_error \<Rightarrow> bool" where
  "eof e \<longleftrightarrow> errors_Is e ErrUnexpectedEOF \<or> errors_Is e EOF"

lemma eof_simps [simp]: "eof EOF" "eof ErrUnexpectedEOF" "eof e \<Longrightarrow> eof (Wrapf s e)"
  by (auto simp: eof_def)

lemma eof_not_panic: "eof e \<Longrightarrow> \<not> is_panic e"
  by (auto simp: eof_def is_panic_def split: go_error.splits)

lemma ReadUvarint_truncated:
  assumes "PutUvarint u = xs @ ys" "ys \<noteq> []"
  shows "\<exists>e. ReadUvarint br_ReadByte xs = (Inl e, []) \<and> eof e"
proof -
  have "xs @ butlast ys = butlast (PutUvarint u)" using assms by (simp add: butlast_append)
  hence "\<forall>b \<in> set xs. \<not> b < 128" using PutUvarint_continues [of u] by (metis Un_iff set_append)
  moreover have "length xs < 10"
    using assms length_PutUvarint [of u] by (cases ys) (auto simp: MaxVarintLen64_def)
  ultimately show ?thesis using ReadUvarint_loop_truncated [of xs 0 0 0] by (simp add: ReadUvarint_def)
qed

lemma ReadVarint_truncated:
  assumes "PutVarint t = xs @ ys" "ys \<noteq> []"
  shows "\<exists>e. ReadVarint br_ReadByte xs = (Inl e, []) \<and> eof e"
  using ReadUvarint_truncated [of "zigzag t" xs ys] assms by (auto simp: ReadVarint_def PutVarint_def)

lemma ReadFull_truncated: "length xs < n \<Longrightarrow> \<exists>e. ReadFull n xs = (Inl e, []) \<and> eof e"
  by (auto simp: ReadFull_def)

text \<open>Where a list of two parts is cut: in the first part, or in the second.\<close>

lemma append_cut:
  assumes "us @ vs = xs @ ys" "ys \<noteq> []"
  obtains (first) zs where "us = xs @ zs" "zs \<noteq> []" | (second) zs where "xs = us @ zs" "vs = zs @ ys"
proof (cases "length xs < length us")
  case True
  hence "us = xs @ drop (length xs) us" using assms(1) by (metis append_eq_append_conv_if append_take_drop_id less_imp_le_nat)
  thus ?thesis using that(1) [of "drop (length xs) us"] True by simp
next
  case False
  hence "xs = us @ drop (length us) xs" using assms(1) by (metis append_eq_append_conv_if append_take_drop_id linorder_not_less)
  thus ?thesis using that(2) [of "drop (length us) xs"] assms(1) by (metis append.assoc append_same_eq same_append_eq)
qed

lemma segment_next_truncated:
  assumes "loggable R row" "record_bytes R row = xs @ ys" "xs \<noteq> []" "ys \<noteq> []"
  shows "\<exists>e. fst (segment_next xs) = End (Some e) \<and> eof e"
proof -
  let ?name = "metricName (sortLabels R) (row_Metric row) (row_Labels row)"
  let ?len = "PutUvarint (of_nat (length ?name))" and ?ts = "PutVarint (row_Timestamp row)"
  let ?v = "PutUvarint (dp_Value (row_DataPoint row))"
  have ok: "makeslice_ok (of_nat (length ?name))" "unat (of_nat (length ?name) :: uint64) = length (string_bytes ?name)"
    "int64_range (row_Timestamp row)"
    using assms(1) makeslice_ok_of_nat [of "length ?name"] by (simp_all add: loggable_def point_ok_def)
  obtain rs where xs: "xs = operationInsert # rs" "?len @ string_bytes ?name @ ?ts @ ?v = rs @ ys"
    using assms(2,3) by (cases xs) (auto simp: record_bytes_def Let_def)
  show ?thesis
    using xs(2) assms(4)
  proof (cases rule: append_cut)
    case (first zs)
    thus ?thesis using ReadUvarint_truncated xs(1) by (fastforce simp: segment_next_def)
  next
    case (second rs1)
    from second(2) assms(4) show ?thesis
    proof (cases rule: append_cut)
      case (first zs)
      hence "length rs1 < length (string_bytes ?name)" by simp
      then obtain e where "ReadFull (length (string_bytes ?name)) rs1 = (Inl e, [])" "eof e"
        using ReadFull_truncated by blast
      thus ?thesis using xs(1) second(1) ok(1) by (simp add: segment_next_def ok(2) del: length_string_bytes)
    next
      case second2: (second rs2)
      from second2(2) assms(4) show ?thesis
      proof (cases rule: append_cut)
        case (first zs)
        then obtain e where "ReadVarint br_ReadByte rs2 = (Inl e, [])" "eof e"
          using ReadVarint_truncated by blast
        thus ?thesis using xs(1) second(1) second2(1) ok(1)
          by (simp add: segment_next_def ok(2) del: length_string_bytes)
      next
        case second3: (second rs3)
        then obtain e where "ReadUvarint br_ReadByte rs3 = (Inl e, [])" "eof e"
          using ReadUvarint_truncated assms(4) by blast
        thus ?thesis using xs(1) second(1) second2(1) second3(1) ok(1,3)
          by (simp add: segment_next_def ok(2) del: length_string_bytes)
      qed
    qed
  qed
qed

lemma read_segment_Nil [simp]: "read_segment [] = ([], None)"
  by (subst read_segment.simps) (simp add: segment_next_def)

lemma read_segment_records:
  "\<forall>row \<in> set rows. loggable R row \<Longrightarrow>
   read_segment (concat (map (record_bytes R) rows)) = (map (wal_row R) rows, None)"
proof (induction rows)
  case (Cons row rows)
  thus ?case by (subst read_segment.simps) (simp add: segment_next_record)
qed simp

text \<open>A segment cut anywhere gives its complete records, and at most an end-of-file error.\<close>

lemma read_segment_prefix:
  assumes "\<forall>row \<in> set rows. loggable R row"
  shows "\<exists>j e. read_segment (take k (concat (map (record_bytes R) rows))) = (map (wal_row R) (take j rows), e) \<and>
    j \<le> length rows \<and> (\<forall>err. e = Some err \<longrightarrow> eof err) \<and>
    (j < length rows \<longrightarrow> k < length (concat (map (record_bytes R) (take (Suc j) rows))))"
  using assms
proof (induction rows arbitrary: k)
  case Nil
  thus ?case by simp
next
  case (Cons row rows)
  let ?rec = "record_bytes R row" and ?recs = "concat (map (record_bytes R) rows)"
  show ?case
  proof (cases "k < length ?rec")
    case True
    have tk: "take k (concat (map (record_bytes R) (row # rows))) = take k ?rec" using True by simp
    show ?thesis
    proof (cases "k = 0")
      case zero: True
      thus ?thesis using True by (intro exI [of _ 0] exI [of _ None]) simp
    next
      case False
      have "\<exists>e. fst (segment_next (take k ?rec)) = End (Some e) \<and> eof e"
        by (rule segment_next_truncated [of R row _ "drop k ?rec"]) (use True False Cons.prems in auto)
      then obtain e r where "segment_next (take k ?rec) = (End (Some e), r)" "eof e" by (metis prod.collapse)
      hence "read_segment (take k ?rec) = ([], Some e)" by (subst read_segment.simps) simp
      thus ?thesis unfolding tk using True \<open>eof e\<close> by (intro exI [of _ 0] exI [of _ "Some e"]) simp
    qed
  next
    case False
    obtain j e where IH: "read_segment (take (k - length ?rec) ?recs) = (map (wal_row R) (take j rows), e)"
      "j \<le> length rows" "\<forall>err. e = Some err \<longrightarrow> eof err"
      "j < length rows \<longrightarrow> k - length ?rec < length (concat (map (record_bytes R) (take (Suc j) rows)))"
      using Cons.IH Cons.prems by (metis list.set_intros(2))
    have "read_segment (take k (concat (map (record_bytes R) (row # rows))))
        = (wal_row R row # map (wal_row R) (take j rows), e)"
      using False Cons.prems IH(1) by (subst read_segment.simps) (simp add: segment_next_record)
    thus ?thesis using IH(2-4) False by (intro exI [of _ "Suc j"] exI [of _ e]) auto
  qed
qed

section \<open>What is in the file\<close>

context log_writer
begin

text \<open>
  A sequence of writes that stops at the first error: what reached the buffered writer is a
  prefix of the intended bytes, all of them on success.
\<close>

definition logged :: "bufioWriter \<Rightarrow> 's \<Rightarrow> unit result \<Rightarrow> bufioWriter \<Rightarrow> 's \<Rightarrow> byte list \<Rightarrow> bool" where
  "logged b s r b' s' p \<longleftrightarrow> (\<exists>q. prefix q p \<and> advances b s b' s' q \<and> (r = Inr () \<longrightarrow> q = p)) \<and>
     (r = Inr () \<longleftrightarrow> bw_err b' = None)"

lemma logged_put:
  assumes "\<And>b' s'. f b s = (b', s') \<Longrightarrow> advances b s b' s' p" "put msg f (b, s) = (r, (b', s'))"
  shows "logged b s r b' s' p"
  using assms by (auto simp: put_def logged_def split: prod.splits option.splits)

lemma logged_andThen:
  assumes "andThen (r1, (b1, s1)) f id = (r, (b', s'))" "logged b s r1 b1 s1 p"
    "r1 = Inr () \<Longrightarrow> f () (b1, s1) = (r, (b', s')) \<Longrightarrow> logged b1 s1 r b' s' q"
  shows "logged b s r b' s' (p @ q)"
proof (cases r1)
  case (Inl e)
  hence "r = Inl e" "b' = b1" "s' = s1" using assms(1) by auto
  thus ?thesis using assms(2) Inl by (auto simp: logged_def intro: prefix_prefix)
next
  case (Inr u)
  have "logged b1 s1 r b' s' q" using assms(1,3) Inr by simp
  thus ?thesis using assms(2) Inr by (auto simp: logged_def intro: advances_trans same_prefix_prefix [THEN iffD2])
qed

lemma logged_bw_ok: "logged b s r b' s' p \<Longrightarrow> bw_ok b \<Longrightarrow> bw_ok b'"
  by (auto simp: logged_def advances_def)

lemma put_Write:
  assumes "put msg (bw_Write wr p) (b, s) = (r, (b', s'))" "bw_ok b"
  shows "logged b s r b' s' p"
  using logged_put [OF _ assms(1)] bw_Write_advances assms(2) by blast

lemma put_WriteByte:
  assumes "put msg (bw_WriteByte wr c) (b, s) = (r, (b', s'))" "bw_ok b"
  shows "logged b s r b' s' [c]"
  using logged_put [OF _ assms(1)] bw_WriteByte_advances assms(2) by blast

lemma append_row_logged:
  assumes ret: "append_row wr R row (b, s) = (r, (b', s'))" and ok: "bw_ok b"
  shows "logged b s r b' s' (record_bytes R row)"
proof -
  let ?name = "metricName (sortLabels R) (row_Metric row) (row_Labels row)"
  let ?v = "PutUvarint (dp_Value (row_DataPoint row))" and ?ts = "PutVarint (row_Timestamp row)"
  let ?put = "\<lambda>msg p. put msg (bw_Write wr p)"
  have four: "logged b s r b' s' (?ts @ ?v)"
    if "andThen (?put m ?ts (b, s)) (\<lambda>_. ?put m' ?v) id = (r, (b', s'))" "bw_ok b" for b s m m'
  proof -
    obtain r1 b1 s1 where 1: "?put m ?ts (b, s) = (r1, (b1, s1))" by (metis prod.exhaust)
    note l1 = put_Write [OF 1 that(2)]
    show ?thesis by (rule logged_andThen [OF that(1) [unfolded 1] l1]) (rule put_Write, auto intro: logged_bw_ok [OF l1 that(2)])
  qed
  have three: "logged b s r b' s' (string_bytes ?name @ ?ts @ ?v)"
    if "andThen (?put m (string_bytes ?name) (b, s)) (\<lambda>_ st. andThen (?put m' ?ts st) (\<lambda>_. ?put m'' ?v) id) id = (r, (b', s'))"
       "bw_ok b" for b s m m' m''
  proof -
    obtain r1 b1 s1 where 1: "?put m (string_bytes ?name) (b, s) = (r1, (b1, s1))" by (metis prod.exhaust)
    note l1 = put_Write [OF 1 that(2)]
    show ?thesis by (rule logged_andThen [OF that(1) [unfolded 1] l1]) (rule four, auto intro: logged_bw_ok [OF l1 that(2)])
  qed
  have two: "logged b s r b' s' (PutUvarint (of_nat (length ?name)) @ string_bytes ?name @ ?ts @ ?v)"
    if "andThen (?put m (PutUvarint (of_nat (length ?name))) (b, s)) (\<lambda>_ st. andThen (?put m' (string_bytes ?name) st)
         (\<lambda>_ st. andThen (?put m'' ?ts st) (\<lambda>_. ?put m3 ?v) id) id) id = (r, (b', s'))"
       "bw_ok b" for b s m m' m'' m3
  proof -
    obtain r1 b1 s1 where 1: "?put m (PutUvarint (of_nat (length ?name))) (b, s) = (r1, (b1, s1))"
      by (metis prod.exhaust)
    note l1 = put_Write [OF 1 that(2)]
    show ?thesis by (rule logged_andThen [OF that(1) [unfolded 1] l1]) (rule three, auto intro: logged_bw_ok [OF l1 that(2)])
  qed
  obtain r1 b1 s1 where 1: "put ''failed to write operation'' (bw_WriteByte wr operationInsert) (b, s) = (r1, (b1, s1))"
    by (metis prod.exhaust)
  note l1 = put_WriteByte [OF 1 ok]
  have "logged b s r b' s' ([operationInsert] @ PutUvarint (of_nat (length ?name)) @ string_bytes ?name @ ?ts @ ?v)"
    by (rule logged_andThen [OF ret [unfolded append_row_def Let_def 1] l1])
       (rule two, auto intro: logged_bw_ok [OF l1 ok])
  thus ?thesis by (simp add: record_bytes_def Let_def)
qed

lemma append_rows_logged:
  "append_rows wr R rows (b, s) = (r, (b', s')) \<Longrightarrow> bw_ok b \<Longrightarrow> bw_err b = None \<Longrightarrow>
   logged b s r b' s' (concat (map (record_bytes R) rows))"
proof (induction rows arbitrary: b s)
  case Nil
  thus ?case by (auto simp: logged_def advances_def intro!: exI [of _ "[]"])
next
  case (Cons row rows)
  obtain r1 b1 s1 where 1: "append_row wr R row (b, s) = (r1, (b1, s1))" by (metis prod.exhaust)
  note l1 = append_row_logged [OF 1 Cons.prems(2)]
  have "logged b s r b' s' (record_bytes R row @ concat (map (record_bytes R) rows))"
  proof (rule logged_andThen [OF Cons.prems(1) [unfolded append_rows.simps 1] l1])
    assume r1: "r1 = Inr ()" and ret: "append_rows wr R rows (b1, s1) = (r, (b', s'))"
    have "bw_err b1 = None" using l1 r1 by (simp add: logged_def)
    with ret logged_bw_ok [OF l1 Cons.prems(2)]
    show "logged b1 s1 r b' s' (concat (map (record_bytes R) rows))" by (rule Cons.IH)
  qed
  thus ?case by simp
qed

text \<open>
  The state of a file with respect to the log \<open>L\<close> of everything that was to be written: the file
  is a prefix, and without an error the file and the buffer are all of it.
\<close>

definition holds :: "byte list \<Rightarrow> bufioWriter \<Rightarrow> 's \<Rightarrow> bool" where
  "holds L b s \<longleftrightarrow> bw_ok b \<and> prefix (contents s) L \<and> (bw_err b = None \<longrightarrow> contents s @ bw_buf b = L)"

lemma holds_logged:
  assumes "holds L b s" "logged b s r b' s' p"
  shows "holds (L @ p) b' s'"
proof -
  obtain q where q: "prefix q p" "advances b s b' s' q" "r = Inr () \<longrightarrow> q = p" "r = Inr () \<longleftrightarrow> bw_err b' = None"
    using assms(2) by (auto simp: logged_def)
  have ok: "bw_ok b'" using assms(1) q(2) by (auto simp: holds_def advances_def)
  consider "bw_err b \<noteq> None" | "bw_err b = None" "bw_err b' \<noteq> None" | "bw_err b = None" "bw_err b' = None" by blast
  thus ?thesis
  proof cases
    case 1
    hence "b' = b" "s' = s" using q(2) by (auto simp: advances_def)
    thus ?thesis using assms(1) 1 ok by (auto simp: holds_def intro: prefix_prefix)
  next
    case 2
    then obtain k where "contents s' = contents s @ take k (bw_buf b @ q)" using q(2) by (auto simp: advances_def)
    hence "prefix (contents s') (contents s @ bw_buf b @ q)"
      by (simp add: take_is_prefix del: take_append)
    moreover have "contents s @ bw_buf b = L" using assms(1) 2 by (auto simp: holds_def)
    ultimately have "prefix (contents s') (L @ q)" by (metis append.assoc)
    thus ?thesis using q(1) 2(2) ok by (auto simp: holds_def intro: prefix_order.trans)
  next
    case 3
    hence "contents s' @ bw_buf b' = L @ p"
      using assms(1) q(2-4) by (auto simp: holds_def advances_def)
    thus ?thesis using ok 3(2) prefixI [of "L @ p" "contents s'" "bw_buf b'"] by (simp add: holds_def)
  qed
qed

end

interpretation segment_file: log_writer "fd_writer fd is_open" "\<lambda>fs. file_bytes fs fd" for fd is_open
proof
  fix p s n err s'
  assume "fd_writer fd is_open p s = ((n, err), s')"
  thus "n \<le> length p \<and> file_bytes s' fd = file_bytes s fd @ take n p \<and> (err = None \<longrightarrow> n = length p)"
    by (auto simp: fd_writer_def file_Write_def next_fault_def append_bytes_def file_bytes_def min_def
        split: if_splits prod.splits fault.splits list.splits content.splits)
qed

text \<open>The active segment with respect to everything appended to it.\<close>

definition segment_holds :: "byte list \<Rightarrow> diskWAL \<Rightarrow> 'j filesys \<Rightarrow> bool" where
  "segment_holds L w fs \<longleftrightarrow> bw_ok (dw_w w) \<and> prefix (file_bytes fs (dw_fd w)) L \<and>
     (bw_err (dw_w w) = None \<longrightarrow> file_bytes fs (dw_fd w) @ bw_buf (dw_w w) = L)"

lemma segment_holds_def2:
  "segment_holds L w fs \<longleftrightarrow> segment_file.holds (dw_fd w) L (dw_w w) fs"
  by (simp add: segment_holds_def segment_file.holds_def)

lemma append_rows_err:
  assumes "bw_err b \<noteq> None"
  shows "append_row wr R row (b, s) = (Inl (Wrapf ''failed to write operation'' (the (bw_err b))), (b, s))"
  using assms by (auto simp: append_row_def put_def bw_WriteByte_def)

lemma wal_flush_spec:
  assumes "wal_flush w fs = (r, w', fs')" "segment_holds L w fs"
  shows "segment_holds L w' fs' \<and> dw_fd w' = dw_fd w \<and> dw_open w' = dw_open w \<and> dw_bufferedSize w' = dw_bufferedSize w \<and>
    (r = Inr () \<longleftrightarrow> bw_err (dw_w w') = None) \<and> (r = Inr () \<longrightarrow> file_bytes fs' (dw_fd w) = L)"
proof -
  obtain b fs1 where fl: "bw_Flush (fd_writer (dw_fd w) (dw_open w)) (dw_w w) fs = (b, fs1)" by fastforce
  have w': "w' = w\<lparr>dw_w := b\<rparr>" "fs' = fs1" "r = Inr () \<longleftrightarrow> bw_err b = None"
    using assms(1) fl by (auto simp: wal_flush_def Let_def split: option.splits)
  note adv = segment_file.bw_Flush_advances [OF fl]
  have "segment_file.logged (dw_fd w) (dw_w w) fs r b fs1 []"
    using adv w'(3) by (auto simp: segment_file.logged_def)
  hence "segment_file.holds (dw_fd w) L b fs1"
    using segment_file.holds_logged assms(2) by (fastforce simp: segment_holds_def2)
  thus ?thesis using w' adv by (auto simp: segment_holds_def2 segment_file.holds_def)
qed

lemma wal_append_spec:
  assumes "wal_append R operationInsert rows w fs = (r, w', fs')" "segment_holds L w fs"
  shows "segment_holds (L @ concat (map (record_bytes R) rows)) w' fs' \<and> dw_fd w' = dw_fd w \<and>
    dw_bufferedSize w' = dw_bufferedSize w \<and>
    (r = Inr () \<and> dw_bufferedSize w = 0 \<longrightarrow> file_bytes fs' (dw_fd w) = L @ concat (map (record_bytes R) rows))"
proof -
  let ?L = "L @ concat (map (record_bytes R) rows)"
  let ?wr = "fd_writer (dw_fd w) (dw_open w)"
  obtain r1 b fs1 where ap: "append_rows ?wr R rows (dw_w w, fs) = (r1, (b, fs1))" by (metis prod.exhaust)
  have ok: "bw_ok (dw_w w)" using assms(2) by (simp add: segment_holds_def)
  have h: "segment_holds ?L (w\<lparr>dw_w := b\<rparr>) fs1"
  proof (cases "bw_err (dw_w w) = None")
    case True
    from segment_file.append_rows_logged [OF ap ok True] assms(2) show ?thesis
      using segment_file.holds_logged by (fastforce simp: segment_holds_def2)
  next
    case False
    hence "b = dw_w w" "fs1 = fs" using ap by (cases rows; simp add: append_rows_err)+
    thus ?thesis using assms(2) False by (auto simp: segment_holds_def intro: prefix_prefix)
  qed
  show ?thesis
  proof (cases "r1 = Inr () \<and> dw_bufferedSize w = 0")
    case True
    hence "wal_flush (w\<lparr>dw_w := b\<rparr>) fs1 = (r, w', fs')" using assms(1) ap by (simp add: wal_append_def)
    from wal_flush_spec [OF this h] show ?thesis by simp
  next
    case False
    hence "w' = w\<lparr>dw_w := b\<rparr>" "fs' = fs1" "r = r1"
      using assms(1) ap by (auto simp: wal_append_def split: sum.splits)
    thus ?thesis using h False by auto
  qed
qed

text \<open>A run: the batches appended one after the other, with the results their callers saw.\<close>

fun wal_run :: "Runtime \<Rightarrow> Row list list \<Rightarrow> diskWAL \<Rightarrow> 'j filesys \<Rightarrow> unit result list \<times> diskWAL \<times> 'j filesys" where
  "wal_run R [] w fs = ([], w, fs)"
| "wal_run R (rows # batches) w fs =
     (let (r, w, fs) = wal_append R operationInsert rows w fs;
          (rs, w, fs) = wal_run R batches w fs
      in (r # rs, w, fs))"

lemma wal_run_spec:
  "wal_run R batches w fs = (rs, w', fs') \<Longrightarrow> segment_holds L w fs \<Longrightarrow>
   segment_holds (L @ concat (map (record_bytes R) (concat batches))) w' fs' \<and> dw_fd w' = dw_fd w \<and>
   (batches \<noteq> [] \<and> last rs = Inr () \<and> dw_bufferedSize w = 0 \<longrightarrow>
      file_bytes fs' (dw_fd w) = L @ concat (map (record_bytes R) (concat batches)))"
proof (induction batches arbitrary: w fs L rs)
  case (Cons rows batches)
  obtain r w1 fs1 where 1: "wal_append R operationInsert rows w fs = (r, w1, fs1)" by (metis prod.exhaust)
  obtain rs1 where 2: "wal_run R batches w1 fs1 = (rs1, w', fs')" "rs = r # rs1"
    using Cons.prems(1) 1 by (auto split: prod.splits)
  note spec = wal_append_spec [OF 1 Cons.prems(2)]
  have "length rs1 = length batches" using 2(1)
    by (induction batches arbitrary: w1 fs1 rs1) (auto split: prod.splits)
  show ?case
  proof (cases "batches = []")
    case True
    thus ?thesis using spec 2 by auto
  next
    case False
    hence "rs1 \<noteq> []" using \<open>length rs1 = length batches\<close> by auto
    thus ?thesis using Cons.IH [OF 2(1) conjunct1 [OF spec]] spec 2(2) False by simp
  qed
qed simp

text \<open>A segment that has just been started on an empty file.\<close>

definition fresh_segment :: "diskWAL \<Rightarrow> 'j filesys \<Rightarrow> bool" where
  "fresh_segment w fs \<longleftrightarrow> dw_w w = NewWriterSize (dw_bufferedSize w) \<and> file_bytes fs (dw_fd w) = []"

lemma fresh_segment_holds: "fresh_segment w fs \<Longrightarrow> segment_holds [] w fs"
  by (simp add: fresh_segment_def segment_holds_def bw_ok_def NewWriterSize_def)

subsection \<open>Without faults\<close>

lemma OpenRead_found:
  "fs_faults fs = [] \<Longrightarrow> lookup fs dir = Some Dir \<Longrightarrow> lookup fs (dir @ [n]) = Some (File i) \<Longrightarrow>
   OpenRead (dir @ [n]) fs = (Inr i, fs)"
  by (simp add: OpenRead_def open_found)

lemma startSegment_fresh:
  assumes "fs_faults fs = []" "lookup fs (dw_dir w) = Some Dir"
    "lookup fs (dw_dir w @ [itoa (unat (dw_index w))]) = None"
  shows "\<exists>w' fs'. startSegment w fs = (Inr (), w', fs') \<and> fresh_segment w' fs' \<and> dw_open w' \<and>
    dw_bufferedSize w' = dw_bufferedSize w \<and> dw_index w' = dw_index w + 1 \<and> fs_faults fs' = []"
  using assms
  by (simp add: startSegment_def createSegmentFile_def OpenAppend_def open_with_def new_file_def Let_def
      fresh_segment_def set_entry_def file_bytes_def)

lemma readAll_segments:
  assumes "fs_faults fs = []" "lookup fs dir = Some Dir"
    "\<forall>(n, i, rows) \<in> set segs. lookup fs (dir @ [n]) = Some (File i) \<and>
       file_bytes fs i = concat (map (record_bytes R) rows) \<and> (\<forall>row \<in> set rows. loggable R row)"
  shows "readAll dir (map (\<lambda>(n, i, rows). (n, File i)) segs @ files) done fs
       = readAll dir files (done @ map (wal_row R) (concat (map (\<lambda>(n, i, rows). rows) segs))) fs"
  using assms(3)
proof (induction segs arbitrary: "done")
  case (Cons seg segs)
  obtain n i rows where seg: "seg = (n, i, rows)" by (metis prod.exhaust)
  have "OpenRead (dir @ [n]) fs = (Inr i, fs)" "read_segment (file_bytes fs i) = (map (wal_row R) rows, None)"
    using OpenRead_found [OF assms(1,2), of n i] read_segment_records [of rows R] Cons.prems seg by auto
  thus ?case using Cons seg assms(1) by (simp add: file_Close_def)
qed simp

section \<open>Properties\<close>

text \<open>
  C15: Recovery after a crash at any point. Whatever batches are appended to a new segment, whatever
  writes fail or are cut short by the operating system, and however much is still in the buffer
  when the process dies: reading the segment file gives a prefix of the appended rows in order,
  each exactly as logged, and ends at most with an end-of-file error, which recovery ignores.
\<close>

theorem wal_crash_recovery:
  assumes "fresh_segment w fs" and "\<forall>rows \<in> set batches. \<forall>row \<in> set rows. loggable R row"
    and "wal_run R batches w fs = (rs, w', fs')"
  shows "\<exists>j e. read_segment (file_bytes fs' (dw_fd w)) = (map (wal_row R) (take j (concat batches)), e) \<and>
    (\<forall>err. e = Some err \<longrightarrow> errors_Is err ErrUnexpectedEOF \<or> errors_Is err EOF)"
proof -
  let ?L = "concat (map (record_bytes R) (concat batches))"
  have run: "segment_holds ?L w' fs'" "dw_fd w' = dw_fd w"
    using wal_run_spec [OF assms(3) fresh_segment_holds [OF assms(1)]] by auto
  then obtain xs where "?L = file_bytes fs' (dw_fd w) @ xs"
    by (auto simp: segment_holds_def prefix_def)
  hence "file_bytes fs' (dw_fd w) = take (length (file_bytes fs' (dw_fd w))) ?L" by simp
  then obtain k where "file_bytes fs' (dw_fd w) = take k ?L" by blast
  thus ?thesis using read_segment_prefix [of "concat batches" R k] assms(2) by (auto simp: eof_def)
qed

definition demo_wal :: "int \<Rightarrow> diskWAL" where
  "demo_wal sz = \<lparr>dw_dir = [''wal''], dw_bufferedSize = sz, dw_w = NewWriterSize sz, dw_fd = 0,
     dw_open = True, dw_index = 1\<rparr>"

definition demo_rows :: "Row list" where
  "demo_rows = [\<lparr>row_Metric = ''m'', row_Labels = [], row_DataPoint = point 7 1\<rparr>]"

lemma demo_wal_fields [simp]: "dw_fd (demo_wal sz) = 0" "dw_bufferedSize (demo_wal sz) = sz"
  by (simp_all add: demo_wal_def)

lemma demo_fresh: "fresh_segment (demo_wal sz) (empty_fs\<lparr>fs_faults := fl\<rparr>)"
  by (simp add: fresh_segment_def demo_wal_def file_bytes_def empty_fs_def)

lemma demo_loggable: "\<forall>row \<in> set demo_rows. loggable stable_runtime row"
  by (simp add: demo_rows_def loggable_def point_ok_def int64_range_def)

theorem wal_crash_recovery_witness:
  "\<exists>j e. read_segment (file_bytes (snd (snd (wal_run stable_runtime [demo_rows, demo_rows] (demo_wal 0)
       ((empty_fs :: unit filesys)\<lparr>fs_faults := [NoFault, Fault 3 ErrClosed]\<rparr>)))) 0)
     = (map (wal_row stable_runtime) (take j (concat [demo_rows, demo_rows])), e)"
proof -
  obtain rs w' fs' where run: "wal_run stable_runtime [demo_rows, demo_rows] (demo_wal 0)
      ((empty_fs :: unit filesys)\<lparr>fs_faults := [NoFault, Fault 3 ErrClosed]\<rparr>) = (rs, w', fs')"
    by (metis prod.exhaust)
  have "\<forall>rows \<in> set [demo_rows, demo_rows]. \<forall>row \<in> set rows. loggable stable_runtime row"
    using demo_loggable by simp
  from wal_crash_recovery [OF demo_fresh this run] show ?thesis unfolding run by auto
qed

text \<open>
  C40: An unbuffered log (\<open>WithWALBufferedSize(0)\<close>) is durable, whatever system calls fail: when the last
  append of a run of batches to a new segment reports success, every row of the run is in the segment
  file and is read back from it, in order.
\<close>

theorem wal_unbuffered_durable:
  assumes "fresh_segment w fs" and "\<forall>rows \<in> set batches. \<forall>row \<in> set rows. loggable R row"
    and "wal_run R batches w fs = (rs, w', fs')" and "batches \<noteq> []" and "last rs = Inr ()"
    and "dw_bufferedSize w = 0"
  shows "read_segment (file_bytes fs' (dw_fd w)) = (map (wal_row R) (concat batches), None)"
proof -
  have "file_bytes fs' (dw_fd w) = concat (map (record_bytes R) (concat batches))"
    using wal_run_spec [OF assms(3) fresh_segment_holds [OF assms(1)]] assms(4-6) by auto
  thus ?thesis using read_segment_records [of "concat batches" R] assms(2) by simp
qed

theorem wal_unbuffered_durable_witness:
  "read_segment (file_bytes (snd (snd (wal_run stable_runtime [demo_rows] (demo_wal 0)
       ((empty_fs :: unit filesys)\<lparr>fs_faults := []\<rparr>)))) 0) = (map (wal_row stable_runtime) demo_rows, None)"
proof -
  obtain rs w' fs' where run: "wal_run stable_runtime [demo_rows] (demo_wal 0)
      ((empty_fs :: unit filesys)\<lparr>fs_faults := []\<rparr>) = (rs, w', fs')" by (metis prod.exhaust)
  have "map isl (fst (wal_run stable_runtime [demo_rows] (demo_wal 0) (empty_fs :: unit filesys))) = [False]"
    by code_simp
  hence "last rs = Inr ()" using run by (auto simp: empty_fs_def isl_def map_eq_Cons_conv) (metis old.sum.exhaust old.unit.exhaust)
  from wal_unbuffered_durable [OF demo_fresh _ run _ this] demo_loggable run show ?thesis by simp
qed

text \<open>
  A flush that succeeds makes a buffered log durable up to that point: all rows appended so far
  are in the segment file.
\<close>

theorem wal_flush_durable:
  assumes "fresh_segment w fs" and "\<forall>rows \<in> set batches. \<forall>row \<in> set rows. loggable R row"
    and "wal_run R batches w fs = (rs, w1, fs1)" and "wal_flush w1 fs1 = (Inr (), w', fs')"
  shows "read_segment (file_bytes fs' (dw_fd w)) = (map (wal_row R) (concat batches), None)"
proof -
  have run: "segment_holds (concat (map (record_bytes R) (concat batches))) w1 fs1" "dw_fd w1 = dw_fd w"
    using wal_run_spec [OF assms(3) fresh_segment_holds [OF assms(1)]] by auto
  have "file_bytes fs' (dw_fd w) = concat (map (record_bytes R) (concat batches))"
    using wal_flush_spec [OF assms(4) run(1)] run(2) by simp
  thus ?thesis using read_segment_records [of "concat batches" R] assms(2) by simp
qed

theorem wal_flush_durable_witness:
  "read_segment (file_bytes (snd (snd (wal_flush (fst (snd (wal_run stable_runtime [demo_rows] (demo_wal 64)
       ((empty_fs :: unit filesys)\<lparr>fs_faults := []\<rparr>))))
     (snd (snd (wal_run stable_runtime [demo_rows] (demo_wal 64) ((empty_fs :: unit filesys)\<lparr>fs_faults := []\<rparr>)))))))
     0) = (map (wal_row stable_runtime) demo_rows, None)"
proof -
  obtain rs w1 fs1 where run: "wal_run stable_runtime [demo_rows] (demo_wal 64)
      ((empty_fs :: unit filesys)\<lparr>fs_faults := []\<rparr>) = (rs, w1, fs1)" by (metis prod.exhaust)
  obtain r w' fs' where fl: "wal_flush w1 fs1 = (r, w', fs')" by (metis prod.exhaust)
  have "\<not> isl (fst (wal_flush (fst (snd (wal_run stable_runtime [demo_rows] (demo_wal 64) (empty_fs :: unit filesys))))
      (snd (snd (wal_run stable_runtime [demo_rows] (demo_wal 64) (empty_fs :: unit filesys))))))"
    by code_simp
  hence "r = Inr ()" using run fl by (cases r) (simp_all add: empty_fs_def)
  from wal_flush_durable [OF demo_fresh _ run fl [unfolded this]] demo_loggable run fl show ?thesis by simp
qed

text \<open>
  Recovery reads the segments in the order of the directory and gives back the rows of all of
  them, in order, when every segment is complete.
\<close>

theorem wal_readAll_complete:
  assumes "fs_faults fs = []" and "lookup fs dir = Some Dir"
    and "\<forall>(n, i, rows) \<in> set segs. lookup fs (dir @ [n]) = Some (File i) \<and>
       file_bytes fs i = concat (map (record_bytes R) rows) \<and> (\<forall>row \<in> set rows. loggable R row)"
  shows "readAll dir (map (\<lambda>(n, i, rows). (n, File i)) segs) [] fs
       = (Inr (map (wal_row R) (concat (map (\<lambda>(n, i, rows). rows) segs))), fs)"
  using readAll_segments [OF assms, of "[]" "[]"] by simp

definition demo_fs :: "unit filesys" where
  "demo_fs = \<lparr>fs_entries = [([''wal''], Dir), ([''wal'', ''0''], File 0)],
     fs_inodes = (\<lambda>_. Bytes (record_bytes stable_runtime (hd demo_rows))), fs_next = 1, fs_faults = []\<rparr>"

theorem wal_readAll_complete_witness:
  "readAll [''wal''] [(''0'', File 0)] [] demo_fs = (Inr (map (wal_row stable_runtime) demo_rows), demo_fs)"
  using wal_readAll_complete [of demo_fs "[''wal'']" "[(''0'', 0, demo_rows)]" stable_runtime] demo_loggable
  by (simp add: demo_fs_def lookup_def file_bytes_def demo_rows_def)

text \<open>
  C32: A segment whose last record is cut short ends the whole recovery without an error: rows of
  later segments are not recovered, however complete those segments are.
\<close>

theorem truncated_segment_hides_later:
  assumes "fs_faults fs = []" and "lookup fs dir = Some Dir" and "lookup fs (dir @ [n]) = Some (File i)"
    and "file_bytes fs i = concat (map (record_bytes R) rows) @ xs" and "\<forall>row \<in> set rows. loggable R row"
    and "loggable R last_row" and "record_bytes R last_row = xs @ ys" and "xs \<noteq> []" and "ys \<noteq> []"
  shows "readAll dir ((n, File i) # files) [] fs = (Inr (map (wal_row R) rows), fs)"
proof -
  obtain e r where e: "segment_next xs = (End (Some e), r)" "eof e"
    using segment_next_truncated [OF assms(6-9)] by (metis prod.collapse)
  have "read_segment (concat (map (record_bytes R) rows) @ xs) = (map (wal_row R) rows, Some e)"
    using assms(5)
  proof (induction rows)
    case Nil
    thus ?case using e(1) by (subst read_segment.simps) simp
  next
    case (Cons row rows)
    thus ?case by (subst read_segment.simps) (simp add: segment_next_record)
  qed
  thus ?thesis using OpenRead_found [OF assms(1-3)] assms(1,4) e(2) eof_not_panic [OF e(2)]
    by (simp add: file_Close_def eof_def)
qed

theorem truncated_segment_hides_later_witness:
  "readAll [''wal''] [(''0'', File 0), (''1'', File 1)] []
     (demo_fs\<lparr>fs_inodes := (fs_inodes demo_fs)(0 := Bytes (take 3 (record_bytes stable_runtime (hd demo_rows))))\<rparr>)
   = (Inr [], demo_fs\<lparr>fs_inodes := (fs_inodes demo_fs)(0 := Bytes (take 3 (record_bytes stable_runtime (hd demo_rows))))\<rparr>)"
proof -
  have "3 < length (record_bytes stable_runtime (hd demo_rows))" by code_simp
  moreover from this have "record_bytes stable_runtime (hd demo_rows) \<noteq> []" by auto
  ultimately show ?thesis
    using truncated_segment_hides_later
      [of "demo_fs\<lparr>fs_inodes := (fs_inodes demo_fs)(0 := Bytes (take 3 (record_bytes stable_runtime (hd demo_rows))))\<rparr>"
          "[''wal'']" "''0''" 0 stable_runtime "[]" "take 3 (record_bytes stable_runtime (hd demo_rows))"
          "hd demo_rows" "drop 3 (record_bytes stable_runtime (hd demo_rows))" "[(''1'', File 1)]"] demo_loggable
    by (auto simp: demo_fs_def lookup_def file_bytes_def demo_rows_def)
qed

definition ten_segments :: "unit filesys" where
  "ten_segments = \<lparr>fs_entries = ([''wal''], Dir) # map (\<lambda>k. ([''wal'', itoa k], File k)) [2..<11],
     fs_inodes = (\<lambda>_. Bytes []), fs_next = 11, fs_faults = []\<rparr>"

text \<open>
  \<open>os.ReadDir\<close> sorts file names as strings, and segments are named by plain numbers: in a log
  with segments 2 to 10, removing the oldest segment removes the newest one, 10.
\<close>

theorem removeOldest_removes_newest:
  "map fst (fs_entries (snd (snd (wal_removeOldest (demo_wal 0) ten_segments))))
   = [''wal''] # map (\<lambda>k. [''wal'', itoa k]) [2..<10]"
  by code_simp

end
