(* ===== verification/Partition_List.thy ===== *)
theory Partition_List
  imports Go_Prelude
begin

text \<open>
  \<open>partitionListImpl\<close> of \<open>src/partition_list.go\<close>: a singly linked list of partitions, newest
  first, modelled with its nodes on an explicit heap, so that \<open>prev.setNext(next)\<close> is an update of
  a node that other pointers reach. A partition is a reference of any type \<open>'p\<close>; what the list
  needs of it, its minimum timestamp and \<open>clean\<close>, are arguments.

  A loop over the list follows pointers and ends only if the list is not cyclic: the loops take
  fuel and return \<open>None\<close> when it runs out. \<open>pl_fuel\<close>, one more than the number of nodes ever
  allocated, is enough for every list in the invariant's sense, and the lemmas state results as
  \<open>Some\<close>.

  The second half is the contract of a partition list as a locale over plain lists, what its
  clients conclude from it, and the interpretation of the contract by the heap operations.
\<close>

section \<open>Nodes and lists\<close>

type_synonym node_ptr = "nat option"

record 'p partitionNode =
  n_val :: 'p
  n_next :: node_ptr

record 'p partitionListImpl =
  pl_numPartitions :: int64
  pl_head :: node_ptr
  pl_tail :: node_ptr
  pl_nodes :: "nat \<Rightarrow> 'p partitionNode option"
  pl_fresh :: nat

definition newPartitionList :: "'p partitionListImpl" where
  "newPartitionList = \<lparr>pl_numPartitions = 0, pl_head = None, pl_tail = None,
     pl_nodes = (\<lambda>_. None), pl_fresh = 0\<rparr>"

definition pl_size :: "'p partitionListImpl \<Rightarrow> int" where
  "pl_size p = pl_numPartitions p"

definition setHead :: "node_ptr \<Rightarrow> 'p partitionListImpl \<Rightarrow> 'p partitionListImpl" where
  "setHead node p = p\<lparr>pl_head := node\<rparr>"

definition setTail :: "node_ptr \<Rightarrow> 'p partitionListImpl \<Rightarrow> 'p partitionListImpl" where
  "setTail node p = p\<lparr>pl_tail := node\<rparr>"

text \<open>\<open>node.setNext(next)\<close>, \<open>node.getNext()\<close> and \<open>node.value()\<close> through the node's address.\<close>

definition setNext :: "nat \<Rightarrow> node_ptr \<Rightarrow> 'p partitionListImpl \<Rightarrow> 'p partitionListImpl" where
  "setNext a next p =
     p\<lparr>pl_nodes := (pl_nodes p)(a := map_option (\<lambda>n. n\<lparr>n_next := next\<rparr>) (pl_nodes p a))\<rparr>"

definition getNext :: "'p partitionListImpl \<Rightarrow> nat \<Rightarrow> node_ptr" where
  "getNext p a = (case pl_nodes p a of Some n \<Rightarrow> n_next n | None \<Rightarrow> None)"

definition node_value :: "'p partitionListImpl \<Rightarrow> nat \<Rightarrow> 'p option" where
  "node_value p a = map_option n_val (pl_nodes p a)"

text \<open>\<open>&partitionNode{val: v, next: next}\<close>: a node at a fresh address.\<close>

definition new_node :: "'p \<Rightarrow> node_ptr \<Rightarrow> 'p partitionListImpl \<Rightarrow> nat \<times> 'p partitionListImpl" where
  "new_node v next p =
     (pl_fresh p,
      p\<lparr>pl_nodes := (pl_nodes p)(pl_fresh p \<mapsto> \<lparr>n_val = v, n_next = next\<rparr>), pl_fresh := pl_fresh p + 1\<rparr>)"

section \<open>The iterator\<close>

text \<open>The iterator starts at a dummy node in front of the head.\<close>

datatype iterator = Dummy node_ptr | At node_ptr

definition newIterator :: "'p partitionListImpl \<Rightarrow> iterator" where
  "newIterator p = Dummy (pl_head p)"

fun iter_next :: "'p partitionListImpl \<Rightarrow> iterator \<Rightarrow> bool \<times> iterator" where
  "iter_next p (Dummy nx) = (nx \<noteq> None, At nx)"
| "iter_next p (At None) = (False, At None)"
| "iter_next p (At (Some a)) = (getNext p a \<noteq> None, At (getNext p a))"

text \<open>
  \<open>currentNode\<close> and \<open>value\<close>; they are called after \<open>next\<close>, when the iterator has left the dummy
  node.
\<close>

fun currentNode :: "iterator \<Rightarrow> node_ptr" where
  "currentNode (Dummy _) = None"
| "currentNode (At a) = a"

definition iter_value :: "'p partitionListImpl \<Rightarrow> iterator \<Rightarrow> 'p option" where
  "iter_value p it = (case currentNode it of None \<Rightarrow> None | Some a \<Rightarrow> node_value p a)"

section \<open>Operations\<close>

definition getHead :: "'p partitionListImpl \<Rightarrow> 'p option" where
  "getHead p =
     (if pl_size p \<le> 0 then None
      else case pl_head p of None \<Rightarrow> None | Some a \<Rightarrow> node_value p a)"

definition pl_insert :: "'p \<Rightarrow> 'p partitionListImpl \<Rightarrow> 'p partitionListImpl" where
  "pl_insert v p =
     (let head = pl_head p;
          (a, p) = new_node v head p;
          p = setHead (Some a) p
      in p\<lparr>pl_numPartitions := wrap64 (pl_numPartitions p + 1)\<rparr>)"

definition samePartitions :: "('p \<Rightarrow> int64) \<Rightarrow> 'p \<Rightarrow> 'p \<Rightarrow> bool" where
  "samePartitions minTimestamp x y \<longleftrightarrow> minTimestamp x = minTimestamp y"

text \<open>The relinking of \<open>remove\<close> and of \<open>swap\<close>, by the three cases of their switches.\<close>

definition unlink :: "node_ptr \<Rightarrow> node_ptr \<Rightarrow> 'p partitionListImpl \<Rightarrow> 'p partitionListImpl" where
  "unlink prev next p =
     (case prev of
        None \<Rightarrow> setHead next p
      | Some a \<Rightarrow> if next = None then setTail prev (setNext a None p) else setNext a next p)"

definition relink :: "node_ptr \<Rightarrow> node_ptr \<Rightarrow> nat \<Rightarrow> 'p partitionListImpl \<Rightarrow> 'p partitionListImpl" where
  "relink prev next newNode p =
     (case prev of
        None \<Rightarrow> setHead (Some newNode) p
      | Some a \<Rightarrow> if next = None then setTail (Some newNode) (setNext a (Some newNode) p)
                  else setNext a (Some newNode) p)"

text \<open>
  The loop shared by \<open>remove\<close> and \<open>swap\<close>: the first node whose partition is the same as the
  target, with its predecessor and the iterator there; \<open>Some None\<close> when there is none.
\<close>

fun find_node ::
  "nat \<Rightarrow> ('p \<Rightarrow> int64) \<Rightarrow> 'p \<Rightarrow> 'p partitionListImpl \<Rightarrow> node_ptr \<Rightarrow> iterator
   \<Rightarrow> (node_ptr \<times> nat \<times> 'p \<times> iterator) option option" where
  "find_node 0 minT target p prev it = None"
| "find_node (Suc fuel) minT target p prev it =
     (let (more, it) = iter_next p it in
      if \<not> more then Some None
      else case currentNode it of
        None \<Rightarrow> Some None
      | Some current \<Rightarrow>
          (case node_value p current of
             None \<Rightarrow> Some None
           | Some v \<Rightarrow>
               if \<not> samePartitions minT v target then find_node fuel minT target p (Some current) it
               else Some (Some (prev, current, v, it))))"

definition pl_fuel :: "'p partitionListImpl \<Rightarrow> nat" where
  "pl_fuel p = pl_fresh p + 1"

definition pl_remove ::
  "('p \<Rightarrow> int64) \<Rightarrow> ('p \<Rightarrow> 'w \<Rightarrow> unit result \<times> 'w) \<Rightarrow> 'p \<Rightarrow> 'w \<Rightarrow> 'p partitionListImpl
   \<Rightarrow> (unit result \<times> 'w \<times> 'p partitionListImpl) option" where
  "pl_remove minT clean target w p =
     (if pl_size p \<le> 0 then Some (Inl (Errorf ''empty partition''), w, p)
      else case find_node (pl_fuel p) minT target p None (newIterator p) of
        None \<Rightarrow> None
      | Some None \<Rightarrow> Some (Inl (Errorf ''the given partition was not found''), w, p)
      | Some (Some (prev, current, v, it)) \<Rightarrow>
          let (_, it) = iter_next p it;
              next = currentNode it;
              p = unlink prev next p;
              p = p\<lparr>pl_numPartitions := wrap64 (pl_numPartitions p - 1)\<rparr>
          in (case clean v w of
                (Inl e, w) \<Rightarrow>
                  Some (Inl (Wrapf ''failed to clean resources managed by partition to be removed'' e), w, p)
              | (Inr _, w) \<Rightarrow> Some (Inr (), w, p)))"

definition pl_swap ::
  "('p \<Rightarrow> int64) \<Rightarrow> 'p \<Rightarrow> 'p \<Rightarrow> 'p partitionListImpl \<Rightarrow> (unit result \<times> 'p partitionListImpl) option" where
  "pl_swap minT old new p =
     (if pl_size p \<le> 0 then Some (Inl (Errorf ''empty partition''), p)
      else case find_node (pl_fuel p) minT old p None (newIterator p) of
        None \<Rightarrow> None
      | Some None \<Rightarrow> Some (Inl (Errorf ''the given partition was not found''), p)
      | Some (Some (prev, current, v, it)) \<Rightarrow>
          let (newNode, p) = new_node new (getNext p current) p;
              (_, it) = iter_next p it;
              next = currentNode it
          in Some (Inr (), relink prev next newNode p))"

text \<open>The partitions an iteration visits, from the head to the end.\<close>

fun iterate :: "nat \<Rightarrow> 'p partitionListImpl \<Rightarrow> iterator \<Rightarrow> 'p list option" where
  "iterate 0 p it = None"
| "iterate (Suc fuel) p it =
     (let (more, it) = iter_next p it in
      if \<not> more then Some []
      else case iter_value p it of
        None \<Rightarrow> Some []
      | Some v \<Rightarrow> map_option ((#) v) (iterate fuel p it))"

definition pl_values :: "'p partitionListImpl \<Rightarrow> 'p list option" where
  "pl_values p = iterate (pl_fuel p) p (newIterator p)"

text \<open>\<open>String\<close>; \<open>kind\<close> is the text of the type switch for a partition.\<close>

definition TrimSuffix :: "string \<Rightarrow> string \<Rightarrow> string" where
  "TrimSuffix s sfx =
     (if sfx = drop (length s - length sfx) s then take (length s - length sfx) s else s)"

definition pl_String :: "('p \<Rightarrow> string) \<Rightarrow> 'p partitionListImpl \<Rightarrow> string option" where
  "pl_String kind p =
     map_option (\<lambda>vs. TrimSuffix (concat (map (\<lambda>v. kind v @ ''->'') vs)) ''->'') (pl_values p)"

section \<open>The list a heap represents\<close>

text \<open>The nodes with the given addresses and values, linked from \<open>nd\<close> up to the pointer \<open>e\<close>.\<close>

fun seg :: "(nat \<Rightarrow> 'p partitionNode option) \<Rightarrow> node_ptr \<Rightarrow> (nat \<times> 'p) list \<Rightarrow> node_ptr \<Rightarrow> bool" where
  "seg h nd [] e \<longleftrightarrow> nd = e"
| "seg h nd ((a, v) # avs) e \<longleftrightarrow> nd = Some a \<and>
     (case h a of None \<Rightarrow> False | Some n \<Rightarrow> n_val n = v \<and> seg h (n_next n) avs e)"

definition represents :: "'p partitionListImpl \<Rightarrow> (nat \<times> 'p) list \<Rightarrow> bool" where
  "represents p avs \<longleftrightarrow> seg (pl_nodes p) (pl_head p) avs None \<and> distinct (map fst avs) \<and>
     (\<forall>a. pl_fresh p \<le> a \<longrightarrow> pl_nodes p a = None) \<and> pl_numPartitions p = int (length avs)"

definition pl_repr :: "'p partitionListImpl \<Rightarrow> 'p list \<Rightarrow> bool" where
  "pl_repr p vs \<longleftrightarrow> (\<exists>avs. represents p avs \<and> map snd avs = vs)"

text \<open>The operations on plain lists: the first element that satisfies a predicate goes, or is replaced.\<close>

fun remove_first :: "('a \<Rightarrow> bool) \<Rightarrow> 'a list \<Rightarrow> 'a list" where
  "remove_first P [] = []"
| "remove_first P (x # xs) = (if P x then xs else x # remove_first P xs)"

fun replace_first :: "('a \<Rightarrow> bool) \<Rightarrow> 'a \<Rightarrow> 'a list \<Rightarrow> 'a list" where
  "replace_first P y [] = []"
| "replace_first P y (x # xs) = (if P x then y # xs else x # replace_first P y xs)"

section \<open>Lemmas\<close>

subsection \<open>Segments\<close>

lemma seg_frame: "a \<notin> fst ` set avs \<Longrightarrow> seg (h(a := n)) nd avs e = seg h nd avs e"
  by (induction avs arbitrary: nd) (auto split: option.splits)

lemma seg_append: "seg h nd (xs @ ys) e \<longleftrightarrow> (\<exists>m. seg h nd xs m \<and> seg h m ys e)"
  by (induction xs arbitrary: nd) (auto split: option.splits)

lemma seg_relink:
  assumes "seg h nd (xs @ [(a, v)]) e" "a \<notin> fst ` set xs"
  shows "seg (h(a := map_option (\<lambda>n. n\<lparr>n_next := e'\<rparr>) (h a))) nd (xs @ [(a, v)]) e'"
  using assms by (auto simp: seg_append seg_frame split: option.splits)

lemma seg_known: "seg h nd avs e \<Longrightarrow> a \<in> fst ` set avs \<Longrightarrow> h a \<noteq> None"
  by (induction avs arbitrary: nd) (force split: option.splits)+

lemma represents_length:
  assumes "represents p avs"
  shows "length avs \<le> pl_fresh p"
proof -
  have "fst ` set avs \<subseteq> {..<pl_fresh p}"
    using assms seg_known by (fastforce simp: represents_def not_less [symmetric])
  hence "card (fst ` set avs) \<le> pl_fresh p" by (metis card_lessThan card_mono finite_lessThan)
  thus ?thesis using assms distinct_card [of "map fst avs"] by (simp add: represents_def)
qed

subsection \<open>Finding a node\<close>

text \<open>The pointer an iterator moves to next.\<close>

fun ahead :: "'p partitionListImpl \<Rightarrow> iterator \<Rightarrow> node_ptr" where
  "ahead p (Dummy nx) = nx"
| "ahead p (At None) = None"
| "ahead p (At (Some a)) = getNext p a"

lemma iter_next_ahead: "iter_next p it = (ahead p it \<noteq> None, At (ahead p it))"
  by (induction p it rule: ahead.induct) simp_all

lemma seg_Cons_node:
  assumes "seg (pl_nodes p) nd ((a, v) # avs) e"
  shows "nd = Some a" "node_value p a = Some v" "seg (pl_nodes p) (getNext p a) avs e"
  using assms by (auto simp: node_value_def getNext_def split: option.splits)

lemma find_node_none:
  "seg (pl_nodes p) (ahead p it) ys None \<Longrightarrow> \<forall>v \<in> snd ` set ys. minT v \<noteq> minT target \<Longrightarrow>
   length ys < fuel \<Longrightarrow> find_node fuel minT target p prev it = Some None"
proof (induction ys arbitrary: fuel prev it)
  case Nil
  thus ?case by (cases fuel) (simp_all add: iter_next_ahead)
next
  case (Cons av ys)
  obtain a v f where av: "av = (a, v)" "fuel = Suc f" using Cons.prems(3) by (cases av; cases fuel) auto
  note node = seg_Cons_node [OF Cons.prems(1) [unfolded av(1)]]
  have "find_node f minT target p (Some a) (At (Some a)) = Some None"
    by (rule Cons.IH) (use Cons.prems node(3) av in auto)
  thus ?case using node(1,2) Cons.prems(2) av by (simp add: iter_next_ahead samePartitions_def)
qed

lemma find_node_some:
  "seg (pl_nodes p) (ahead p it) (us @ (a, v) # zs) None \<Longrightarrow>
   \<forall>v \<in> snd ` set us. minT v \<noteq> minT target \<Longrightarrow> minT v = minT target \<Longrightarrow> length us < fuel \<Longrightarrow>
   find_node fuel minT target p prev it =
     Some (Some (if us = [] then prev else Some (fst (last us)), a, v, At (Some a)))"
proof (induction us arbitrary: fuel prev it)
  case Nil
  note node = seg_Cons_node [OF Nil.prems(1) [unfolded append_Nil]]
  show ?case using Nil node(1,2) by (cases fuel) (simp_all add: iter_next_ahead samePartitions_def)
next
  case (Cons av us)
  obtain b u f where av: "av = (b, u)" "fuel = Suc f" using Cons.prems(4) by (cases av; cases fuel) auto
  note node = seg_Cons_node [OF Cons.prems(1) [unfolded av(1) append_Cons]]
  have "find_node f minT target p (Some b) (At (Some b)) =
      Some (Some (if us = [] then Some b else Some (fst (last us)), a, v, At (Some a)))"
    by (rule Cons.IH) (use Cons.prems node(3) av in auto)
  thus ?case using node(1,2) Cons.prems(2) av by (simp add: iter_next_ahead samePartitions_def)
qed

lemma split_first:
  assumes "\<exists>v \<in> snd ` set avs. P v"
  shows "\<exists>us a v zs. avs = us @ (a, v) # zs \<and> P v \<and> (\<forall>u \<in> snd ` set us. \<not> P u)"
  using assms split_list_first_prop [of avs "\<lambda>av. P (snd av)"] by fastforce

lemma first_append:
  assumes "\<forall>u \<in> set us. \<not> P u" "P v"
  shows "remove_first P (us @ v # zs) = us @ zs" "replace_first P w (us @ v # zs) = us @ w # zs"
  using assms by (induction us) simp_all

lemma first_none:
  assumes "\<forall>u \<in> set us. \<not> P u"
  shows "remove_first P us = us" "replace_first P w us = us"
  using assms by (induction us) simp_all

subsection \<open>Relinking\<close>

lemma represents_split:
  assumes "represents p (us @ (a, v) # zs)"
  shows "seg (pl_nodes p) (pl_head p) us (Some a)" "pl_nodes p a = Some \<lparr>n_val = v, n_next = getNext p a\<rparr>"
    "seg (pl_nodes p) (getNext p a) zs None" "distinct (map fst us @ a # map fst zs)"
    "\<And>b. pl_fresh p \<le> b \<Longrightarrow> pl_nodes p b = None" "pl_numPartitions p = int (length us + length zs) + 1"
  using assms by (auto simp: represents_def seg_append getNext_def split: option.splits)

lemma seg_None_iff: "seg h nd zs None \<Longrightarrow> nd = None \<longleftrightarrow> zs = []"
  by (cases zs) auto

text \<open>
  Both relinkings point the predecessor, or the head, past the current node to a given pointer.
\<close>

definition point_prev :: "node_ptr \<Rightarrow> node_ptr \<Rightarrow> 'p partitionListImpl \<Rightarrow> 'p partitionListImpl" where
  "point_prev prev nx p = (case prev of None \<Rightarrow> setHead nx p | Some b \<Rightarrow> setNext b nx p)"

lemma represents_tail [simp]: "represents (setTail t p) avs = represents p avs"
  by (simp add: represents_def setTail_def)

lemma unlink_point: "represents ((unlink prev nx p)\<lparr>pl_numPartitions := k\<rparr>) avs
    = represents ((point_prev prev nx p)\<lparr>pl_numPartitions := k\<rparr>) avs"
  by (auto simp: unlink_def point_prev_def represents_def setTail_def split: option.splits)

lemma relink_point: "represents (relink prev nx a p) avs = represents (point_prev prev (Some a) p) avs"
  by (auto simp: relink_def point_prev_def split: option.splits)

lemma point_prev_seg:
  assumes "seg (pl_nodes p) (pl_head p) us e" "distinct (map fst us)"
    "p' = point_prev (if us = [] then None else Some (fst (last us))) nx p"
  shows "seg (pl_nodes p') (pl_head p') us nx" "pl_fresh p' = pl_fresh p"
    "pl_numPartitions p' = pl_numPartitions p" "\<And>b. b \<notin> fst ` set us \<Longrightarrow> pl_nodes p' b = pl_nodes p b"
proof -
  have "seg (pl_nodes p') (pl_head p') us nx \<and> pl_fresh p' = pl_fresh p \<and>
    pl_numPartitions p' = pl_numPartitions p \<and> (\<forall>b. b \<notin> fst ` set us \<longrightarrow> pl_nodes p' b = pl_nodes p b)"
  proof (cases us rule: rev_cases)
    case Nil
    thus ?thesis using assms by (simp add: setHead_def point_prev_def)
  next
    case (snoc xs x)
    obtain b u where x: "x = (b, u)" by fastforce
    have "seg ((pl_nodes p)(b := map_option (\<lambda>n. n\<lparr>n_next := nx\<rparr>) (pl_nodes p b))) (pl_head p) (xs @ [(b, u)]) nx"
      by (rule seg_relink) (use assms(1,2) snoc x in auto)
    thus ?thesis using snoc x assms(3) by (simp add: point_prev_def setNext_def)
  qed
  thus "seg (pl_nodes p') (pl_head p') us nx" "pl_fresh p' = pl_fresh p"
    "pl_numPartitions p' = pl_numPartitions p" "\<And>b. b \<notin> fst ` set us \<Longrightarrow> pl_nodes p' b = pl_nodes p b" by auto
qed

lemma seg_cong: "(\<And>a. a \<in> fst ` set avs \<Longrightarrow> h a = h' a) \<Longrightarrow> seg h nd avs e = seg h' nd avs e"
  by (induction avs arbitrary: nd) (auto split: option.splits)

lemma represents_unlink:
  assumes "represents p (us @ (a, v) # zs)" "k = int (length us + length zs)"
  shows "represents ((unlink (if us = [] then None else Some (fst (last us))) (getNext p a) p)
    \<lparr>pl_numPartitions := k\<rparr>) (us @ zs)"
proof -
  note sp = represents_split [OF assms(1)]
  let ?p' = "point_prev (if us = [] then None else Some (fst (last us))) (getNext p a) p"
  have d: "distinct (map fst us)" using sp(4) by simp
  note pp = point_prev_seg [where nx = "getNext p a", OF sp(1) d refl]
  have "b \<notin> fst ` set us" if "b \<in> fst ` set zs" for b using sp(4) that by auto
  hence "seg (pl_nodes ?p') (getNext p a) zs None"
    using seg_cong [where h = "pl_nodes ?p'" and h' = "pl_nodes p", OF pp(4)] sp(3) by simp
  hence "seg (pl_nodes ?p') (pl_head ?p') (us @ zs) None"
    unfolding seg_append by (intro exI conjI) (rule pp(1))
  moreover have "pl_nodes ?p' b = None" if "pl_fresh p \<le> b" for b
  proof -
    have b: "pl_nodes p b = None" using that sp(5) by simp
    hence "b \<notin> fst ` set us" using seg_known [OF sp(1), of b] by metis
    thus ?thesis using pp(4) [of b] b by simp
  qed
  moreover have "distinct (map fst (us @ zs))" using sp(4) by simp
  ultimately show ?thesis unfolding unlink_point unfolding represents_def using pp(2) assms(2) by simp
qed

lemma represents_relink:
  assumes "represents p (us @ (a, v) # zs)"
  shows "represents (relink (if us = [] then None else Some (fst (last us))) nx (pl_fresh p)
           (snd (new_node w (getNext p a) p))) (us @ (pl_fresh p, w) # zs)"
proof -
  note sp = represents_split [OF assms(1)]
  let ?q = "snd (new_node w (getNext p a) p)" and ?b = "pl_fresh p"
  let ?p' = "point_prev (if us = [] then None else Some (fst (last us))) (Some ?b) ?q"
  have d: "distinct (map fst us)" using sp(4) by simp
  have fresh: "?b \<notin> fst ` set us" "?b \<notin> fst ` set zs"
    using seg_known [OF sp(1), of ?b] seg_known [OF sp(3), of ?b] sp(5) [of ?b] by auto
  have q: "seg (pl_nodes ?q) (pl_head ?q) us (Some a)" using sp(1) fresh(1) by (simp add: new_node_def seg_frame)
  note pp = point_prev_seg [where nx = "Some ?b", OF q d refl]
  have "pl_nodes ?p' c = pl_nodes p c" if c: "c \<in> fst ` set zs" for c
  proof -
    have "c \<noteq> ?b" using c fresh(2) by metis
    moreover have "c \<notin> fst ` set us" using sp(4) c by auto
    ultimately show ?thesis using pp(4) [of c] by (simp add: new_node_def)
  qed
  hence "seg (pl_nodes ?p') (getNext p a) zs None"
    using seg_cong [where h = "pl_nodes ?p'" and h' = "pl_nodes p"] sp(3) by simp
  moreover have "pl_nodes ?p' ?b = Some \<lparr>n_val = w, n_next = getNext p a\<rparr>"
    using pp(4) [OF fresh(1)] by (simp add: new_node_def)
  ultimately have "seg (pl_nodes ?p') (Some ?b) ((?b, w) # zs) None" by simp
  hence "seg (pl_nodes ?p') (pl_head ?p') (us @ (?b, w) # zs) None"
    unfolding seg_append by (intro exI conjI) (rule pp(1))
  moreover have "pl_nodes ?p' c = None" if "Suc (pl_fresh p) \<le> c" for c
  proof -
    have c: "pl_nodes p c = None" using that sp(5) by simp
    hence "c \<notin> fst ` set us" using seg_known [OF sp(1), of c] by metis
    thus ?thesis using pp(4) [of c] c that by (simp add: new_node_def)
  qed
  moreover have "pl_fresh ?p' = Suc (pl_fresh p)" "pl_numPartitions ?p' = pl_numPartitions p"
    using pp(2,3) by (simp_all add: new_node_def)
  moreover have "distinct (map fst (us @ (?b, w) # zs))" using sp(4) fresh by auto
  ultimately show ?thesis unfolding relink_point unfolding represents_def using sp(6) by simp
qed

subsection \<open>The operations on represented lists\<close>

lemma pl_repr_new: "pl_repr newPartitionList []"
  by (simp add: pl_repr_def represents_def newPartitionList_def)

lemma pl_repr_insert:
  assumes "pl_repr p vs" "int (length vs) + 1 < 2 ^ 63"
  shows "pl_repr (pl_insert v p) (v # vs)"
proof -
  obtain avs where avs: "represents p avs" "map snd avs = vs" using assms(1) by (auto simp: pl_repr_def)
  let ?b = "pl_fresh p"
  have fresh: "?b \<notin> fst ` set avs" using avs(1) seg_known by (fastforce simp: represents_def)
  have "represents (pl_insert v p) ((?b, v) # avs)"
    using avs assms(2) fresh
    by (auto simp: represents_def pl_insert_def new_node_def setHead_def Let_def seg_frame int64_range_def)
  thus ?thesis using avs(2) by (auto simp: pl_repr_def intro!: exI [of _ "(?b, v) # avs"])
qed

lemma pl_repr_size: "pl_repr p vs \<Longrightarrow> pl_size p = int (length vs)"
  by (auto simp: pl_repr_def represents_def pl_size_def)

lemma pl_repr_head: "pl_repr p vs \<Longrightarrow> getHead p = (case vs of [] \<Rightarrow> None | v # _ \<Rightarrow> Some v)"
  by (cases vs) (auto simp: pl_repr_def represents_def getHead_def pl_size_def node_value_def
      split: option.splits)

lemma iterate_seg:
  "seg (pl_nodes p) (ahead p it) avs None \<Longrightarrow> length avs < fuel \<Longrightarrow> iterate fuel p it = Some (map snd avs)"
proof (induction avs arbitrary: fuel it)
  case Nil
  thus ?case by (cases fuel) (simp_all add: iter_next_ahead)
next
  case (Cons av avs)
  obtain a v f where av: "av = (a, v)" "fuel = Suc f" using Cons.prems(2) by (cases av; cases fuel) auto
  note node = seg_Cons_node [OF Cons.prems(1) [unfolded av(1)]]
  have "iterate f p (At (Some a)) = Some (map snd avs)"
    by (rule Cons.IH) (use Cons.prems node(3) av in auto)
  thus ?case using node(1,2) av by (simp add: iter_next_ahead iter_value_def)
qed

lemma pl_repr_values:
  assumes "pl_repr p vs"
  shows "pl_values p = Some vs"
proof -
  obtain avs where avs: "represents p avs" "map snd avs = vs" using assms by (auto simp: pl_repr_def)
  have "seg (pl_nodes p) (ahead p (newIterator p)) avs None" "length avs < pl_fuel p"
    using avs(1) represents_length [OF avs(1)] by (simp_all add: represents_def newIterator_def pl_fuel_def)
  thus ?thesis using iterate_seg avs(2) unfolding pl_values_def by blast
qed

lemma pl_repr_split:
  assumes "pl_repr p vs" "\<exists>v \<in> set vs. minT v = minT t"
  obtains us a v zs where "represents p (us @ (a, v) # zs)" "vs = map snd us @ v # map snd zs"
    "find (\<lambda>x. minT x = minT t) vs = Some v" "\<forall>u \<in> set (map snd us). \<not> minT u = minT t" "minT v = minT t"
    "find_node (pl_fuel p) minT t p None (newIterator p) =
       Some (Some (if us = [] then None else Some (fst (last us)), a, v, At (Some a)))"
proof -
  obtain avs where avs: "represents p avs" "map snd avs = vs" using assms(1) by (auto simp: pl_repr_def)
  hence ex: "\<exists>v \<in> snd ` set avs. minT v = minT t" using assms(2) by auto
  obtain us a v zs where sp: "avs = us @ (a, v) # zs" "minT v = minT t" "\<forall>u \<in> snd ` set us. minT u \<noteq> minT t"
    using split_first [where P = "\<lambda>v. minT v = minT t", OF ex] by auto
  have seg: "seg (pl_nodes p) (ahead p (newIterator p)) (us @ (a, v) # zs) None" "length us < pl_fuel p"
    using avs(1) represents_length [OF avs(1)] sp(1) by (simp_all add: represents_def newIterator_def pl_fuel_def)
  have "find (\<lambda>x. minT x = minT t) (map snd us @ v # map snd zs) = Some v"
    using sp(2,3) by (induction us) auto
  moreover have "vs = map snd us @ v # map snd zs" using avs(2) sp(1) by simp
  ultimately show ?thesis
    by (intro that [of us a v zs])
       (use avs(1) sp find_node_some [where prev = None, OF seg(1) sp(3,2) seg(2)] in simp_all)
qed

lemma pl_repr_absent:
  assumes "pl_repr p vs" "\<not> (\<exists>v \<in> set vs. minT v = minT t)"
  shows "find_node (pl_fuel p) minT t p None (newIterator p) = Some None"
proof -
  obtain avs where avs: "represents p avs" "map snd avs = vs" using assms(1) by (auto simp: pl_repr_def)
  have "seg (pl_nodes p) (ahead p (newIterator p)) avs None" "length avs < pl_fuel p"
    using avs(1) represents_length [OF avs(1)] by (simp_all add: represents_def newIterator_def pl_fuel_def)
  thus ?thesis using find_node_none assms(2) avs(2) by (metis image_set)
qed

lemma pl_remove_found:
  assumes "pl_repr p vs" "\<exists>v \<in> set vs. minT v = minT t" "int (length vs) < 2 ^ 63"
  shows "\<exists>v p'. find (\<lambda>x. minT x = minT t) vs = Some v \<and>
    pl_repr p' (remove_first (\<lambda>x. minT x = minT t) vs) \<and>
    pl_remove minT clean t w p =
      Some (case clean v w of
        (Inl e, w) \<Rightarrow> (Inl (Wrapf ''failed to clean resources managed by partition to be removed'' e), w, p')
      | (Inr _, w) \<Rightarrow> (Inr (), w, p'))"
proof -
  obtain us a v zs where sp: "represents p (us @ (a, v) # zs)" "vs = map snd us @ v # map snd zs"
    "find (\<lambda>x. minT x = minT t) vs = Some v" "\<forall>u \<in> set (map snd us). \<not> minT u = minT t" "minT v = minT t"
    "find_node (pl_fuel p) minT t p None (newIterator p) =
       Some (Some (if us = [] then None else Some (fst (last us)), a, v, At (Some a)))"
    using assms(1,2) by (rule pl_repr_split)
  let ?k = "int (length us + length zs)"
  let ?p' = "(unlink (if us = [] then None else Some (fst (last us))) (getNext p a) p)\<lparr>pl_numPartitions := ?k\<rparr>"
  have num: "pl_numPartitions (unlink prev nx p) = pl_numPartitions p" for prev nx
    by (simp add: unlink_def setHead_def setTail_def setNext_def split: option.splits)
  have "wrap64 (pl_numPartitions p - 1) = ?k" "0 < pl_size p"
    using represents_split(6) [OF sp(1)] assms(3) sp(2) by (simp_all add: int64_range_def pl_size_def)
  hence "pl_remove minT clean t w p = Some (case clean v w of
        (Inl e, w) \<Rightarrow> (Inl (Wrapf ''failed to clean resources managed by partition to be removed'' e), w, ?p')
      | (Inr _, w) \<Rightarrow> (Inr (), w, ?p'))"
    using sp(6) by (simp add: pl_remove_def num Let_def split: prod.splits sum.splits)
  moreover have "pl_repr ?p' (map snd us @ map snd zs)"
    using represents_unlink [OF sp(1) refl] unfolding pl_repr_def by (intro exI conjI) (assumption, simp)
  moreover have "remove_first (\<lambda>x. minT x = minT t) vs = map snd us @ map snd zs"
    unfolding sp(2) by (rule first_append(1) [OF sp(4,5)])
  ultimately show ?thesis using sp(3) by (intro exI [of _ v] exI [of _ ?p']) simp
qed

lemma pl_swap_found:
  assumes "pl_repr p vs" "\<exists>v \<in> set vs. minT v = minT t"
  shows "\<exists>p'. pl_swap minT t new p = Some (Inr (), p') \<and>
    pl_repr p' (replace_first (\<lambda>x. minT x = minT t) new vs)"
proof -
  obtain us a v zs where sp: "represents p (us @ (a, v) # zs)" "vs = map snd us @ v # map snd zs"
    "find (\<lambda>x. minT x = minT t) vs = Some v" "\<forall>u \<in> set (map snd us). \<not> minT u = minT t" "minT v = minT t"
    "find_node (pl_fuel p) minT t p None (newIterator p) =
       Some (Some (if us = [] then None else Some (fst (last us)), a, v, At (Some a)))"
    using assms by (rule pl_repr_split)
  have sz: "0 < pl_size p"
    using represents_split(6) [OF sp(1)] by (simp add: pl_size_def)
  let ?q = "snd (new_node new (getNext p a) p)" and ?prev = "if us = [] then None else Some (fst (last us))"
  let ?p' = "relink ?prev (currentNode (snd (iter_next ?q (At (Some a))))) (pl_fresh p) ?q"
  have "pl_swap minT t new p = Some (Inr (), ?p')"
    using sp(6) sz by (simp add: pl_swap_def new_node_def split_beta)
  moreover have "pl_repr ?p' (map snd us @ new # map snd zs)"
    unfolding pl_repr_def by (intro exI conjI) (rule represents_relink [OF sp(1)], simp)
  moreover have "replace_first (\<lambda>x. minT x = minT t) new vs = map snd us @ new # map snd zs"
    unfolding sp(2) by (rule first_append(2) [OF sp(4,5)])
  ultimately show ?thesis by (intro exI [of _ ?p']) simp
qed

lemma pl_absent:
  assumes "pl_repr p vs" "\<not> (\<exists>v \<in> set vs. minT v = minT t)"
  shows "\<exists>msg. pl_remove minT clean t w p = Some (Inl (Errorf msg), w, p)"
    "\<exists>msg. pl_swap minT t new p = Some (Inl (Errorf msg), p)"
  using pl_repr_absent [OF assms] by (simp_all add: pl_remove_def pl_swap_def)

subsection \<open>Iterating while the list changes\<close>

text \<open>
  A client may iterate while it removes or swaps the node it is at: the operation changes nodes
  in front of that node only, so its next pointer and the nodes behind it stay.
\<close>

lemma found_before:
  assumes "minT t = minT (snd x)"
  obtains us b v ws where "ys @ [x] = us @ (b, v) # ws" "minT v = minT t" "\<forall>u \<in> snd ` set us. minT u \<noteq> minT t"
    "fst x \<in> insert b (fst ` set ws)"
proof -
  have ex: "\<exists>v \<in> snd ` set (ys @ [x]). minT v = minT t" using assms by simp
  obtain us a v zs where sp: "ys @ [x] = us @ (a, v) # zs" "minT v = minT t" "\<forall>u \<in> snd ` set us. minT u \<noteq> minT t"
    using split_first [where P = "\<lambda>v. minT v = minT t", OF ex] by auto
  moreover have "fst x \<in> insert a (fst ` set zs)"
    using sp(1) by (cases zs rule: rev_cases) (auto simp: append_eq_append_conv2)
  ultimately show ?thesis by (rule that)
qed

lemma find_node_represents:
  assumes "represents p (us @ (b, v) # zs)" "\<forall>u \<in> snd ` set us. minT u \<noteq> minT t" "minT v = minT t"
  shows "find_node (pl_fuel p) minT t p None (newIterator p) =
       Some (Some (if us = [] then None else Some (fst (last us)), b, v, At (Some b)))"
proof -
  have seg: "seg (pl_nodes p) (ahead p (newIterator p)) (us @ (b, v) # zs) None" "length us < pl_fuel p"
    using assms(1) represents_length [OF assms(1)] by (simp_all add: represents_def newIterator_def pl_fuel_def)
  show ?thesis using find_node_some [where prev = None, OF seg(1) assms(2,3) seg(2)] by simp
qed

text \<open>Nodes from the found one on are not written.\<close>

lemma unlink_frame:
  assumes "represents p (us @ (b, v) # zs)" "c \<in> insert b (fst ` set zs)"
  shows "pl_nodes (unlink (if us = [] then None else Some (fst (last us))) nx p) c = pl_nodes p c"
    "pl_nodes (relink (if us = [] then None else Some (fst (last us))) nx n (snd (new_node w e p))) c = pl_nodes p c"
proof -
  have d: "distinct (map fst us @ b # map fst zs)" using represents_split(4) [OF assms(1)] .
  have ne: "us \<noteq> [] \<Longrightarrow> fst (last us) \<noteq> c"
    using d assms(2) by (metis (no_types, lifting) Un_iff disjoint_iff distinct_append insert_iff last_in_set list.set_map list.simps(15) list.simps(9) imageI)
  have "pl_nodes p c \<noteq> None"
    using seg_known [of "pl_nodes p" "pl_head p" "us @ (b, v) # zs" None c] assms by (auto simp: represents_def)
  hence "c \<noteq> pl_fresh p" using represents_split(5) [OF assms(1), of c] by auto
  thus "pl_nodes (unlink (if us = [] then None else Some (fst (last us))) nx p) c = pl_nodes p c"
    "pl_nodes (relink (if us = [] then None else Some (fst (last us))) nx n (snd (new_node w e p))) c = pl_nodes p c"
    using ne by (auto simp: unlink_def relink_def setHead_def setTail_def setNext_def new_node_def split: option.splits)
qed

lemma frame_seg:
  assumes "represents p (ys @ (a, t) # zs)" "\<And>c. c \<in> insert a (fst ` set zs) \<Longrightarrow> pl_nodes p' c = pl_nodes p c"
  shows "seg (pl_nodes p') (getNext p' a) zs None"
proof -
  have "getNext p' a = getNext p a" using assms(2) by (simp add: getNext_def)
  moreover have "seg (pl_nodes p') nd zs None = seg (pl_nodes p) nd zs None" for nd
    by (rule seg_cong) (use assms(2) in auto)
  ultimately show ?thesis using represents_split(3) [OF assms(1)] by simp
qed

lemma pl_remove_at:
  assumes rep: "represents p (ys @ (a, t) # zs)" and len: "int (length ys + length zs) + 1 < 2 ^ 63"
  obtains us b v ws p' where "ys @ [(a, t)] = us @ (b, v) # ws" "minT v = minT t"
    "\<forall>u \<in> snd ` set us. minT u \<noteq> minT t" "represents p' (us @ ws @ zs)" "seg (pl_nodes p') (getNext p' a) zs None"
    "pl_fresh p' = pl_fresh p"
    "pl_remove minT clean t w p =
      Some (case clean v w of
        (Inl e, w) \<Rightarrow> (Inl (Wrapf ''failed to clean resources managed by partition to be removed'' e), w, p')
      | (Inr _, w) \<Rightarrow> (Inr (), w, p'))"
proof -
  obtain us b v ws where sp: "ys @ [(a, t)] = us @ (b, v) # ws" "minT v = minT t" "\<forall>u \<in> snd ` set us. minT u \<noteq> minT t"
    "a \<in> insert b (fst ` set ws)"
    by (rule found_before [of minT t "(a, t)"]) simp_all
  have eq: "ys @ (a, t) # zs = us @ (b, v) # ws @ zs"
    using arg_cong [OF sp(1), of "\<lambda>xs. xs @ zs"] by simp
  have rep': "represents p (us @ (b, v) # ws @ zs)" using rep eq by simp
  let ?k = "int (length us + length (ws @ zs))" and ?prev = "if us = [] then None else Some (fst (last us))"
  let ?p' = "(unlink ?prev (getNext p b) p)\<lparr>pl_numPartitions := ?k\<rparr>"
  have num: "pl_numPartitions (unlink prev nx p) = pl_numPartitions p" "pl_fresh (unlink prev nx p) = pl_fresh p" for prev nx
    by (simp_all add: unlink_def setHead_def setTail_def setNext_def split: option.splits)
  have "length us + length (ws @ zs) = length ys + length zs"
    using arg_cong [OF eq, of length] by simp
  hence "wrap64 (pl_numPartitions p - 1) = ?k" "0 < pl_size p"
    using represents_split(6) [OF rep'] len by (simp_all add: int64_range_def pl_size_def)
  hence "pl_remove minT clean t w p = Some (case clean v w of
        (Inl e, w) \<Rightarrow> (Inl (Wrapf ''failed to clean resources managed by partition to be removed'' e), w, ?p')
      | (Inr _, w) \<Rightarrow> (Inr (), w, ?p'))"
    using find_node_represents [OF rep' sp(3,2)] num by (simp add: pl_remove_def Let_def split: prod.splits sum.splits)
  moreover have "c \<in> insert b (fst ` set (ws @ zs))" if "c \<in> insert a (fst ` set zs)" for c
    using that sp(4) by auto
  hence "seg (pl_nodes ?p') (getNext ?p' a) zs None"
    by (intro frame_seg [OF rep]) (use unlink_frame(1) [OF rep'] in simp)
  moreover have "pl_fresh ?p' = pl_fresh p" using num by simp
  moreover have "represents ?p' (us @ ws @ zs)" using represents_unlink [OF rep' refl] .
  ultimately show ?thesis using that sp(1-3) by blast
qed

lemma pl_swap_at:
  assumes rep: "represents p (ys @ (a, t) # zs)"
  obtains us b v ws p' where "ys @ [(a, t)] = us @ (b, v) # ws" "minT v = minT t"
    "\<forall>u \<in> snd ` set us. minT u \<noteq> minT t" "represents p' (us @ (pl_fresh p, new) # ws @ zs)"
    "seg (pl_nodes p') (getNext p' a) zs None" "pl_swap minT t new p = Some (Inr (), p')"
proof -
  obtain us b v ws where sp: "ys @ [(a, t)] = us @ (b, v) # ws" "minT v = minT t" "\<forall>u \<in> snd ` set us. minT u \<noteq> minT t"
    "a \<in> insert b (fst ` set ws)"
    by (rule found_before [of minT t "(a, t)"]) simp_all
  have eq: "ys @ (a, t) # zs = us @ (b, v) # ws @ zs"
    using arg_cong [OF sp(1), of "\<lambda>xs. xs @ zs"] by simp
  have rep': "represents p (us @ (b, v) # ws @ zs)" using rep eq by simp
  let ?q = "snd (new_node new (getNext p b) p)" and ?prev = "if us = [] then None else Some (fst (last us))"
  let ?p' = "relink ?prev (currentNode (snd (iter_next ?q (At (Some b))))) (pl_fresh p) ?q"
  have sz: "0 < pl_size p" using represents_split(6) [OF rep'] by (simp add: pl_size_def)
  have "pl_swap minT t new p = Some (Inr (), ?p')"
    using find_node_represents [OF rep' sp(3,2)] sz by (simp add: pl_swap_def new_node_def split_beta)
  moreover have "c \<in> insert b (fst ` set (ws @ zs))" if "c \<in> insert a (fst ` set zs)" for c
    using that sp(4) by auto
  hence "seg (pl_nodes ?p') (getNext ?p' a) zs None"
    by (intro frame_seg [OF rep] unlink_frame(2) [OF rep'])
  moreover have "represents ?p' (us @ (pl_fresh p, new) # ws @ zs)" using represents_relink [OF rep'] .
  ultimately show ?thesis using that sp(1-3) by blast
qed

section \<open>The contract of a partition list\<close>

text \<open>
  What the storage relies on: an insertion adds to the front, a removal and a swap hit the first
  partition with the target's minimum timestamp, and an iteration visits the list in order.
\<close>

locale partition_list =
  fixes rep :: "'l \<Rightarrow> 'p list \<Rightarrow> bool"
    and minT :: "'p \<Rightarrow> int64"
    and clean :: "'p \<Rightarrow> 'w \<Rightarrow> unit result \<times> 'w"
    and ins :: "'p \<Rightarrow> 'l \<Rightarrow> 'l"
    and rem :: "'p \<Rightarrow> 'w \<Rightarrow> 'l \<Rightarrow> (unit result \<times> 'w \<times> 'l) option"
    and swp :: "'p \<Rightarrow> 'p \<Rightarrow> 'l \<Rightarrow> (unit result \<times> 'l) option"
    and vals :: "'l \<Rightarrow> 'p list option"
  assumes rep_ins: "rep l vs \<Longrightarrow> int (length vs) + 1 < 2 ^ 63 \<Longrightarrow> rep (ins v l) (v # vs)"
    and rem_found: "rep l vs \<Longrightarrow> int (length vs) < 2 ^ 63 \<Longrightarrow> \<exists>v \<in> set vs. minT v = minT t \<Longrightarrow>
      \<exists>v l' r. find (\<lambda>x. minT x = minT t) vs = Some v \<and> rem t w l = Some (r, snd (clean v w), l') \<and>
        rep l' (remove_first (\<lambda>x. minT x = minT t) vs) \<and> (r = Inr () \<longleftrightarrow> fst (clean v w) = Inr ())"
    and rem_absent: "rep l vs \<Longrightarrow> \<not> (\<exists>v \<in> set vs. minT v = minT t) \<Longrightarrow> \<exists>e. rem t w l = Some (Inl e, w, l)"
    and swp_found: "rep l vs \<Longrightarrow> \<exists>v \<in> set vs. minT v = minT t \<Longrightarrow>
      \<exists>l'. swp t new l = Some (Inr (), l') \<and> rep l' (replace_first (\<lambda>x. minT x = minT t) new vs)"
    and vals_rep: "rep l vs \<Longrightarrow> vals l = Some vs"
begin

text \<open>The documented order: newest first.\<close>

abbreviation newest_first :: "'p list \<Rightarrow> bool" where
  "newest_first \<equiv> sorted_wrt (\<lambda>x y. minT y \<le> minT x)"

lemma newest_first_ins:
  "rep l vs \<Longrightarrow> int (length vs) + 1 < 2 ^ 63 \<Longrightarrow> newest_first vs \<Longrightarrow> (\<And>x. x \<in> set vs \<Longrightarrow> minT x \<le> minT v) \<Longrightarrow>
   \<exists>ws. vals (ins v l) = Some ws \<and> newest_first ws"
  using rep_ins [of l vs v] vals_rep [of "ins v l" "v # vs"] by simp

lemma set_remove_first: "set (remove_first P vs) \<subseteq> set vs"
  by (induction vs) auto

lemma newest_first_remove_first: "newest_first vs \<Longrightarrow> newest_first (remove_first P vs)"
proof (induction vs)
  case (Cons v vs)
  thus ?case using set_remove_first [of P vs] by auto
qed simp

lemma newest_first_rem:
  assumes "rep l vs" "int (length vs) < 2 ^ 63" "newest_first vs" "rem t w l = Some (r, w', l')"
  shows "\<exists>ws. vals l' = Some ws \<and> newest_first ws"
proof (cases "\<exists>v \<in> set vs. minT v = minT t")
  case True
  then obtain v l1 r1 where "rem t w l = Some (r1, snd (clean v w), l1)" "rep l1 (remove_first (\<lambda>x. minT x = minT t) vs)"
    using rem_found [OF assms(1,2)] by blast
  thus ?thesis using assms(3,4) newest_first_remove_first vals_rep by auto
next
  case False
  then obtain e where "rem t w l = Some (Inl e, w, l)" using rem_absent [OF assms(1)] by blast
  thus ?thesis using assms vals_rep by auto
qed

text \<open>Partitions with different minimum timestamps: exactly the target goes.\<close>

lemma set_remove_first_inj:
  "distinct (map minT vs) \<Longrightarrow> t \<in> set vs \<Longrightarrow> set (remove_first (\<lambda>x. minT x = minT t) vs) = set vs - {t}"
  by (induction vs) (auto simp: inj_on_def)

lemma rem_exact:
  assumes "rep l vs" "int (length vs) < 2 ^ 63" "distinct (map minT vs)" "t \<in> set vs"
  shows "\<exists>r w' l' ws. rem t w l = Some (r, w', l') \<and> vals l' = Some ws \<and> set ws = set vs - {t}"
  using rem_found [OF assms(1,2), of t w] set_remove_first_inj [OF assms(3,4)] vals_rep assms(4) by blast

end

interpretation heap_list: partition_list pl_repr minT clean pl_insert "pl_remove minT clean" "pl_swap minT" pl_values
  for minT :: "'p \<Rightarrow> int64" and clean :: "'p \<Rightarrow> 'w \<Rightarrow> unit result \<times> 'w"
proof unfold_locales
  fix p :: "'p partitionListImpl" and vs t and w :: 'w
  assume "pl_repr p vs" "int (length vs) < 2 ^ 63" "\<exists>v \<in> set vs. minT v = minT t"
  then obtain v p' where "find (\<lambda>x. minT x = minT t) vs = Some v" "pl_repr p' (remove_first (\<lambda>x. minT x = minT t) vs)"
    "pl_remove minT clean t w p = Some (case clean v w of
        (Inl e, w) \<Rightarrow> (Inl (Wrapf ''failed to clean resources managed by partition to be removed'' e), w, p')
      | (Inr _, w) \<Rightarrow> (Inr (), w, p'))"
    using pl_remove_found [of p vs minT t clean w] by blast
  thus "\<exists>v l' r. find (\<lambda>x. minT x = minT t) vs = Some v \<and>
      pl_remove minT clean t w p = Some (r, snd (clean v w), l') \<and>
      pl_repr l' (remove_first (\<lambda>x. minT x = minT t) vs) \<and> (r = Inr () \<longleftrightarrow> fst (clean v w) = Inr ())"
    by (cases "clean v w"; cases "fst (clean v w)") auto
next
  fix p :: "'p partitionListImpl" and vs t and w :: 'w
  assume "pl_repr p vs" "\<not> (\<exists>v \<in> set vs. minT v = minT t)"
  thus "\<exists>e. pl_remove minT clean t w p = Some (Inl e, w, p)"
    using pl_absent(1) [of p vs minT t clean w] by auto
qed (rule pl_repr_insert pl_swap_found pl_repr_values; assumption)+

section \<open>Properties\<close>

text \<open>
  C18: Removing a partition from a list always returns; it unlinks the first node whose partition
  has the target's minimum timestamp, at the head, in the middle or at the end, keeps the others
  in order, decrements the count, and cleans the partition it unlinked, whose error it hands on.
\<close>

theorem remove_refines:
  assumes "pl_repr p vs" and "int (length vs) < 2 ^ 63" and "\<exists>v \<in> set vs. minT v = minT t"
  shows "\<exists>v r p'. find (\<lambda>x. minT x = minT t) vs = Some v \<and>
    pl_remove minT clean t w p = Some (r, snd (clean v w), p') \<and>
    pl_repr p' (remove_first (\<lambda>x. minT x = minT t) vs) \<and> pl_size p' = pl_size p - 1 \<and>
    (r = Inr () \<longleftrightarrow> fst (clean v w) = Inr ())"
proof -
  obtain v p' r where v: "find (\<lambda>x. minT x = minT t) vs = Some v"
    "pl_remove minT clean t w p = Some (r, snd (clean v w), p')"
    "pl_repr p' (remove_first (\<lambda>x. minT x = minT t) vs)" "r = Inr () \<longleftrightarrow> fst (clean v w) = Inr ()"
    using heap_list.rem_found [OF assms, of clean w] by auto
  have "Suc (length (remove_first (\<lambda>x. minT x = minT t) vs)) = length vs"
    using assms(3) by (induction vs) auto
  hence "pl_size p' = pl_size p - 1"
    using pl_repr_size [OF assms(1)] pl_repr_size [OF v(3)] by simp
  thus ?thesis using v by auto
qed

definition two_partitions :: "int partitionListImpl" where
  "two_partitions = pl_insert 7 (pl_insert 5 newPartitionList)"

lemma two_partitions_repr: "pl_repr two_partitions [7, 5]"
  unfolding two_partitions_def by (intro pl_repr_insert pl_repr_new) simp_all

theorem remove_refines_witness:
  "\<exists>p'. pl_remove id (\<lambda>_ w. (Inr (), w)) 5 () two_partitions = Some (Inr (), (), p') \<and> pl_repr p' [7]"
  using remove_refines [of two_partitions "[7, 5]" id 5 "\<lambda>_ w. (Inr (), w)" "()"] two_partitions_repr by auto

text \<open>
  C20: Swapping a partition always returns and puts the new partition in the place of the first
  one with the old partition's minimum timestamp; the other partitions, their order and the
  count stay the same.
\<close>

theorem swap_refines:
  assumes "pl_repr p vs" and "\<exists>v \<in> set vs. minT v = minT old"
  shows "\<exists>p'. pl_swap minT old new p = Some (Inr (), p') \<and>
    pl_repr p' (replace_first (\<lambda>x. minT x = minT old) new vs) \<and> pl_size p' = pl_size p"
proof -
  obtain p' where p': "pl_swap minT old new p = Some (Inr (), p')"
    "pl_repr p' (replace_first (\<lambda>x. minT x = minT old) new vs)"
    using heap_list.swp_found [OF assms] by auto
  have "length (replace_first (\<lambda>x. minT x = minT old) new vs) = length vs" by (induction vs) auto
  thus ?thesis using p' pl_repr_size [OF assms(1)] pl_repr_size [OF p'(2)] by auto
qed

theorem swap_refines_witness:
  "\<exists>p'. pl_swap fst (5::int, ''memory'') (5, ''disk'')
      (pl_insert (7, ''memory'') (pl_insert (5, ''memory'') newPartitionList)) = Some (Inr (), p') \<and>
    pl_repr p' [(7, ''memory''), (5, ''disk'')]"
proof -
  have "pl_repr (pl_insert (7::int, ''memory'') (pl_insert (5, ''memory'') newPartitionList)) [(7, ''memory''), (5, ''memory'')]"
    by (intro pl_repr_insert pl_repr_new) simp_all
  from swap_refines [OF this, of fst "(5, ''memory'')" "(5, ''disk'')"] show ?thesis by auto
qed

text \<open>
  A partition that is not in the list is an error of both operations, and the list stays as
  it was.
\<close>

theorem absent_partition_error:
  assumes "pl_repr p vs" and "\<forall>v \<in> set vs. minT v \<noteq> minT t"
  shows "(\<exists>msg. pl_remove minT clean t w p = Some (Inl (Errorf msg), w, p)) \<and>
    (\<exists>msg. pl_swap minT t new p = Some (Inl (Errorf msg), p))"
  using pl_absent [OF assms(1)] assms(2) by simp

theorem absent_partition_error_witness:
  "(\<exists>msg. pl_remove id (\<lambda>_ w. (Inr (), w)) 6 () two_partitions = Some (Inl (Errorf msg), (), two_partitions)) \<and>
   (\<exists>msg. pl_swap id 6 8 two_partitions = Some (Inl (Errorf msg), two_partitions))"
  using absent_partition_error [of two_partitions "[7, 5]" id 6 "\<lambda>_ w. (Inr (), w)" "()" 8] two_partitions_repr
  by simp

text \<open>
  A list built by insertions has the last partition as its head and an iteration visits the
  partitions from the newest to the oldest, each once; it ends.
\<close>

theorem insert_iterate:
  assumes "int (length vs) < 2 ^ 63"
  shows "pl_values (foldr pl_insert vs newPartitionList) = Some vs \<and>
    getHead (foldr pl_insert vs newPartitionList) = (case vs of [] \<Rightarrow> None | v # _ \<Rightarrow> Some v) \<and>
    pl_size (foldr pl_insert vs newPartitionList) = int (length vs)"
proof -
  have "pl_repr (foldr pl_insert vs newPartitionList) vs"
    using assms by (induction vs) (simp_all add: pl_repr_new pl_repr_insert)
  from pl_repr_values [OF this] pl_repr_head [OF this] pl_repr_size [OF this] show ?thesis by simp
qed

theorem insert_iterate_witness:
  "pl_values two_partitions = Some [7, 5] \<and> getHead two_partitions = Some 7 \<and> pl_size two_partitions = 2"
  using insert_iterate [of "[7, 5::int]"] by (simp add: two_partitions_def)

fun join_arrows :: "string list \<Rightarrow> string" where
  "join_arrows [] = ''''"
| "join_arrows [s] = s"
| "join_arrows (s # ss) = s @ ''->'' @ join_arrows ss"

lemma TrimSuffix_append [simp]: "TrimSuffix (s @ t) t = s"
  by (simp add: TrimSuffix_def)

lemma concat_arrows: "ss \<noteq> [] \<Longrightarrow> concat (map (\<lambda>s. s @ ''->'') ss) = join_arrows ss @ ''->''"
  by (induction ss rule: join_arrows.induct) simp_all

text \<open>
  The text of a list is the kinds of its partitions, newest first, joined by \<open>->\<close>, with no
  arrow after the last.
\<close>

theorem String_joins:
  assumes "pl_repr p vs"
  shows "pl_String kind p = Some (join_arrows (map kind vs))"
proof (cases "vs = []")
  case True
  thus ?thesis using pl_repr_values [OF assms] by (simp add: pl_String_def TrimSuffix_def)
next
  case False
  hence "concat (map (\<lambda>v. kind v @ ''->'') vs) = join_arrows (map kind vs) @ ''->''"
    using concat_arrows [of "map kind vs"] by (simp add: comp_def)
  thus ?thesis using pl_repr_values [OF assms] TrimSuffix_append by (simp add: pl_String_def)
qed

theorem String_joins_witness:
  "pl_String (\<lambda>k. if k = 7 then ''[Memory Partition]'' else ''[Disk Partition]'') two_partitions
   = Some ''[Memory Partition]->[Disk Partition]''"
  using String_joins [OF two_partitions_repr, of "\<lambda>k. if k = 7 then ''[Memory Partition]'' else ''[Disk Partition]''"]
  by simp

end
