(* ===== verification/Storage.thy ===== *)
theory Storage
  imports Flush Write_Ahead_Log Partition_List
begin

text \<open>
  \<open>src/storage.go\<close>: the storage, which puts the components together. Its partitions are objects
  reached through references, so the linked list holds references (natural numbers) and \<open>s_parts\<close>
  is the heap of partitions; a swap puts a new object in the place of the old one. The file system
  and the write-ahead log are part of the state.

  Each operation is a function on the state. The goroutine that a new head partition starts is a
  pending flush, counted in \<open>s_pending\<close>, and runs as an operation of its own; the periodic removal
  of expired partitions is \<open>removeExpiredPartitions\<close> as an operation of its own. The tokens in the
  channel of workers are counted; whether a busy worker gives back its token before the write
  timeout is an argument. \<open>clock\<close> gives the time: of the row with an index in the partition with
  a reference, or of the partition with a reference. A result \<open>None\<close> means that following the
  pointers of the list does not end.

  The list never holds a nil partition: \<open>newPartition\<close> replaces nil before it inserts.
\<close>

section \<open>Partitions of any kind\<close>

text \<open>\<open>fakePartition\<close> is the double of the tests.\<close>

record fakePartition =
  fk_minT :: int64
  fk_maxT :: int64
  fk_numPoints :: int
  fk_IsActive :: bool
  fk_err :: "go_error option"

datatype partition = MemP memoryPartition | DiskP diskPartition | FakeP fakePartition

fun minTimestamp :: "partition \<Rightarrow> int64" where
  "minTimestamp (MemP m) = mem_minTimestamp m"
| "minTimestamp (DiskP d) = dk_minTimestamp d"
| "minTimestamp (FakeP f) = fk_minT f"

fun maxTimestamp :: "partition \<Rightarrow> int64" where
  "maxTimestamp (MemP m) = mem_maxTimestamp m"
| "maxTimestamp (DiskP d) = dk_maxTimestamp d"
| "maxTimestamp (FakeP f) = fk_maxT f"

fun part_size :: "partition \<Rightarrow> int" where
  "part_size (MemP m) = mem_size m"
| "part_size (DiskP d) = dk_size d"
| "part_size (FakeP f) = fk_numPoints f"

fun active :: "partition \<Rightarrow> bool" where
  "active (MemP m) = mem_active m"
| "active (DiskP d) = dk_active d"
| "active (FakeP f) = fk_IsActive f"

fun expired :: "Time \<Rightarrow> partition \<Rightarrow> bool" where
  "expired now (MemP m) = mem_expired m"
| "expired now (DiskP d) = dk_expired now d"
| "expired now (FakeP f) = False"

fun clean :: "partition \<Rightarrow> meta filesys \<Rightarrow> unit result \<times> meta filesys" where
  "clean (MemP m) fs = (fst (mem_clean m), fs)"
| "clean (DiskP d) fs = dk_clean d fs"
| "clean (FakeP f) fs = (Inr (), fs)"

text \<open>Selecting from a memory partition may store an empty metric in it.\<close>

fun selectDataPoints ::
  "Runtime \<Rightarrow> Time \<Rightarrow> string \<Rightarrow> Label list \<Rightarrow> int64 \<Rightarrow> int64 \<Rightarrow> partition \<Rightarrow> DataPoint list result \<times> partition" where
  "selectDataPoints R now metric labels start end (MemP m) =
     (let (r, m) = mem_selectDataPoints R metric labels start end m in (r, MemP m))"
| "selectDataPoints R now metric labels start end (DiskP d) =
     (dk_selectDataPoints R now metric labels start end d, DiskP d)"
| "selectDataPoints R now metric labels start end (FakeP f) =
     (case fk_err f of None \<Rightarrow> Inr [] | Some e \<Rightarrow> Inl e, FakeP f)"

section \<open>The write-ahead log of any kind\<close>

datatype wal = NopWAL | DiskWAL diskWAL

definition lift_wal ::
  "(diskWAL \<Rightarrow> meta filesys \<Rightarrow> unit result \<times> diskWAL \<times> meta filesys) \<Rightarrow> wal \<times> meta filesys
   \<Rightarrow> unit result \<times> wal \<times> meta filesys" where
  "lift_wal f wfs =
     (case wfs of
        (NopWAL, fs) \<Rightarrow> (Inr (), NopWAL, fs)
      | (DiskWAL w, fs) \<Rightarrow> let (r, w, fs) = f w fs in (r, DiskWAL w, fs))"

definition any_append :: "Runtime \<Rightarrow> Row list \<Rightarrow> wal \<times> meta filesys \<Rightarrow> unit result \<times> wal \<times> meta filesys" where
  "any_append R rows = lift_wal (wal_append R operationInsert rows)"

fun any_insertRows ::
  "Runtime \<Rightarrow> (nat \<Rightarrow> Time) \<Rightarrow> Row list \<Rightarrow> wal \<times> meta filesys \<Rightarrow> partition
   \<Rightarrow> Row list result \<times> (wal \<times> meta filesys) \<times> partition" where
  "any_insertRows R clock rows w (MemP m) =
     (let (r, w, m) = mem_insertRows R clock (any_append R) rows w m in (r, w, MemP m))"
| "any_insertRows R clock rows w (DiskP d) = (dk_insertRows rows, w, DiskP d)"
| "any_insertRows R clock rows w (FakeP f) =
     (case fk_err f of None \<Rightarrow> Inr [] | Some e \<Rightarrow> Inl e, w, FakeP f)"

section \<open>The storage\<close>

record storage =
  s_partitionList :: "nat partitionListImpl"
  s_parts :: "nat \<Rightarrow> partition"
  s_nextRef :: nat
  s_walBufferedSize :: int
  s_wal :: wal
  s_partitionDuration :: Duration
  s_retention :: Duration
  s_timestampPrecision :: TimestampPrecision
  s_dataPath :: path
  s_writeTimeout :: Duration
  s_workersLimit :: nat
  s_workers :: nat
  s_pending :: nat
  s_done :: bool
  s_ticker :: bool
  s_fs :: "meta filesys"

definition writablePartitionsNum :: nat where "writablePartitionsNum = 2"
definition walDirName :: string where "walDirName = ''wal''"

text \<open>A panic is not an error that is wrapped.\<close>

definition wrap :: "string \<Rightarrow> go_error \<Rightarrow> go_error" where
  "wrap msg e = (if is_panic e then e else Wrapf msg e)"

definition wrapS :: "string \<Rightarrow> ('a result \<times> 's) option \<Rightarrow> ('a result \<times> 's) option" where
  "wrapS msg x = map_option (map_prod (map_sum (wrap msg) id) id) x"

definition thenS ::
  "('a result \<times> 's) option \<Rightarrow> ('a \<Rightarrow> 's \<Rightarrow> ('b result \<times> 's) option) \<Rightarrow> ('b result \<times> 's) option" where
  "thenS x k = (case x of None \<Rightarrow> None | Some (Inl e, s) \<Rightarrow> Some (Inl e, s) | Some (Inr a, s) \<Rightarrow> k a s)"

definition on_wal ::
  "(diskWAL \<Rightarrow> meta filesys \<Rightarrow> unit result \<times> diskWAL \<times> meta filesys) \<Rightarrow> storage \<Rightarrow> unit result \<times> storage" where
  "on_wal f s = (let (r, w, fs) = lift_wal f (s_wal s, s_fs s) in (r, s\<lparr>s_wal := w, s_fs := fs\<rparr>))"

definition inMemoryMode :: "storage \<Rightarrow> bool" where
  "inMemoryMode s \<longleftrightarrow> s_dataPath s = []"

text \<open>The list's operations on the references, through the heap of partitions.\<close>

definition ref_minT :: "storage \<Rightarrow> nat \<Rightarrow> int64" where
  "ref_minT s r = minTimestamp (s_parts s r)"

definition list_remove :: "nat \<Rightarrow> storage \<Rightarrow> (unit result \<times> storage) option" where
  "list_remove r s =
     (case pl_remove (ref_minT s) (\<lambda>r. clean (s_parts s r)) r (s_fs s) (s_partitionList s) of
        None \<Rightarrow> None
      | Some (res, fs, l) \<Rightarrow> Some (res, s\<lparr>s_fs := fs, s_partitionList := l\<rparr>))"

definition new_ref :: "partition \<Rightarrow> storage \<Rightarrow> nat \<times> storage" where
  "new_ref p s =
     (s_nextRef s, s\<lparr>s_parts := (s_parts s)(s_nextRef s := p), s_nextRef := s_nextRef s + 1\<rparr>)"

definition list_swap :: "nat \<Rightarrow> partition \<Rightarrow> storage \<Rightarrow> (unit result \<times> storage) option" where
  "list_swap r p s =
     (let (new, s) = new_ref p s in
      case pl_swap (ref_minT s) r new (s_partitionList s) of
        None \<Rightarrow> None
      | Some (res, l) \<Rightarrow> Some (res, s\<lparr>s_partitionList := l\<rparr>))"

definition newPartition :: "partition option \<Rightarrow> bool \<Rightarrow> storage \<Rightarrow> unit result \<times> storage" where
  "newPartition p punctuateWal s =
     (let p = (case p of Some p \<Rightarrow> p
               | None \<Rightarrow> MemP (newMemoryPartition (s_partitionDuration s) (s_timestampPrecision s)));
          (r, s) = new_ref p s;
          s = s\<lparr>s_partitionList := pl_insert r (s_partitionList s)\<rparr>
      in if punctuateWal then on_wal wal_punctuate s else (Inr (), s))"

section \<open>Writing\<close>

definition ensureActiveHead :: "storage \<Rightarrow> unit result \<times> storage" where
  "ensureActiveHead s =
     (if (case getHead (s_partitionList s) of None \<Rightarrow> False | Some r \<Rightarrow> active (s_parts s r))
      then (Inr (), s)
      else case newPartition None True s of
        (Inl e, s) \<Rightarrow> (Inl e, s)
      | (Inr _, s) \<Rightarrow> (Inr (), s\<lparr>s_pending := s_pending s + 1\<rparr>))"

fun insert_loop ::
  "Runtime \<Rightarrow> (nat \<Rightarrow> nat \<Rightarrow> Time) \<Rightarrow> nat \<Rightarrow> iterator \<Rightarrow> Row list \<Rightarrow> storage \<Rightarrow> unit result \<times> storage" where
  "insert_loop R clock 0 it rowsToInsert s = (Inr (), s)"
| "insert_loop R clock (Suc n) it rowsToInsert s =
     (if rowsToInsert = [] then (Inr (), s)
      else let (more, it) = iter_next (s_partitionList s) it in
        if \<not> more then (Inr (), s)
        else case iter_value (s_partitionList s) it of
          None \<Rightarrow> (Inl (Panic ''nil partition''), s)
        | Some r \<Rightarrow>
            let (res, w, p) = any_insertRows R (clock r) rowsToInsert (s_wal s, s_fs s) (s_parts s r);
                s = s\<lparr>s_wal := fst w, s_fs := snd w, s_parts := (s_parts s)(r := p)\<rparr>
            in (case res of
                  Inl e \<Rightarrow> (Inl (wrap ''failed to insert rows'' e), s)
                | Inr outdatedRows \<Rightarrow> insert_loop R clock n it outdatedRows s))"

definition insert_rows ::
  "Runtime \<Rightarrow> (nat \<Rightarrow> nat \<Rightarrow> Time) \<Rightarrow> Row list \<Rightarrow> storage \<Rightarrow> unit result \<times> storage" where
  "insert_rows R clock rows s =
     (case ensureActiveHead s of
        (Inl e, s) \<Rightarrow> (Inl e, s)
      | (Inr _, s) \<Rightarrow>
          insert_loop R clock (min (nat (pl_size (s_partitionList s))) writablePartitionsNum)
            (newIterator (s_partitionList s)) rows s)"

text \<open>
  \<open>InsertRows\<close>: the token is taken at once, or from a worker that finishes in time (\<open>freed\<close>), or
  the write times out; it is given back in any case.
\<close>

definition with_token :: "(storage \<Rightarrow> unit result \<times> storage) \<Rightarrow> storage \<Rightarrow> unit result \<times> storage" where
  "with_token f s =
     (let (r, s) = f (s\<lparr>s_workers := s_workers s + 1\<rparr>) in (r, s\<lparr>s_workers := s_workers s - 1\<rparr>))"

definition InsertRows ::
  "Runtime \<Rightarrow> (nat \<Rightarrow> nat \<Rightarrow> Time) \<Rightarrow> bool \<Rightarrow> Row list \<Rightarrow> storage \<Rightarrow> unit result \<times> storage" where
  "InsertRows R clock freed rows s =
     (if s_workers s < s_workersLimit s then with_token (insert_rows R clock rows) s
      else if freed then with_token (insert_rows R clock rows) (s\<lparr>s_workers := s_workers s - 1\<rparr>)
      else (Inl (Errorf ''failed to write a data point, since it is overloaded with concurrent writers''), s))"

section \<open>Reading\<close>

fun select_loop ::
  "Runtime \<Rightarrow> (nat \<Rightarrow> Time) \<Rightarrow> string \<Rightarrow> Label list \<Rightarrow> int64 \<Rightarrow> int64 \<Rightarrow> nat list \<Rightarrow> DataPoint list
   \<Rightarrow> storage \<Rightarrow> DataPoint list result \<times> storage" where
  "select_loop R clock metric labels start end [] points s =
     (if points = [] then Inl ErrNoDataPoints else Inr points, s)"
| "select_loop R clock metric labels start end (r # refs) points s =
     (let part = s_parts s r in
      if minTimestamp part = 0 then select_loop R clock metric labels start end refs points s
      else if maxTimestamp part < start then
        (if points = [] then Inl ErrNoDataPoints else Inr points, s)
      else if end < minTimestamp part then select_loop R clock metric labels start end refs points s
      else
        let (res, part) = selectDataPoints R (clock r) metric labels start end part;
            s = s\<lparr>s_parts := (s_parts s)(r := part)\<rparr>
        in (case res of
              Inl e \<Rightarrow>
                if errors_Is e ErrNoDataPoints then select_loop R clock metric labels start end refs points s
                else (Inl (wrap ''failed to select data points'' e), s)
            | Inr ps \<Rightarrow> select_loop R clock metric labels start end refs (ps @ points) s))"

definition Select ::
  "Runtime \<Rightarrow> (nat \<Rightarrow> Time) \<Rightarrow> string \<Rightarrow> Label list \<Rightarrow> int64 \<Rightarrow> int64 \<Rightarrow> storage
   \<Rightarrow> (DataPoint list result \<times> storage) option" where
  "Select R clock metric labels start end s =
     (if metric = '''' then Some (Inl (Errorf ''metric must be set''), s)
      else if end \<le> start then Some (Inl (Errorf ''the given start is greater than end''), s)
      else case pl_values (s_partitionList s) of
        None \<Rightarrow> None
      | Some refs \<Rightarrow> Some (select_loop R clock metric labels start end refs [] s))"

section \<open>Flushing and removing partitions\<close>

text \<open>\<open>fmt.Sprintf("p-%d-%d", min, max)\<close>.\<close>

definition itoa_int :: "int \<Rightarrow> string" where
  "itoa_int k = (if k < 0 then ''-'' @ itoa (nat (- k)) else itoa (nat k))"

definition partition_dir :: "memoryPartition \<Rightarrow> string" where
  "partition_dir m = ''p-'' @ itoa_int (mp_minT m) @ ''-'' @ itoa_int (mp_maxT m)"

definition flush_partition ::
  "Runtime \<Rightarrow> Time \<Rightarrow> nat \<Rightarrow> memoryPartition \<Rightarrow> storage \<Rightarrow> (unit result \<times> storage) option" where
  "flush_partition R now r memPart s =
     (let dir = s_dataPath s @ [partition_dir memPart];
          (res, m, fs) = storage_flush R now dir memPart (s_fs s);
          s = s\<lparr>s_fs := fs, s_parts := (s_parts s)(r := MemP m)\<rparr>
      in case res of
           Inl e \<Rightarrow> Some (Inl (wrap ''failed to compact memory partition'' e), s)
         | Inr _ \<Rightarrow>
             let (res, fs) = openDiskPartition dir (s_retention s) (s_fs s);
                 s = s\<lparr>s_fs := fs\<rparr>
             in (case res of
                   Inl e \<Rightarrow>
                     if errors_Is e ErrNoDataPoints then wrapS ''failed to remove partition'' (list_remove r s)
                     else Some (Inl (wrap ''failed to generate disk partition'' e), s)
                 | Inr newPart \<Rightarrow>
                     thenS (wrapS ''failed to swap partitions'' (list_swap r (DiskP newPart) s))
                       (\<lambda>_ s. wrapS ''failed to remove oldest WAL segment'' (Some (on_wal wal_removeOldest s)))))"

text \<open>The iterator moves along the nodes while the list around it changes.\<close>

fun flush_loop ::
  "nat \<Rightarrow> Runtime \<Rightarrow> (nat \<Rightarrow> Time) \<Rightarrow> nat \<Rightarrow> iterator \<Rightarrow> storage \<Rightarrow> (unit result \<times> storage) option" where
  "flush_loop 0 R clock i it s = None"
| "flush_loop (Suc fuel) R clock i it s =
     (let (more, it) = iter_next (s_partitionList s) it in
      if \<not> more then Some (Inr (), s)
      else if i < writablePartitionsNum then flush_loop fuel R clock (i + 1) it s
      else case iter_value (s_partitionList s) it of
        None \<Rightarrow> Some (Inl (Errorf ''unexpected empty partition found''), s)
      | Some r \<Rightarrow>
          (case s_parts s r of
             MemP m \<Rightarrow>
               thenS (if inMemoryMode s then wrapS ''failed to remove partition'' (list_remove r s)
                      else flush_partition R (clock r) r m s)
                 (\<lambda>_ s. flush_loop fuel R clock i it s)
           | _ \<Rightarrow> flush_loop fuel R clock i it s))"

definition flushPartitions :: "Runtime \<Rightarrow> (nat \<Rightarrow> Time) \<Rightarrow> storage \<Rightarrow> (unit result \<times> storage) option" where
  "flushPartitions R clock s =
     flush_loop (pl_fuel (s_partitionList s)) R clock 0 (newIterator (s_partitionList s)) s"

fun remove_refs :: "nat list \<Rightarrow> storage \<Rightarrow> (unit result \<times> storage) option" where
  "remove_refs [] s = Some (Inr (), s)"
| "remove_refs (r # refs) s =
     (case list_remove r s of
        None \<Rightarrow> None
      | Some (Inl e, s) \<Rightarrow> Some (Inl (Errorf ''failed to remove expired partition''), s)
      | Some (Inr _, s) \<Rightarrow> remove_refs refs s)"

definition removeExpiredPartitions :: "(nat \<Rightarrow> Time) \<Rightarrow> storage \<Rightarrow> (unit result \<times> storage) option" where
  "removeExpiredPartitions clock s =
     (case pl_values (s_partitionList s) of
        None \<Rightarrow> None
      | Some refs \<Rightarrow> remove_refs (filter (\<lambda>r. expired (clock r) (s_parts s r)) refs) s)"

fun close_heads :: "nat \<Rightarrow> storage \<Rightarrow> unit result \<times> storage" where
  "close_heads 0 s = (Inr (), s)"
| "close_heads (Suc n) s =
     (case newPartition None True s of (Inl e, s) \<Rightarrow> (Inl e, s) | (Inr _, s) \<Rightarrow> close_heads n s)"

definition Close :: "Runtime \<Rightarrow> (nat \<Rightarrow> Time) \<Rightarrow> storage \<Rightarrow> (unit result \<times> storage) option" where
  "Close R clock s =
     (if s_done s then Some (Inl (Panic ''close of closed channel''), s)
      else
        thenS (wrapS ''failed to flush buffered WAL'' (Some (on_wal wal_flush (s\<lparr>s_done := True\<rparr>)))) (\<lambda>_ s.
        thenS (Some (close_heads writablePartitionsNum s)) (\<lambda>_ s.
        thenS (wrapS ''failed to close storage'' (flushPartitions R clock s)) (\<lambda>_ s.
        thenS (wrapS ''failed to remove expired partitions'' (removeExpiredPartitions clock s)) (\<lambda>_ s.
        wrapS ''failed to remove WAL'' (Some (on_wal wal_removeAll s)))))))"

section \<open>Starting\<close>

datatype Option =
    WithDataPath path
  | WithPartitionDuration Duration
  | WithRetention Duration
  | WithTimestampPrecision TimestampPrecision
  | WithWriteTimeout Duration
  | WithLogger
  | WithWALBufferedSize int

fun apply_option :: "storage \<Rightarrow> Option \<Rightarrow> storage" where
  "apply_option s (WithDataPath dataPath) = s\<lparr>s_dataPath := dataPath\<rparr>"
| "apply_option s (WithPartitionDuration duration) = s\<lparr>s_partitionDuration := duration\<rparr>"
| "apply_option s (WithRetention retention) = s\<lparr>s_retention := retention\<rparr>"
| "apply_option s (WithTimestampPrecision precision) = s\<lparr>s_timestampPrecision := precision\<rparr>"
| "apply_option s (WithWriteTimeout timeout) = s\<lparr>s_writeTimeout := timeout\<rparr>"
| "apply_option s WithLogger = s"
| "apply_option s (WithWALBufferedSize sz) = s\<lparr>s_walBufferedSize := sz\<rparr>"

definition defaultPartitionDuration :: Duration where
  [simp]: "defaultPartitionDuration = 1 * Hour"

definition defaultRetention :: Duration where
  [simp]: "defaultRetention = 336 * Hour"

definition defaultTimestampPrecision :: TimestampPrecision where
  [simp]: "defaultTimestampPrecision = Nanoseconds"

definition defaultWriteTimeout :: Duration where
  [simp]: "defaultWriteTimeout = 30 * Second"

definition defaultWALBufferedSize :: int where
  [simp]: "defaultWALBufferedSize = 4096"

text \<open>The defaults; before anything is stored the heap of partitions is not looked at.\<close>

definition default_storage :: "nat \<Rightarrow> meta filesys \<Rightarrow> storage" where
  "default_storage defaultWorkersLimit fs =
     \<lparr>s_partitionList = newPartitionList, s_parts = (\<lambda>_. MemP (newMemoryPartition 0 Nanoseconds)), s_nextRef = 0,
      s_walBufferedSize = defaultWALBufferedSize, s_wal = NopWAL, s_partitionDuration = defaultPartitionDuration,
      s_retention = defaultRetention, s_timestampPrecision = defaultTimestampPrecision, s_dataPath = [],
      s_writeTimeout = defaultWriteTimeout,
      s_workersLimit = defaultWorkersLimit, s_workers = 0, s_pending = 0, s_done = False, s_ticker = False,
      s_fs = fs\<rparr>"

text \<open>A directory whose name matches \<open>^p-.+\<close>; a dot does not match a new line.\<close>

definition isPartitionDir :: "string \<times> entry \<Rightarrow> bool" where
  "isPartitionDir f \<longleftrightarrow> snd f = Dir \<and> take 2 (fst f) = ''p-'' \<and>
     (case drop 2 (fst f) of [] \<Rightarrow> False | c # _ \<Rightarrow> c \<noteq> CHR 0x0A)"

fun open_partitions ::
  "path \<Rightarrow> Duration \<Rightarrow> (string \<times> entry) list \<Rightarrow> meta filesys \<Rightarrow> diskPartition list result \<times> meta filesys" where
  "open_partitions dataPath retention [] fs = (Inr [], fs)"
| "open_partitions dataPath retention (e # dirs) fs =
     (if \<not> isPartitionDir e then open_partitions dataPath retention dirs fs
      else case openDiskPartition (dataPath @ [fst e]) retention fs of
        (Inl err, fs) \<Rightarrow>
          if errors_Is err ErrNoDataPoints then open_partitions dataPath retention dirs fs
          else if errors_Is err ErrInvalidPartition then open_partitions dataPath retention dirs fs
          else (Inl (wrap ''failed to open disk partition'' err), fs)
      | (Inr part, fs) \<Rightarrow>
          (case open_partitions dataPath retention dirs fs of
             (Inl err, fs) \<Rightarrow> (Inl err, fs)
           | (Inr partitions, fs) \<Rightarrow> (Inr (part # partitions), fs)))"

definition recoverWAL ::
  "Runtime \<Rightarrow> (nat \<Rightarrow> nat \<Rightarrow> Time) \<Rightarrow> path \<Rightarrow> storage \<Rightarrow> unit result \<times> storage" where
  "recoverWAL R clock walDir s =
     (case newDiskWALReader walDir (s_fs s) of
        (Inl err, fs) \<Rightarrow> (if errors_Is err ErrNotExist then Inr () else Inl err, s\<lparr>s_fs := fs\<rparr>)
      | (Inr files, fs) \<Rightarrow>
          (case readAll walDir files [] fs of
             (Inl err, fs) \<Rightarrow> (Inl (wrap ''failed to read WAL'' err), s\<lparr>s_fs := fs\<rparr>)
           | (Inr rowsToInsert, fs) \<Rightarrow>
               let s = s\<lparr>s_fs := fs\<rparr> in
               if rowsToInsert = [] then (Inr (), s)
               else case InsertRows R clock True rowsToInsert s of
                 (Inl err, s) \<Rightarrow> (Inl (wrap ''failed to insert rows recovered from WAL'' err), s)
               | (Inr _, s) \<Rightarrow> on_wal wal_refresh s))"

text \<open>
  \<open>NewStorage\<close> up to the recovery of the log: the storage with the partitions found on disk, and
  whether a recovery is to follow. \<open>sortParts\<close> is the \<open>sort.Slice\<close> of the opened partitions by
  their minimum timestamp.
\<close>

definition open_wal :: "path \<Rightarrow> int \<Rightarrow> meta filesys \<Rightarrow> wal result \<times> meta filesys" where
  "open_wal walDir walBufferedSize fs =
     (if 0 \<le> walBufferedSize then
        (case newDiskWAL walDir walBufferedSize fs of
           (Inl err, fs) \<Rightarrow> (Inl err, fs)
         | (Inr w, fs) \<Rightarrow> (Inr (DiskWAL w), fs))
      else (Inr NopWAL, fs))"

definition open_storage ::
  "(diskPartition list \<Rightarrow> diskPartition list) \<Rightarrow> nat \<Rightarrow> Option list \<Rightarrow> meta filesys
   \<Rightarrow> (storage \<times> bool) result \<times> meta filesys" where
  "open_storage sortParts defaultWorkersLimit opts fs =
     (let s = foldl apply_option (default_storage defaultWorkersLimit fs) opts in
      if inMemoryMode s then let (_, s) = newPartition None False s in (Inr (s, False), s_fs s)
      else case MkdirAll (s_dataPath s) (s_fs s) of
        (Inl err, fs) \<Rightarrow> (Inl (wrap ''failed to make data directory'' err), fs)
      | (Inr _, fs) \<Rightarrow>
          (case open_wal (s_dataPath s @ [walDirName]) (s_walBufferedSize s) fs of
             (Inl err, fs) \<Rightarrow> (Inl err, fs)
           | (Inr w, fs) \<Rightarrow>
               (case ReadDir (s_dataPath s) fs of
                  (Inl err, fs) \<Rightarrow> (Inl (wrap ''failed to open data directory'' err), fs)
                | (Inr dirs, fs) \<Rightarrow>
                    if dirs = [] then
                      let (_, s) = newPartition None False (s\<lparr>s_wal := w, s_fs := fs\<rparr>) in (Inr (s, False), s_fs s)
                    else (case open_partitions (s_dataPath s) (s_retention s) dirs fs of
                      (Inl err, fs) \<Rightarrow> (Inl err, fs)
                    | (Inr partitions, fs) \<Rightarrow>
                        (Inr (foldl (\<lambda>s p. snd (newPartition (Some (DiskP p)) False s))
                                (s\<lparr>s_wal := w, s_fs := fs\<rparr>) (sortParts partitions), True), fs)))))"

definition NewStorage ::
  "Runtime \<Rightarrow> (diskPartition list \<Rightarrow> diskPartition list) \<Rightarrow> (nat \<Rightarrow> nat \<Rightarrow> Time) \<Rightarrow> nat \<Rightarrow> Option list \<Rightarrow> meta filesys
   \<Rightarrow> storage result \<times> meta filesys" where
  "NewStorage R sortParts clock defaultWorkersLimit opts fs =
     (case open_storage sortParts defaultWorkersLimit opts fs of
        (Inl err, fs) \<Rightarrow> (Inl err, fs)
      | (Inr (s, False), fs) \<Rightarrow> (Inr s, fs)
      | (Inr (s, True), fs) \<Rightarrow>
          (case recoverWAL R clock (s_dataPath s @ [walDirName]) s of
             (Inl err, s) \<Rightarrow> (Inl (wrap ''failed to recover WAL'' err), s_fs s)
           | (Inr _, s) \<Rightarrow>
               let (_, s) = newPartition None False s; s = s\<lparr>s_ticker := True\<rparr>
               in (Inr s, s_fs s)))"

end
