(* ===== verification/Storage_State.thy ===== *)
theory Storage_State
  imports Storage
begin

text \<open>
  The invariant of the storage and that every operation keeps it and returns: the list of
  references is well formed, no partition is in it twice, and every memory partition satisfies its
  own invariant. The operations are the steps of a transition system, together with faults of the
  operating system at any time; the invariant holds in every reachable state.

  The number of partitions is a Go \<open>int64\<close>. The lemmas assume that fewer than \<open>2 ^ 62\<close> partitions
  have been made, and that the points of a partition and a batch together are fewer than \<open>2 ^ 63\<close>.
\<close>

section \<open>The invariant\<close>

fun part_ok :: "partition \<Rightarrow> bool" where
  "part_ok (MemP m) = mp_ok m"
| "part_ok _ = True"

text \<open>\<open>avs\<close>: the nodes of the list with the references they hold.\<close>

definition list_ok :: "storage \<Rightarrow> (nat \<times> nat) list \<Rightarrow> bool" where
  "list_ok s avs \<longleftrightarrow> represents (s_partitionList s) avs \<and> distinct (map snd avs) \<and>
     (\<forall>r \<in> snd ` set avs. r < s_nextRef s \<and> part_ok (s_parts s r))"

definition storage_ok :: "storage \<Rightarrow> bool" where
  "storage_ok s \<longleftrightarrow> (\<exists>avs. list_ok s avs)"

abbreviation few_partitions :: "storage \<Rightarrow> bool" where
  "few_partitions s \<equiv> s_nextRef s < 2 ^ 62"

lemma list_ok_length:
  assumes "list_ok s avs"
  shows "length avs \<le> s_nextRef s"
proof -
  have "set (map snd avs) \<subseteq> {..<s_nextRef s}" using assms by (auto simp: list_ok_def)
  hence "card (set (map snd avs)) \<le> s_nextRef s" by (metis card_lessThan card_mono finite_lessThan)
  thus ?thesis using assms distinct_card [of "map snd avs"] by (simp add: list_ok_def)
qed

lemma list_ok_repr: "list_ok s avs \<Longrightarrow> pl_repr (s_partitionList s) (map snd avs)"
  by (auto simp: list_ok_def pl_repr_def)

lemma list_ok_values: "list_ok s avs \<Longrightarrow> pl_values (s_partitionList s) = Some (map snd avs)"
  by (rule pl_repr_values [OF list_ok_repr])

text \<open>Only the list and its partitions matter.\<close>

lemma list_ok_cong:
  assumes "list_ok s avs" "s_partitionList s' = s_partitionList s" "s_nextRef s \<le> s_nextRef s'"
    "\<And>r. r \<in> snd ` set avs \<Longrightarrow> part_ok (s_parts s' r)"
  shows "list_ok s' avs"
  using assms by (auto simp: list_ok_def)

section \<open>Frames\<close>

text \<open>Operations on the log change the log and the file system only.\<close>

lemma on_wal_frame:
  assumes "on_wal f s = (r, s')"
  shows "s' = s\<lparr>s_wal := s_wal s', s_fs := s_fs s'\<rparr>"
  using assms by (auto simp: on_wal_def split: prod.splits)

lemma on_wal_list_ok:
  assumes "on_wal f s = (r, s')"
  shows "list_ok s' avs = list_ok s avs" "s_nextRef s' = s_nextRef s" "s_parts s' = s_parts s"
    "s_partitionList s' = s_partitionList s" "s_dataPath s' = s_dataPath s" "s_pending s' = s_pending s"
proof -
  note eq = on_wal_frame [OF assms]
  show "s_nextRef s' = s_nextRef s" "s_parts s' = s_parts s" "s_partitionList s' = s_partitionList s"
    "s_dataPath s' = s_dataPath s" "s_pending s' = s_pending s"
    by (subst eq, simp)+
  thus "list_ok s' avs = list_ok s avs" by (simp add: list_ok_def)
qed

section \<open>Partitions\<close>

lemma any_insertRows_ok:
  assumes "any_insertRows R clock rows w p = (res, w', p')" "part_ok p" "clock_ok clock"
    "\<And>m. p = MemP m \<Longrightarrow> int (size (mp_points m) + length rows) < 2 ^ 63"
  shows "part_ok p' \<and> (\<forall>out. res = Inr out \<longrightarrow> length out \<le> length rows)"
proof (cases p)
  case (MemP m)
  have ok: "mp_ok m" "int (size (mp_points m) + length rows) < 2 ^ 63" using assms(2,4) MemP by auto
  show ?thesis
  proof (cases "rows = [] \<or> isl (fst (any_append R rows w))")
    case True
    hence "p' = MemP m" "isl res"
      using assms(1) MemP by (auto simp: mem_insertRows_def isl_def split: prod.splits if_splits)
    thus ?thesis using ok by (auto simp: isl_def)
  next
    case False
    then obtain w1 where w1: "any_append R rows w = (Inr (), w1)" "rows \<noteq> []"
      by (cases "any_append R rows w"; cases "fst (any_append R rows w)") auto
    obtain al where al: "mem_insertRows R clock (any_append R) rows w m =
      (Inr (filter (\<lambda>r. row_Timestamp r < mp_minT (once_Do rows m)) rows), w1,
       (once_Do rows m)\<lparr>mp_metrics := al, mp_numPoints := int (size (points_of al)),
                       mp_maxT := new_maxT R clock rows m\<rparr>)"
      "metrics_ok al" "points_of al = mp_points m + mset (batch R clock rows m)"
      using mem_insertRows_eq [of m rows "any_append R" w w1 R clock, OF ok(1) w1(2,1) ok(2)] by blast
    show ?thesis using mp_ok_batch [OF ok(1) w1(2) assms(3) al(2,3)] assms(1) MemP al(1) by auto
  qed
qed (use assms(1) in \<open>auto simp: dk_insertRows_def split: option.splits\<close>)

lemma selectDataPoints_ok:
  assumes "selectDataPoints R now metric labels start end p = (res, p')" "part_ok p" "start < end"
  shows "part_ok p'"
proof (cases p)
  case (MemP m)
  thus ?thesis using assms mem_selectDataPoints_eq [of m start "end" R metric labels] by auto
qed (use assms in auto)

section \<open>The operations keep the invariant\<close>

lemma newPartition_ok:
  assumes "newPartition p b s = (res, s')" "list_ok s avs" "few_partitions s" "\<And>q. p = Some q \<Longrightarrow> part_ok q"
  shows "list_ok s' ((pl_fresh (s_partitionList s), s_nextRef s) # avs) \<and> s_nextRef s' = Suc (s_nextRef s) \<and>
    s_parts s' = (s_parts s)(s_nextRef s := (case p of Some p \<Rightarrow> p
      | None \<Rightarrow> MemP (newMemoryPartition (s_partitionDuration s) (s_timestampPrecision s)))) \<and>
    s_dataPath s' = s_dataPath s \<and> s_pending s' = s_pending s"
proof -
  let ?p = "case p of Some p \<Rightarrow> p
      | None \<Rightarrow> MemP (newMemoryPartition (s_partitionDuration s) (s_timestampPrecision s))"
  let ?s = "s\<lparr>s_parts := (s_parts s)(s_nextRef s := ?p), s_nextRef := Suc (s_nextRef s),
              s_partitionList := pl_insert (s_nextRef s) (s_partitionList s)\<rparr>"
  let ?b = "pl_fresh (s_partitionList s)"
  have p: "part_ok ?p" using assms(4) by (cases p) auto
  have avs: "represents (s_partitionList s) avs" using assms(2) by (simp add: list_ok_def)
  have len: "int (length avs) + 1 < 2 ^ 63" using list_ok_length [OF assms(2)] assms(3) by simp
  have fresh: "?b \<notin> fst ` set avs" using avs seg_known by (fastforce simp: represents_def)
  have "represents (pl_insert (s_nextRef s) (s_partitionList s)) ((?b, s_nextRef s) # avs)"
    using avs len fresh
    by (auto simp: represents_def pl_insert_def new_node_def setHead_def Let_def seg_frame int64_range_def)
  hence ok: "list_ok ?s ((?b, s_nextRef s) # avs)"
    using assms(2) p by (auto simp: list_ok_def less_Suc_eq)
  show ?thesis
  proof (cases b)
    case True
    hence "on_wal wal_punctuate ?s = (res, s')" using assms(1) by (simp add: newPartition_def new_ref_def Let_def)
    from on_wal_list_ok [OF this] show ?thesis using ok by simp
  next
    case False
    hence "s' = ?s" using assms(1) by (simp add: newPartition_def new_ref_def Let_def)
    thus ?thesis using ok by simp
  qed
qed

lemma ensureActiveHead_ok:
  assumes "ensureActiveHead s = (res, s')" "list_ok s avs" "few_partitions s"
  shows "\<exists>avs'. list_ok s' avs' \<and> s_nextRef s \<le> s_nextRef s' \<and> s_nextRef s' \<le> Suc (s_nextRef s)"
proof (cases "case getHead (s_partitionList s) of None \<Rightarrow> False | Some r \<Rightarrow> active (s_parts s r)")
  case True
  thus ?thesis using assms by (auto simp: ensureActiveHead_def)
next
  case False
  obtain res1 s1 where np: "newPartition None True s = (res1, s1)" by fastforce
  note ok = newPartition_ok [OF np assms(2,3)]
  have "s' = s1 \<or> s' = s1\<lparr>s_pending := s_pending s1 + 1\<rparr>"
    using assms(1) False np by (cases res1) (auto simp: ensureActiveHead_def)
  hence "list_ok s' ((pl_fresh (s_partitionList s), s_nextRef s) # avs) \<and> s_nextRef s' = Suc (s_nextRef s)"
    using ok by (auto simp: list_ok_def)
  thus ?thesis by (intro exI [of _ "(pl_fresh (s_partitionList s), s_nextRef s) # avs"]) simp
qed

text \<open>Rows fit into memory next to the points of any partition.\<close>

definition fits :: "Row list \<Rightarrow> storage \<Rightarrow> bool" where
  "fits rows s \<longleftrightarrow> (\<forall>r m. s_parts s r = MemP m \<longrightarrow> int (size (mp_points m) + length rows) < 2 ^ 63)"

lemma seg_value:
  assumes "seg (pl_nodes l) (ahead l it) avs None" "iter_next l it = (True, it')" "iter_value l it' = Some r"
  obtains a zs where "avs = (a, r) # zs" "it' = At (Some a)" "seg (pl_nodes l) (ahead l it') zs None"
proof -
  have "ahead l it \<noteq> None" "it' = At (ahead l it)" using assms(2) by (simp_all add: iter_next_ahead)
  moreover from this(1) obtain a v zs where avs: "avs = (a, v) # zs"
    using assms(1) seg_None_iff [OF assms(1)] by (cases avs) auto
  moreover note node = seg_Cons_node [OF assms(1) [unfolded avs]]
  ultimately show ?thesis using that [of a zs] assms(3) by (simp add: iter_value_def)
qed

lemma insert_loop_ok:
  "insert_loop R clock n it rows s = (res, s') \<Longrightarrow> list_ok s avs \<Longrightarrow> (\<And>r. clock_ok (clock r)) \<Longrightarrow>
   seg (pl_nodes (s_partitionList s)) (ahead (s_partitionList s) it) zs None \<Longrightarrow> snd ` set zs \<subseteq> snd ` set avs \<Longrightarrow>
   distinct (map snd zs) \<Longrightarrow> (\<And>r m. r \<in> snd ` set zs \<Longrightarrow> s_parts s r = MemP m \<Longrightarrow>
     int (size (mp_points m) + length rows) < 2 ^ 63) \<Longrightarrow>
   list_ok s' avs \<and> s_nextRef s' = s_nextRef s"
proof (induction n arbitrary: it rows s zs)
  case (Suc n)
  let ?l = "s_partitionList s"
  obtain more it' where nx: "iter_next ?l it = (more, it')" by fastforce
  show ?case
  proof (cases "rows = [] \<or> \<not> more \<or> iter_value ?l it' = None")
    case True
    hence "s' = s" using Suc.prems(1) nx by (cases "rows = []"; cases more) simp_all
    thus ?thesis using Suc.prems(2) by simp
  next
    case False
    then obtain r where r: "iter_value ?l it' = Some r" "rows \<noteq> []" "more" by auto
    obtain a zs' where zs: "zs = (a, r) # zs'" "it' = At (Some a)" "seg (pl_nodes ?l) (ahead ?l it') zs' None"
      using seg_value [OF Suc.prems(4)] nx r by metis
    obtain res1 w p where ins: "any_insertRows R (clock r) rows (s_wal s, s_fs s) (s_parts s r) = (res1, w, p)"
      by (metis prod.exhaust)
    let ?s = "s\<lparr>s_wal := fst w, s_fs := snd w, s_parts := (s_parts s)(r := p)\<rparr>"
    have mem: "r \<in> snd ` set avs" using zs(1) Suc.prems(5) by auto
    hence okr: "part_ok (s_parts s r)" using Suc.prems(2) by (auto simp: list_ok_def)
    have "int (size (mp_points m) + length rows) < 2 ^ 63" if "s_parts s r = MemP m" for m
      using Suc.prems(7) [OF _ that] zs(1) by simp
    note p = any_insertRows_ok [OF ins okr Suc.prems(3) this]
    hence ok: "list_ok ?s avs" using Suc.prems(2) p by (auto simp: list_ok_def)
    show ?thesis
    proof (cases res1)
      case (Inl e)
      hence "s' = ?s" using Suc.prems(1) nx r ins by simp
      thus ?thesis using ok by simp
    next
      case (Inr out)
      have len: "length out \<le> length rows" using p Inr by simp
      have room: "int (size (mp_points m) + length out) < 2 ^ 63" if "r' \<in> snd ` set zs'" "s_parts ?s r' = MemP m" for r' m
      proof -
        have "r' \<noteq> r" using that(1) zs(1) Suc.prems(6) by auto
        thus ?thesis using that Suc.prems(7) [of r' m] zs(1) len by simp
      qed
      have "insert_loop R clock n it' out ?s = (res, s')" using Suc.prems(1) nx r ins Inr by simp
      from Suc.IH [OF this ok Suc.prems(3) _ _ _ room, of zs'] show ?thesis using zs Suc.prems(5,6) by simp
    qed
  qed
qed simp

lemma ensureActiveHead_fits:
  assumes "ensureActiveHead s = (res, s')" "list_ok s avs" "few_partitions s" "fits rows s" "int (length rows) < 2 ^ 63"
  shows "fits rows s'"
proof (cases "case getHead (s_partitionList s) of None \<Rightarrow> False | Some r \<Rightarrow> active (s_parts s r)")
  case True
  thus ?thesis using assms by (auto simp: ensureActiveHead_def)
next
  case False
  obtain res1 s1 where np: "newPartition None True s = (res1, s1)" by fastforce
  have "s' = s1 \<or> s' = s1\<lparr>s_pending := s_pending s1 + 1\<rparr>"
    using assms(1) False np by (cases res1) (auto simp: ensureActiveHead_def)
  thus ?thesis using newPartition_ok [OF np assms(2,3)] assms(4,5) by (auto simp: fits_def split: if_splits)
qed

lemma insert_rows_ok:
  assumes "insert_rows R clock rows s = (res, s')" "list_ok s avs" "few_partitions s" "\<And>r. clock_ok (clock r)"
    "fits rows s" "int (length rows) < 2 ^ 63"
  shows "storage_ok s' \<and> s_nextRef s \<le> s_nextRef s' \<and> s_nextRef s' \<le> Suc (s_nextRef s)"
proof -
  obtain res1 s1 where ea: "ensureActiveHead s = (res1, s1)" by fastforce
  obtain avs1 where ok1: "list_ok s1 avs1" "s_nextRef s \<le> s_nextRef s1" "s_nextRef s1 \<le> Suc (s_nextRef s)"
    using ensureActiveHead_ok [OF ea assms(2,3)] by auto
  have fits: "fits rows s1" using ensureActiveHead_fits [OF ea assms(2,3,5,6)] .
  let ?l = "s_partitionList s1"
  have seg: "seg (pl_nodes ?l) (ahead ?l (newIterator ?l)) avs1 None" "distinct (map snd avs1)"
    using ok1(1) by (simp_all add: list_ok_def represents_def newIterator_def)
  show ?thesis
  proof (cases res1)
    case (Inl e)
    thus ?thesis using assms(1) ea ok1 by (auto simp: insert_rows_def storage_ok_def)
  next
    case (Inr u)
    hence "insert_loop R clock (min (nat (pl_size ?l)) writablePartitionsNum) (newIterator ?l) rows s1 = (res, s')"
      using assms(1) ea by (simp add: insert_rows_def)
    from insert_loop_ok [OF this ok1(1) assms(4) seg(1) subset_refl seg(2)] fits ok1(2,3) show ?thesis
      by (auto simp: fits_def storage_ok_def)
  qed
qed

lemma InsertRows_ok:
  assumes "InsertRows R clock freed rows s = (res, s')" "list_ok s avs" "few_partitions s" "\<And>r. clock_ok (clock r)"
    "fits rows s" "int (length rows) < 2 ^ 63"
  shows "storage_ok s' \<and> s_nextRef s \<le> s_nextRef s' \<and> s_nextRef s' \<le> Suc (s_nextRef s)"
proof -
  have upd: "list_ok (s\<lparr>s_workers := k\<rparr>) avs = list_ok s avs" "fits rows (s\<lparr>s_workers := k\<rparr>) = fits rows s" for s k avs
    by (simp_all add: list_ok_def fits_def)
  have *: "storage_ok s2 \<and> s_nextRef s \<le> s_nextRef s2 \<and> s_nextRef s2 \<le> Suc (s_nextRef s)"
    if "with_token (insert_rows R clock rows) (s\<lparr>s_workers := k\<rparr>) = (res1, s2)" for k res1 s2
  proof -
    obtain res1 s1 where ins: "insert_rows R clock rows (s\<lparr>s_workers := k + 1\<rparr>) = (res1, s1)" by fastforce
    have "storage_ok s1 \<and> s_nextRef s \<le> s_nextRef s1 \<and> s_nextRef s1 \<le> Suc (s_nextRef s)"
      using insert_rows_ok [OF ins] assms(2-6) upd by simp
    moreover have "s2 = s1\<lparr>s_workers := s_workers s1 - 1\<rparr>" using that ins by (simp add: with_token_def)
    ultimately show ?thesis using upd by (auto simp: storage_ok_def)
  qed
  show ?thesis
  proof (cases "s_workers s < s_workersLimit s \<or> freed")
    case True
    thus ?thesis using assms(1) * [of "s_workers s"] * [of "s_workers s - 1"]
      by (auto simp: InsertRows_def split: if_splits)
  next
    case False
    thus ?thesis using assms(1,2) by (auto simp: InsertRows_def storage_ok_def)
  qed
qed

lemma select_loop_ok:
  "select_loop R clock metric labels start end refs ps s = (res, s') \<Longrightarrow> list_ok s avs \<Longrightarrow> start < end \<Longrightarrow>
   set refs \<subseteq> snd ` set avs \<Longrightarrow> list_ok s' avs \<and> s_nextRef s' = s_nextRef s"
proof (induction refs arbitrary: ps s)
  case (Cons r refs)
  let ?part = "s_parts s r"
  note IH = Cons.IH [OF _ _ Cons.prems(3)] and sub = Cons.prems(4)
  show ?case
  proof (cases "minTimestamp ?part = 0 \<or> maxTimestamp ?part < start \<or> end < minTimestamp ?part")
    case True
    thus ?thesis using Cons.prems IH by (auto simp: Let_def split: if_splits)
  next
    case False
    obtain res1 p where sel: "selectDataPoints R (clock r) metric labels start end ?part = (res1, p)" by fastforce
    let ?s = "s\<lparr>s_parts := (s_parts s)(r := p)\<rparr>"
    have "part_ok ?part" using Cons.prems(2) sub by (auto simp: list_ok_def)
    hence "part_ok p" by (rule selectDataPoints_ok [OF sel _ Cons.prems(3)])
    hence ok: "list_ok ?s avs" using Cons.prems(2) by (auto simp: list_ok_def)
    show ?thesis
    proof (cases "\<exists>ps'. select_loop R clock metric labels start end refs ps' ?s = (res, s')")
      case True
      thus ?thesis using IH [OF _ ok] sub by auto
    next
      case False': False
      hence "s' = ?s" using Cons.prems(1) False sel by (auto simp: Let_def split: sum.splits if_splits)
      thus ?thesis using ok by simp
    qed
  qed
qed auto

lemma Select_ok:
  assumes "list_ok s avs"
  shows "\<exists>res s'. Select R clock metric labels start end s = Some (res, s') \<and> list_ok s' avs \<and>
    s_nextRef s' = s_nextRef s"
proof (cases "metric = '''' \<or> end \<le> start")
  case True
  thus ?thesis using assms by (auto simp: Select_def)
next
  case False
  obtain res s' where sl: "select_loop R clock metric labels start end (map snd avs) [] s = (res, s')" by fastforce
  thus ?thesis using False list_ok_values [OF assms] select_loop_ok [OF sl assms] by (auto simp: Select_def)
qed

section \<open>Removing, swapping and flushing\<close>

lemma list_remove_at:
  assumes ok: "list_ok s (ys @ (a, r) # zs)" and few: "few_partitions s"
  obtains us b v ws res s' where "ys @ [(a, r)] = us @ (b, v) # ws" "ref_minT s v = ref_minT s r"
    "\<forall>u \<in> snd ` set us. ref_minT s u \<noteq> ref_minT s r" "list_remove r s = Some (res, s')"
    "list_ok s' (us @ ws @ zs)" "seg (pl_nodes (s_partitionList s')) (getNext (s_partitionList s') a) zs None"
    "s' = s\<lparr>s_fs := s_fs s', s_partitionList := s_partitionList s'\<rparr>"
    "s_fs s' = snd (clean (s_parts s v) (s_fs s))" "res = Inr () \<longleftrightarrow> fst (clean (s_parts s v) (s_fs s)) = Inr ()"
proof -
  have rep: "represents (s_partitionList s) (ys @ (a, r) # zs)" using ok by (simp add: list_ok_def)
  have len: "int (length ys + length zs) + 1 < 2 ^ 63" using list_ok_length [OF ok] few by simp
  obtain us b v ws l' where at: "ys @ [(a, r)] = us @ (b, v) # ws" "ref_minT s v = ref_minT s r"
    "\<forall>u \<in> snd ` set us. ref_minT s u \<noteq> ref_minT s r" "represents l' (us @ ws @ zs)"
    "seg (pl_nodes l') (getNext l' a) zs None" "pl_fresh l' = pl_fresh (s_partitionList s)"
    "pl_remove (ref_minT s) (\<lambda>r. clean (s_parts s r)) r (s_fs s) (s_partitionList s) =
      Some (case clean (s_parts s v) (s_fs s) of
        (Inl e, w) \<Rightarrow> (Inl (Wrapf ''failed to clean resources managed by partition to be removed'' e), w, l')
      | (Inr _, w) \<Rightarrow> (Inr (), w, l'))"
    by (rule pl_remove_at [of "s_partitionList s" ys a r zs "ref_minT s" "\<lambda>r. clean (s_parts s r)" "s_fs s", OF rep len])
  obtain rc fs' where cl: "clean (s_parts s v) (s_fs s) = (rc, fs')" by fastforce
  let ?s = "s\<lparr>s_fs := fs', s_partitionList := l'\<rparr>"
  have eq: "ys @ (a, r) # zs = us @ (b, v) # ws @ zs" using arg_cong [OF at(1), of "\<lambda>xs. xs @ zs"] by simp
  have "list_ok ?s (us @ ws @ zs)" using ok at(4) unfolding eq by (auto simp: list_ok_def)
  moreover obtain res where "list_remove r s = Some (res, ?s)" "res = Inr () \<longleftrightarrow> rc = Inr ()"
    using at(7) cl by (cases rc) (simp_all add: list_remove_def)
  ultimately show ?thesis using at cl by (intro that [of us b v ws res ?s]) simp_all
qed

lemma list_swap_at:
  assumes ok: "list_ok s (ys @ (a, r) # zs)" and p: "part_ok p"
  obtains us b v ws s' c where "ys @ [(a, r)] = us @ (b, v) # ws" "ref_minT s v = ref_minT s r"
    "\<forall>u \<in> snd ` set us. ref_minT s u \<noteq> ref_minT s r" "list_swap r p s = Some (Inr (), s')"
    "list_ok s' (us @ (c, s_nextRef s) # ws @ zs)"
    "seg (pl_nodes (s_partitionList s')) (getNext (s_partitionList s') a) zs None"
    "s' = s\<lparr>s_parts := (s_parts s)(s_nextRef s := p), s_nextRef := Suc (s_nextRef s),
            s_partitionList := s_partitionList s'\<rparr>"
proof -
  let ?s1 = "s\<lparr>s_parts := (s_parts s)(s_nextRef s := p), s_nextRef := Suc (s_nextRef s)\<rparr>"
  have rep: "represents (s_partitionList s) (ys @ (a, r) # zs)" using ok by (simp add: list_ok_def)
  obtain us b v ws l' where at: "ys @ [(a, r)] = us @ (b, v) # ws" "ref_minT ?s1 v = ref_minT ?s1 r"
    "\<forall>u \<in> snd ` set us. ref_minT ?s1 u \<noteq> ref_minT ?s1 r"
    "represents l' (us @ (pl_fresh (s_partitionList s), s_nextRef s) # ws @ zs)"
    "seg (pl_nodes l') (getNext l' a) zs None"
    "pl_swap (ref_minT ?s1) r (s_nextRef s) (s_partitionList s) = Some (Inr (), l')"
    by (rule pl_swap_at [where minT = "ref_minT ?s1" and new = "s_nextRef s", OF rep])
  have eq: "ys @ (a, r) # zs = us @ (b, v) # ws @ zs" using arg_cong [OF at(1), of "\<lambda>xs. xs @ zs"] by simp
  have old: "u < s_nextRef s" "part_ok (s_parts s u)" if "u \<in> snd ` set (us @ (b, v) # ws @ zs)" for u
    using ok that unfolding eq by (auto simp: list_ok_def)
  have same: "ref_minT ?s1 u = ref_minT s u" if "u \<in> snd ` set (us @ (b, v) # ws)" for u
    using old(1) [of u] that by (auto simp: ref_minT_def)
  have "r \<in> snd ` set (us @ (b, v) # ws)" using at(1) by (metis in_set_conv_decomp snd_conv imageI)
  note same' = same [OF this]
  let ?s = "?s1\<lparr>s_partitionList := l'\<rparr>"
  have "list_ok ?s (us @ (pl_fresh (s_partitionList s), s_nextRef s) # ws @ zs)"
  proof -
    have sub: "u < s_nextRef s \<and> part_ok (s_parts s u)" if "u \<in> snd ` set (us @ ws @ zs)" for u
      using old [of u] that by auto
    hence "s_nextRef s \<notin> snd ` set (us @ ws @ zs)" by blast
    moreover have "distinct (map snd (us @ ws @ zs))" using ok unfolding eq by (auto simp: list_ok_def)
    ultimately have "distinct (map snd (us @ (pl_fresh (s_partitionList s), s_nextRef s) # ws @ zs))" by auto
    moreover have "u < Suc (s_nextRef s) \<and> part_ok (((s_parts s)(s_nextRef s := p)) u)"
      if "u \<in> snd ` set (us @ (pl_fresh (s_partitionList s), s_nextRef s) # ws @ zs)" for u
    proof (cases "u = s_nextRef s")
      case False
      hence "u \<in> snd ` set (us @ ws @ zs)" using that by auto
      thus ?thesis using sub [of u] False by simp
    qed (use p in simp)
    ultimately show ?thesis using at(4) by (simp add: list_ok_def)
  qed
  moreover have "list_swap r p s = Some (Inr (), ?s)" using at(6) by (simp add: list_swap_def new_ref_def)
  moreover have "ref_minT s v = ref_minT s r" using at(2) same [of v] same' by simp
  moreover have "\<forall>u \<in> snd ` set us. ref_minT s u \<noteq> ref_minT s r"
  proof
    fix u assume u: "u \<in> snd ` set us"
    hence "ref_minT ?s1 u = ref_minT s u" by (intro same) auto
    thus "ref_minT s u \<noteq> ref_minT s r" using at(3) u same' by metis
  qed
  ultimately show ?thesis
    using at(1,5) by (intro that [of us b v ws ?s "pl_fresh (s_partitionList s)"]) simp_all
qed

fun in_memory :: "partition \<Rightarrow> bool" where
  "in_memory (MemP m) = True"
| "in_memory _ = False"

text \<open>
  What a step of the flush loop does at a node: the rest of the list stays, and success means that
  the first partition with the minimum timestamp of the memory partition there has been replaced by
  a partition of another kind with the same minimum timestamp, or has gone. That is the memory
  partition itself when no newer partition has the same minimum timestamp.
\<close>

definition hits_first ::
  "(nat \<times> nat) list \<Rightarrow> nat \<Rightarrow> nat \<Rightarrow> (nat \<times> nat) list \<Rightarrow> storage \<Rightarrow> storage \<Rightarrow> bool" where
  "hits_first ys a r ys' s s' \<longleftrightarrow> (\<exists>us b v ws. ys @ [(a, r)] = us @ (b, v) # ws \<and> ref_minT s v = ref_minT s r \<and>
     (\<forall>u \<in> snd ` set us. ref_minT s u \<noteq> ref_minT s r) \<and>
     (ys' = us @ ws \<or> (\<exists>c. ys' = us @ (c, s_nextRef s) # ws \<and> \<not> in_memory (s_parts s' (s_nextRef s)) \<and>
       ref_minT s' (s_nextRef s) = ref_minT s r)))"

definition flushed_at ::
  "(nat \<times> nat) list \<Rightarrow> nat \<Rightarrow> nat \<Rightarrow> (nat \<times> nat) list \<Rightarrow> storage \<Rightarrow> unit result \<Rightarrow> storage \<Rightarrow> bool" where
  "flushed_at ys a r zs s res s' \<longleftrightarrow> (\<exists>ys'.
     list_ok s' (ys' @ zs) \<and> seg (pl_nodes (s_partitionList s')) (getNext (s_partitionList s') a) zs None \<and>
     s_nextRef s \<le> s_nextRef s' \<and> s_nextRef s' \<le> Suc (s_nextRef s) \<and> s_dataPath s' = s_dataPath s \<and>
     (\<forall>u. u \<noteq> r \<and> u < s_nextRef s \<longrightarrow> s_parts s' u = s_parts s u) \<and>
     in_memory (s_parts s' r) = in_memory (s_parts s r) \<and> (res = Inr () \<longrightarrow> hits_first ys a r ys' s s'))"

lemma hits_first_cong:
  assumes "s_parts s' = s_parts s1"
  shows "hits_first ys a r ys' s s' = hits_first ys a r ys' s s1"
  using assms by (simp add: hits_first_def ref_minT_def)

lemma found_last:
  assumes "ys @ [(a, r)] = us @ (b, v) # ws" "ref_minT s v = ref_minT s r" "\<forall>u \<in> snd ` set ys. ref_minT s u \<noteq> ref_minT s r"
  shows "us = ys \<and> ws = [] \<and> v = r"
proof (cases ws rule: rev_cases)
  case (snoc ws' w)
  hence "ys = us @ (b, v) # ws'" using assms(1) by simp
  thus ?thesis using assms(2,3) by auto
qed (use assms(1) in auto)

lemma hits_itself:
  assumes "hits_first ys a r ys' s s'" "\<forall>u \<in> snd ` set ys. ref_minT s u \<noteq> ref_minT s r"
  shows "ys' = ys \<or> (\<exists>c. ys' = ys @ [(c, s_nextRef s)] \<and> \<not> in_memory (s_parts s' (s_nextRef s)) \<and>
     ref_minT s' (s_nextRef s) = ref_minT s r)"
  using assms(1) found_last [OF _ _ assms(2)] unfolding hits_first_def by fastforce

lemma list_remove_flushed:
  assumes "list_ok s (ys @ (a, r) # zs)" "few_partitions s"
  shows "\<exists>res s'. list_remove r s = Some (res, s') \<and> flushed_at ys a r zs s res s'"
proof -
  obtain us b v ws res s' where at: "ys @ [(a, r)] = us @ (b, v) # ws" "ref_minT s v = ref_minT s r"
    "list_remove r s = Some (res, s')" "list_ok s' (us @ ws @ zs)"
    "seg (pl_nodes (s_partitionList s')) (getNext (s_partitionList s') a) zs None"
    "s' = s\<lparr>s_fs := s_fs s', s_partitionList := s_partitionList s'\<rparr>" "\<forall>u \<in> snd ` set us. ref_minT s u \<noteq> ref_minT s r"
    using assms by (rule list_remove_at)
  have eq: "s_nextRef s' = s_nextRef s" "s_dataPath s' = s_dataPath s" "s_parts s' = s_parts s"
    by (subst at(6), simp)+
  have "hits_first ys a r (us @ ws) s s'" unfolding hits_first_def using at(1,2,7) by blast
  hence "flushed_at ys a r zs s res s'"
    unfolding flushed_at_def by (intro exI [of _ "us @ ws"]) (use at(4,5) eq in auto)
  thus ?thesis using at(3) by blast
qed

lemma list_swap_flushed:
  assumes "list_ok s (ys @ (a, r) # zs)" "minTimestamp (DiskP d) = ref_minT s r"
  shows "\<exists>s'. list_swap r (DiskP d) s = Some (Inr (), s') \<and> flushed_at ys a r zs s (Inr ()) s'"
proof -
  have ok: "part_ok (DiskP d)" by simp
  have r: "r \<noteq> s_nextRef s" using assms(1) by (auto simp: list_ok_def)
  obtain us b v ws s' c where at: "ys @ [(a, r)] = us @ (b, v) # ws" "ref_minT s v = ref_minT s r"
    "list_swap r (DiskP d) s = Some (Inr (), s')" "list_ok s' (us @ (c, s_nextRef s) # ws @ zs)"
    "seg (pl_nodes (s_partitionList s')) (getNext (s_partitionList s') a) zs None"
    "s' = s\<lparr>s_parts := (s_parts s)(s_nextRef s := DiskP d), s_nextRef := Suc (s_nextRef s),
            s_partitionList := s_partitionList s'\<rparr>" "\<forall>u \<in> snd ` set us. ref_minT s u \<noteq> ref_minT s r"
    using assms(1) ok by (rule list_swap_at)
  have eq: "s_nextRef s' = Suc (s_nextRef s)" "s_dataPath s' = s_dataPath s"
    "s_parts s' = (s_parts s)(s_nextRef s := DiskP d)"
    by (subst at(6), simp)+
  have "ref_minT s' (s_nextRef s) = ref_minT s r" "\<not> in_memory (s_parts s' (s_nextRef s))"
    using assms(2) eq(3) by (simp_all add: ref_minT_def)
  hence "hits_first ys a r (us @ (c, s_nextRef s) # ws) s s'" unfolding hits_first_def using at(1,2,7) by blast
  hence "flushed_at ys a r zs s (Inr ()) s'"
    unfolding flushed_at_def by (intro exI [of _ "us @ (c, s_nextRef s) # ws"]) (use at(4,5) eq r in simp)
  thus ?thesis using at(3) by blast
qed

lemma flushed_at_wal:
  assumes "flushed_at ys a r zs s (Inr ()) s1" "on_wal f s1 = (res, s')"
  shows "flushed_at ys a r zs s res s'"
  using assms(1) on_wal_list_ok [OF assms(2)] hits_first_cong [of s' s1] unfolding flushed_at_def by auto

lemma flushed_at_same:
  assumes "list_ok s (ys @ (a, r) # zs)"
  shows "flushed_at ys a r zs s (Inl e) s"
proof -
  have "represents (s_partitionList s) (ys @ (a, r) # zs)" using assms by (simp add: list_ok_def)
  from represents_split(3) [OF this] show ?thesis
    unfolding flushed_at_def by (intro exI [of _ "ys @ [(a, r)]"]) (use assms in simp)
qed

lemma flushed_at_err: "flushed_at ys a r zs s (Inl e) s' = flushed_at ys a r zs s (Inl e') s'"
  by (simp add: flushed_at_def)

text \<open>The partition at the node may have changed before, as long as it keeps its minimum.\<close>

lemma flushed_at_update:
  assumes "flushed_at ys a r zs (s\<lparr>s_parts := (s_parts s)(r := p), s_fs := fs\<rparr>) res s'"
    "minTimestamp p = ref_minT s r" "in_memory p = in_memory (s_parts s r)"
  shows "flushed_at ys a r zs s res s'"
proof -
  let ?s = "s\<lparr>s_parts := (s_parts s)(r := p), s_fs := fs\<rparr>"
  have "ref_minT ?s u = ref_minT s u" for u using assms(2) by (simp add: ref_minT_def)
  hence "hits_first ys a r ys' ?s s' = hits_first ys a r ys' s s'" for ys' by (simp add: hits_first_def)
  thus ?thesis using assms(1,3) unfolding flushed_at_def by auto
qed

lemma wrapS_flushed:
  assumes "\<exists>res s'. x = Some (res, s') \<and> flushed_at ys a r zs s res s'"
  shows "\<exists>res s'. wrapS msg x = Some (res, s') \<and> flushed_at ys a r zs s res s'"
proof -
  obtain res s' where x: "x = Some (res, s')" "flushed_at ys a r zs s res s'" using assms by blast
  thus ?thesis using flushed_at_err [of ys a r zs s _ s'] by (cases res) (auto simp: wrapS_def)
qed

lemma flush_partition_flushed:
  assumes ok: "list_ok s (ys @ (a, r) # zs)" and few: "few_partitions s" and R: "runtime_ok R"
    and m: "s_parts s r = MemP m"
  shows "\<exists>res s'. flush_partition R now r m s = Some (res, s') \<and> flushed_at ys a r zs s res s'"
proof -
  let ?dir = "s_dataPath s @ [partition_dir m]"
  obtain res1 m1 fs1 where fl: "storage_flush R now ?dir m (s_fs s) = (res1, m1, fs1)" by (metis prod.exhaust)
  obtain res2 fs2 where op: "openDiskPartition ?dir (s_retention s) fs1 = (res2, fs2)" by fastforce
  have "mp_ok m" using ok m by (auto simp: list_ok_def)
  note keep = storage_flush_keeps [OF R this fl]
  hence min: "mp_minT m1 = mp_minT m"
    by (metis memoryPartition.ext_inject memoryPartition.surjective memoryPartition.update_convs(4))
  let ?s = "\<lambda>fs. s\<lparr>s_parts := (s_parts s)(r := MemP m1), s_fs := fs\<rparr>"
  have ok': "list_ok (?s fs) (ys @ (a, r) # zs)" for fs using ok keep by (auto simp: list_ok_def)
  have upd: "flushed_at ys a r zs (?s fs) res s' \<Longrightarrow> flushed_at ys a r zs s res s'" for fs res s'
    by (erule flushed_at_update) (simp_all add: ref_minT_def m min)
  have comm: "s\<lparr>s_fs := fs, s_parts := ps\<rparr> = s\<lparr>s_parts := ps, s_fs := fs\<rparr>" for fs ps by simp
  show ?thesis
  proof (cases res1)
    case (Inl e)
    thus ?thesis using fl upd [OF flushed_at_same [OF ok']] by (simp add: flush_partition_def Let_def comm)
  next
    case ok1: (Inr u)
    show ?thesis
    proof (cases res2)
      case (Inl e)
      have rem: "\<exists>res s'. wrapS msg (list_remove r (?s fs2)) = Some (res, s') \<and> flushed_at ys a r zs (?s fs2) res s'" for msg
        by (rule wrapS_flushed [OF list_remove_flushed [OF ok']]) (use few in simp)
      hence "\<exists>res s'. wrapS msg (list_remove r (?s fs2)) = Some (res, s') \<and> flushed_at ys a r zs s res s'" for msg
        using upd by blast
      thus ?thesis using Inl ok1 fl op upd [OF flushed_at_same [OF ok']] by (simp add: flush_partition_def Let_def)
    next
      case (Inr d)
      have "storage_flush R now ?dir m (s_fs s) = (Inr (), m1, fs1)" using fl ok1 by simp
      hence "dk_minTimestamp d = mp_minT m" using flushed_partition_meta op Inr min by fastforce
      hence "minTimestamp (DiskP d) = ref_minT (?s fs2) r" by (simp add: ref_minT_def min)
      from list_swap_flushed [OF ok' this] obtain s1 where s1: "list_swap r (DiskP d) (?s fs2) = Some (Inr (), s1)"
        "flushed_at ys a r zs (?s fs2) (Inr ()) s1" by blast
      obtain res s' where w: "on_wal wal_removeOldest s1 = (res, s')" by fastforce
      have "\<exists>res s'. wrapS msg (Some (on_wal wal_removeOldest s1)) = Some (res, s') \<and> flushed_at ys a r zs s res s'" for msg
        by (rule wrapS_flushed) (use w upd [OF flushed_at_wal [OF s1(2) w]] in blast)
      moreover have "wrapS msg (Some (Inr (), s1)) = Some (Inr (), s1)" for msg by (simp add: wrapS_def)
      ultimately show ?thesis using Inr ok1 fl op s1(1) by (simp add: flush_partition_def thenS_def Let_def)
    qed
  qed
qed

text \<open>No partition in memory among the older ones, \<open>ws\<close>, has the minimum timestamp of a newer partition.\<close>

definition separated :: "storage \<Rightarrow> nat list \<Rightarrow> nat list \<Rightarrow> bool" where
  "separated s us ws \<longleftrightarrow>
     (\<forall>u \<in> set us. \<forall>r \<in> set ws. in_memory (s_parts s r) \<longrightarrow> ref_minT s u \<noteq> ref_minT s r) \<and>
     sorted_wrt (\<lambda>u r. in_memory (s_parts s r) \<longrightarrow> ref_minT s u \<noteq> ref_minT s r) ws"

lemma separated_cong:
  assumes "\<And>u. u \<in> set us \<union> set ws \<Longrightarrow> s_parts s' u = s_parts s u"
  shows "separated s' us ws = separated s us ws"
proof -
  have "sorted_wrt (\<lambda>u r. in_memory (s_parts s' r) \<longrightarrow> ref_minT s' u \<noteq> ref_minT s' r) ws =
    sorted_wrt (\<lambda>u r. in_memory (s_parts s r) \<longrightarrow> ref_minT s u \<noteq> ref_minT s r) ws"
    by (rule iffI; erule sorted_wrt_mono_rel [rotated]) (simp_all add: assms ref_minT_def)
  thus ?thesis using assms by (auto simp: separated_def ref_minT_def)
qed

lemma separated_drop: "separated s us (r # ws) \<Longrightarrow> separated s us ws"
  by (simp add: separated_def)

lemma separated_replace:
  assumes "separated s us (r # ws)" "\<And>u. u \<in> set us \<union> set ws \<Longrightarrow> s_parts s' u = s_parts s u"
    "ref_minT s' n = ref_minT s r"
  shows "separated s' (us @ [n]) ws"
proof -
  have "separated s' us ws" using separated_cong [of us ws s' s] assms(2) separated_drop [OF assms(1)] by simp
  moreover have "ref_minT s' u = ref_minT s u" if "u \<in> set us \<union> set ws" for u using assms(2) that by (simp add: ref_minT_def)
  ultimately show ?thesis using assms by (auto simp: separated_def)
qed

definition flush_result ::
  "nat \<Rightarrow> (nat \<times> nat) list \<Rightarrow> (nat \<times> nat) list \<Rightarrow> storage \<Rightarrow> unit result \<Rightarrow> storage \<Rightarrow> bool" where
  "flush_result k ys zs s res s' \<longleftrightarrow> (\<exists>avs. list_ok s' avs \<and> s_nextRef s \<le> s_nextRef s' \<and>
     s_nextRef s' \<le> s_nextRef s + length zs \<and>
     (res = Inr () \<and> separated s (map snd (ys @ take k zs)) (map snd (drop k zs)) \<longrightarrow>
        (\<exists>rest. avs = ys @ take k zs @ rest \<and> (\<forall>r \<in> snd ` set rest. \<not> in_memory (s_parts s' r)) \<and>
           (\<forall>u \<in> snd ` set (ys @ take k zs). s_parts s' u = s_parts s u))))"

lemma flush_result_skip:
  assumes "flush_result k (ys @ [(a, r)]) zs s res s'"
  shows "flush_result (Suc k) ys ((a, r) # zs) s res s'"
  using assms unfolding flush_result_def by (auto intro: le_SucI)

lemma flush_result_other:
  assumes "flush_result 0 (ys @ [(a, r)]) zs s res s'" "\<not> in_memory (s_parts s r)"
  shows "flush_result 0 ys ((a, r) # zs) s res s'"
proof -
  obtain avs where avs: "list_ok s' avs" "s_nextRef s \<le> s_nextRef s'" "s_nextRef s' \<le> s_nextRef s + length zs"
    "res = Inr () \<and> separated s (map snd (ys @ [(a, r)])) (map snd zs) \<longrightarrow>
        (\<exists>rest. avs = (ys @ [(a, r)]) @ rest \<and> (\<forall>r \<in> snd ` set rest. \<not> in_memory (s_parts s' r)) \<and>
           (\<forall>u \<in> snd ` set (ys @ [(a, r)]). s_parts s' u = s_parts s u))"
    using assms(1) by (auto simp: flush_result_def)
  have "\<exists>rest. avs = ys @ rest \<and> (\<forall>r \<in> snd ` set rest. \<not> in_memory (s_parts s' r)) \<and>
           (\<forall>u \<in> snd ` set ys. s_parts s' u = s_parts s u)"
    if res: "res = Inr ()" and sep: "separated s (map snd ys) (map snd ((a, r) # zs))"
  proof -
    obtain rest where "avs = (ys @ [(a, r)]) @ rest" "\<forall>r \<in> snd ` set rest. \<not> in_memory (s_parts s' r)"
      "\<forall>u \<in> snd ` set (ys @ [(a, r)]). s_parts s' u = s_parts s u" using avs(4) res separated_replace [of s "map snd ys" r "map snd zs" s r] sep by auto
    thus ?thesis using assms(2) by (intro exI [of _ "(a, r) # rest"]) simp
  qed
  thus ?thesis unfolding flush_result_def using avs(1-3) by (intro exI [of _ avs]) auto
qed

lemma flush_result_flushed:
  assumes ok: "list_ok s (ys @ (a, r) # zs)" and fl: "flushed_at ys a r zs s res1 s1" and mem: "in_memory (s_parts s r)"
    and IH: "\<And>ys'. list_ok s1 (ys' @ zs) \<Longrightarrow> res1 = Inr () \<Longrightarrow> flush_result 0 ys' zs s1 res s'"
    and err: "res1 \<noteq> Inr () \<Longrightarrow> res \<noteq> Inr () \<and> s' = s1"
  shows "flush_result 0 ys ((a, r) # zs) s res s'"
proof -
  obtain ys' where ys': "list_ok s1 (ys' @ zs)" "s_nextRef s \<le> s_nextRef s1" "s_nextRef s1 \<le> Suc (s_nextRef s)"
    "\<forall>u. u \<noteq> r \<and> u < s_nextRef s \<longrightarrow> s_parts s1 u = s_parts s u"
    "res1 = Inr () \<Longrightarrow> hits_first ys a r ys' s s1"
    using fl unfolding flushed_at_def by blast
  have old: "u \<noteq> r \<and> u < s_nextRef s" if "u \<in> snd ` set ys \<union> snd ` set zs" for u
    using ok that by (auto simp: list_ok_def)
  hence same: "s_parts s1 u = s_parts s u" if "u \<in> snd ` set ys \<union> snd ` set zs" for u using ys'(4) that by blast
  show ?thesis
  proof (cases "res1 = Inr ()")
    case False
    thus ?thesis using err ys'(1-3) unfolding flush_result_def by (intro exI [of _ "ys' @ zs"]) auto
  next
    case True
    obtain avs where avs: "list_ok s' avs" "s_nextRef s1 \<le> s_nextRef s'" "s_nextRef s' \<le> s_nextRef s1 + length zs"
      "res = Inr () \<and> separated s1 (map snd ys') (map snd zs) \<longrightarrow>
        (\<exists>rest. avs = ys' @ rest \<and> (\<forall>r \<in> snd ` set rest. \<not> in_memory (s_parts s' r)) \<and>
           (\<forall>u \<in> snd ` set ys'. s_parts s' u = s_parts s1 u))"
      using IH [OF ys'(1) True] by (auto simp: flush_result_def)
    have "\<exists>rest. avs = ys @ rest \<and> (\<forall>r \<in> snd ` set rest. \<not> in_memory (s_parts s' r)) \<and>
           (\<forall>u \<in> snd ` set ys. s_parts s' u = s_parts s u)"
      if res: "res = Inr ()" and sep: "separated s (map snd ys) (map snd ((a, r) # zs))"
    proof -
      have "\<forall>u \<in> snd ` set ys. ref_minT s u \<noteq> ref_minT s r"
        using sep mem by (auto simp: separated_def)
      with hits_itself [OF ys'(5) [OF True]] consider "ys' = ys"
        | c where "ys' = ys @ [(c, s_nextRef s)]" "\<not> in_memory (s_parts s1 (s_nextRef s))"
          "ref_minT s1 (s_nextRef s) = ref_minT s r" by blast
      thus ?thesis
      proof cases
        case 1
        have "separated s (map snd ys) (map snd zs)" using sep separated_drop [of s _ r] by simp
        hence "separated s1 (map snd ys') (map snd zs)"
          using separated_cong [of "map snd ys" "map snd zs" s1 s] same 1 by auto
        thus ?thesis using avs(4) res 1 same by auto
      next
        case 2
        have "separated s (map snd ys) (r # map snd zs)" using sep by simp
        from separated_replace [OF this _ 2(3)] same have "separated s1 (map snd ys') (map snd zs)"
          using 2(1) by auto
        then obtain rest where "avs = ys' @ rest" "\<forall>r \<in> snd ` set rest. \<not> in_memory (s_parts s' r)"
          "\<forall>u \<in> snd ` set ys'. s_parts s' u = s_parts s1 u" using avs(4) res by blast
        thus ?thesis using 2 same by (intro exI [of _ "(c, s_nextRef s) # rest"]) simp
      qed
    qed
    thus ?thesis unfolding flush_result_def using avs(1-3) ys'(2,3) by (intro exI [of _ avs]) auto
  qed
qed

lemma flush_loop_result:
  assumes "list_ok s (ys @ zs)" "seg (pl_nodes (s_partitionList s)) (ahead (s_partitionList s) it) zs None"
    "length zs < fuel" "s_nextRef s + length zs < 2 ^ 62" "runtime_ok R"
  shows "\<exists>res s'. flush_loop fuel R clock i it s = Some (res, s') \<and>
    flush_result (writablePartitionsNum - i) ys zs s res s'"
  using assms(1-4)
proof (induction fuel arbitrary: i it s ys zs)
  case (Suc fuel)
  let ?l = "s_partitionList s"
  show ?case
  proof (cases zs)
    case Nil
    hence "ahead ?l it = None" using Suc.prems(2) by simp
    hence "flush_loop (Suc fuel) R clock i it s = Some (Inr (), s)" by (simp add: iter_next_ahead)
    moreover have "flush_result (writablePartitionsNum - i) ys zs s (Inr ()) s"
      using Suc.prems(1) Nil unfolding flush_result_def by (intro exI [of _ ys]) simp
    ultimately show ?thesis by blast
  next
    case (Cons ar zs')
    obtain a r where ar: "zs = (a, r) # zs'" using Cons by (cases ar) simp
    note node = seg_Cons_node [OF Suc.prems(2) [unfolded ar]]
    have nx: "iter_next ?l it = (True, At (Some a))" "iter_value ?l (At (Some a)) = Some r"
      using node(1,2) by (simp_all add: iter_next_ahead iter_value_def)
    have ok: "list_ok s ((ys @ [(a, r)]) @ zs')" "list_ok s (ys @ (a, r) # zs')" using Suc.prems(1) ar by simp_all
    have seg: "seg (pl_nodes ?l) (ahead ?l (At (Some a))) zs' None" using node(3) by simp
    have lim: "length zs' < fuel" "s_nextRef s + length zs' < 2 ^ 62" "few_partitions s" using Suc.prems(3,4) ar by simp_all
    have skip: "\<exists>res s'. flush_loop fuel R clock j (At (Some a)) s = Some (res, s') \<and>
        flush_result (writablePartitionsNum - j) (ys @ [(a, r)]) zs' s res s'" for j
      by (rule Suc.IH [OF ok(1) seg lim(1,2)])
    consider "i < writablePartitionsNum" | "\<not> i < writablePartitionsNum" "\<not> in_memory (s_parts s r)"
      | m where "\<not> i < writablePartitionsNum" "s_parts s r = MemP m" by (cases "s_parts s r") auto
    thus ?thesis
    proof cases
      case 1
      have k: "writablePartitionsNum - i = Suc (writablePartitionsNum - (i + 1))" using 1 by simp
      show ?thesis using skip [of "i + 1"] nx(1) 1 flush_result_skip unfolding ar k by fastforce
    next
      case 2
      have k: "writablePartitionsNum - i = 0" using 2 by simp
      have "flush_loop (Suc fuel) R clock i it s = flush_loop fuel R clock i (At (Some a)) s"
        using nx 2 by (cases "s_parts s r") simp_all
      thus ?thesis using skip [of i] flush_result_other [OF _ 2(2)] unfolding ar k by fastforce
    next
      case 3
      let ?x = "if inMemoryMode s then wrapS ''failed to remove partition'' (list_remove r s)
                else flush_partition R (clock r) r m s"
      obtain res1 s1 where x: "?x = Some (res1, s1)" "flushed_at ys a r zs' s res1 s1"
        using wrapS_flushed [OF list_remove_flushed [OF ok(2) lim(3)], of "''failed to remove partition''"]
          flush_partition_flushed [OF ok(2) lim(3) assms(5) 3(2), of "clock r"]
        by (cases "inMemoryMode s") auto
      have step: "flush_loop (Suc fuel) R clock i it s = thenS (Some (res1, s1)) (\<lambda>_ s. flush_loop fuel R clock i (At (Some a)) s)"
        using nx 3 x(1) by simp
      have mem: "in_memory (s_parts s r)" and k: "writablePartitionsNum - i = 0" using 3 by simp_all
      have bound: "s_nextRef s1 + length zs' < 2 ^ 62" "seg (pl_nodes (s_partitionList s1)) (ahead (s_partitionList s1) (At (Some a))) zs' None"
        using x(2) Suc.prems(4) ar by (auto simp: flushed_at_def)
      obtain ys1 where ys1: "list_ok s1 (ys1 @ zs')" using x(2) by (auto simp: flushed_at_def)
      show ?thesis
      proof (cases res1)
        case (Inl e)
        have "flush_result 0 ys ((a, r) # zs') s (Inl e) s1"
          by (rule flush_result_flushed [OF ok(2) x(2) mem]) (use Inl in simp_all)
        thus ?thesis unfolding step ar k using Inl by (simp add: thenS_def)
      next
        case (Inr u)
        obtain res s' where lp: "flush_loop fuel R clock i (At (Some a)) s1 = Some (res, s')"
          using Suc.IH [OF ys1 bound(2) lim(1) bound(1)] by blast
        have "flush_result 0 ys' zs' s1 res s'" if "list_ok s1 (ys' @ zs')" for ys'
          using Suc.IH [OF that bound(2) lim(1) bound(1), of i] lp k by simp
        hence "flush_result 0 ys ((a, r) # zs') s res s'"
          by (intro flush_result_flushed [OF ok(2) x(2) mem]) (use Inr in simp_all)
        thus ?thesis unfolding step ar k using Inr lp by (simp add: thenS_def)
      qed
    qed
  qed
qed simp

lemma flushPartitions_result:
  assumes "list_ok s avs" "s_nextRef s + length avs < 2 ^ 62" "runtime_ok R"
  shows "\<exists>res s'. flushPartitions R clock s = Some (res, s') \<and> flush_result writablePartitionsNum [] avs s res s'"
proof -
  let ?l = "s_partitionList s"
  have rep: "represents ?l avs" using assms(1) by (simp add: list_ok_def)
  have "seg (pl_nodes ?l) (ahead ?l (newIterator ?l)) avs None" "length avs < pl_fuel ?l"
    using rep represents_length [OF rep] by (simp_all add: represents_def newIterator_def pl_fuel_def)
  from flush_loop_result [of s "[]" avs, OF _ this assms(2,3), of clock 0] assms(1) show ?thesis
    by (simp add: flushPartitions_def)
qed

text \<open>The loop passes partitions that are not in memory, and deals with the last one, which is.\<close>

lemma flush_loop_passes:
  assumes "seg (pl_nodes (s_partitionList s)) (ahead (s_partitionList s) it) (us @ zs) None"
    "\<forall>k < length us. i + k < writablePartitionsNum \<or> \<not> in_memory (s_parts s (snd (us ! k)))"
  shows "\<exists>it' j. flush_loop (length us + fuel) R clock i it s = flush_loop fuel R clock j it' s \<and>
    (j = i + length us \<or> writablePartitionsNum \<le> j) \<and>
    seg (pl_nodes (s_partitionList s)) (ahead (s_partitionList s) it') zs None"
  using assms
proof (induction us arbitrary: i it)
  case (Cons x us)
  obtain a r where x: "x = (a, r)" by fastforce
  let ?l = "s_partitionList s" and ?j = "if i < writablePartitionsNum then i + 1 else i"
  note node = seg_Cons_node [OF Cons.prems(1) [unfolded x append_Cons]]
  have nx: "iter_next ?l it = (True, At (Some a))" "iter_value ?l (At (Some a)) = Some r"
    using node(1,2) by (simp_all add: iter_next_ahead iter_value_def)
  have "i < writablePartitionsNum \<or> \<not> in_memory (s_parts s r)" using Cons.prems(2) x by force
  hence step: "flush_loop (length (x # us) + fuel) R clock i it s = flush_loop (length us + fuel) R clock ?j (At (Some a)) s"
    using nx by (cases "s_parts s r") auto
  have "?j + k < writablePartitionsNum \<or> \<not> in_memory (s_parts s (snd (us ! k)))" if "k < length us" for k
    using spec [OF Cons.prems(2), of "Suc k"] that by auto
  hence "\<forall>k < length us. ?j + k < writablePartitionsNum \<or> \<not> in_memory (s_parts s (snd (us ! k)))" by blast
  from Cons.IH [OF _ this, of "At (Some a)"] node(3) obtain it' j where
    "flush_loop (length us + fuel) R clock ?j (At (Some a)) s = flush_loop fuel R clock j it' s"
    "j = ?j + length us \<or> writablePartitionsNum \<le> j" "seg (pl_nodes ?l) (ahead ?l it') zs None" by auto
  thus ?case unfolding step by (intro exI [of _ it'] exI [of _ j]) (auto split: if_splits)
qed auto

lemma first_split_unique:
  "us @ v # ws = xs @ x # zs \<Longrightarrow> P v \<Longrightarrow> P x \<Longrightarrow> \<forall>u \<in> set us. \<not> P u \<Longrightarrow> \<forall>u \<in> set xs. \<not> P u \<Longrightarrow>
   us = xs \<and> v = x \<and> ws = zs"
proof (induction us arbitrary: xs)
  case Nil
  thus ?case by (cases xs) auto
next
  case (Cons u us)
  thus ?case by (cases xs) auto
qed

lemma flushPartitions_last:
  assumes ok: "list_ok s (us @ [(a, r)])" and R: "runtime_ok R" and few: "few_partitions s"
    and us: "writablePartitionsNum \<le> length us" "\<forall>u \<in> snd ` set (drop writablePartitionsNum us). \<not> in_memory (s_parts s u)"
    and mem: "in_memory (s_parts s r)" and fl: "flushPartitions R clock s = Some (res, s')"
  shows "flushed_at us a r [] s res s'"
proof -
  let ?l = "s_partitionList s"
  have rep: "represents ?l (us @ [(a, r)])" using ok by (simp add: list_ok_def)
  have seg: "seg (pl_nodes ?l) (ahead ?l (newIterator ?l)) (us @ [(a, r)]) None" and fuel: "length us + 2 \<le> pl_fuel ?l"
    using rep represents_length [OF rep] by (simp_all add: represents_def newIterator_def pl_fuel_def)
  obtain n where n: "pl_fuel ?l = length us + Suc (Suc n)" using fuel by (metis add_Suc_right le_Suc_ex numeral_2_eq_2 plus_nat.simps add.assoc)
  have "0 + k < writablePartitionsNum \<or> \<not> in_memory (s_parts s (snd (us ! k)))" if "k < length us" for k
  proof (cases "k < writablePartitionsNum")
    case False
    hence "us ! k = drop writablePartitionsNum us ! (k - writablePartitionsNum)" using that by simp
    hence "us ! k \<in> set (drop writablePartitionsNum us)" using that False by (metis diff_less_mono length_drop not_less nth_mem)
    thus ?thesis using us(2) by simp
  qed simp
  then obtain it j where lp: "flushPartitions R clock s = flush_loop (Suc (Suc n)) R clock j it s"
    "writablePartitionsNum \<le> j" "seg (pl_nodes ?l) (ahead ?l it) [(a, r)] None"
    using flush_loop_passes [OF seg, of 0 "Suc (Suc n)" R clock] us(1) unfolding flushPartitions_def n by auto
  note node = seg_Cons_node [OF lp(3)]
  have nx: "iter_next ?l it = (True, At (Some a))" "iter_value ?l (At (Some a)) = Some r"
    using node(1,2) by (simp_all add: iter_next_ahead iter_value_def)
  obtain m where m: "s_parts s r = MemP m" using mem by (cases "s_parts s r") auto
  let ?x = "if inMemoryMode s then wrapS ''failed to remove partition'' (list_remove r s)
            else flush_partition R (clock r) r m s"
  obtain res1 s1 where x: "?x = Some (res1, s1)" "flushed_at us a r [] s res1 s1"
    using wrapS_flushed [OF list_remove_flushed [OF ok few], of "''failed to remove partition''"]
      flush_partition_flushed [OF ok few R m, of "clock r"] by (cases "inMemoryMode s") auto
  have "ahead (s_partitionList s1) (At (Some a)) = None" using x(2) by (auto simp: flushed_at_def)
  hence "thenS (Some (res1, s1)) (\<lambda>_. flush_loop (Suc n) R clock j (At (Some a))) = Some (res1, s1)"
    by (cases res1) (simp_all add: thenS_def iter_next_ahead)
  hence "flushPartitions R clock s = Some (res1, s1)" using lp(1,2) nx m x(1) by simp
  thus ?thesis using fl x(2) by simp
qed

section \<open>Expiry, closing and starting\<close>

text \<open>Removal of any reference: the state changes in the list and the file system only.\<close>

lemma remove_first_sub: "set (remove_first P xs) \<subseteq> set xs" "distinct xs \<Longrightarrow> distinct (remove_first P xs)"
proof -
  show sub: "set (remove_first P xs) \<subseteq> set xs" for xs by (induction xs) auto
  show "distinct xs \<Longrightarrow> distinct (remove_first P xs)"
  proof (induction xs)
    case (Cons x xs)
    thus ?case using sub [of xs] by auto
  qed simp
qed

lemma list_remove_ok:
  assumes "list_ok s avs" "few_partitions s"
  shows "\<exists>res s' avs'. list_remove r s = Some (res, s') \<and> list_ok s' avs' \<and> s_nextRef s' = s_nextRef s \<and>
    map snd avs' = remove_first (\<lambda>u. ref_minT s u = ref_minT s r) (map snd avs) \<and> s_parts s' = s_parts s"
proof -
  let ?refs = "map snd avs" and ?P = "\<lambda>u. ref_minT s u = ref_minT s r"
  have len: "int (length ?refs) < 2 ^ 63" using list_ok_length [OF assms(1)] assms(2) by simp
  note rep = list_ok_repr [OF assms(1)]
  have "\<exists>res fs' l'. pl_remove (ref_minT s) (\<lambda>r. clean (s_parts s r)) r (s_fs s) (s_partitionList s) = Some (res, fs', l') \<and>
      pl_repr l' (remove_first ?P ?refs)"
  proof (cases "\<exists>v \<in> set ?refs. ref_minT s v = ref_minT s r")
    case True
    from heap_list.rem_found [OF rep len True, where clean = "\<lambda>r. clean (s_parts s r)" and w = "s_fs s"] show ?thesis by blast
  next
    case False
    hence "remove_first ?P ?refs = ?refs" using first_none(1) [of ?refs ?P] by blast
    thus ?thesis using heap_list.rem_absent [OF rep False, where clean = "\<lambda>r. clean (s_parts s r)" and w = "s_fs s"] rep by fastforce
  qed
  then obtain res fs' l' avs' where l': "pl_remove (ref_minT s) (\<lambda>r. clean (s_parts s r)) r (s_fs s) (s_partitionList s) = Some (res, fs', l')"
    "represents l' avs'" "map snd avs' = remove_first ?P ?refs" unfolding pl_repr_def by blast
  let ?s = "s\<lparr>s_fs := fs', s_partitionList := l'\<rparr>"
  have sub: "set (map snd avs') \<subseteq> set ?refs" "distinct (map snd avs')"
    using remove_first_sub(1) [of ?P ?refs] remove_first_sub(2) [of ?refs ?P] assms(1) unfolding l'(3) by (simp_all add: list_ok_def)
  have "\<forall>u \<in> snd ` set avs. u < s_nextRef s \<and> part_ok (s_parts s u)" using assms(1) by (simp add: list_ok_def)
  hence "\<forall>u \<in> set (map snd avs'). u < s_nextRef s \<and> part_ok (s_parts s u)" using sub(1) by (metis set_map subsetD)
  hence "list_ok ?s avs'" using l'(2) sub(2) by (simp add: list_ok_def)
  thus ?thesis using l'(1,3) by (intro exI [of _ res] exI [of _ ?s] exI [of _ avs']) (simp add: list_remove_def)
qed

lemma remove_refs_ok:
  "list_ok s avs \<Longrightarrow> few_partitions s \<Longrightarrow>
   \<exists>res s' avs'. remove_refs refs s = Some (res, s') \<and> list_ok s' avs' \<and> s_nextRef s' = s_nextRef s"
proof (induction refs arbitrary: s avs)
  case (Cons r refs)
  obtain res s1 avs1 where s1: "list_remove r s = Some (res, s1)" "list_ok s1 avs1" "s_nextRef s1 = s_nextRef s"
    using list_remove_ok [OF Cons.prems, of r] by blast
  show ?case
  proof (cases res)
    case (Inl e)
    thus ?thesis using s1 by auto
  next
    case (Inr u)
    thus ?thesis using s1 Cons.IH [OF s1(2)] Cons.prems(2) by auto
  qed
qed auto

lemma removeExpiredPartitions_ok:
  assumes "list_ok s avs" "few_partitions s"
  shows "\<exists>res s' avs'. removeExpiredPartitions clock s = Some (res, s') \<and> list_ok s' avs' \<and> s_nextRef s' = s_nextRef s"
  using remove_refs_ok [OF assms] list_ok_values [OF assms(1)] by (simp add: removeExpiredPartitions_def)

lemma close_heads_ok:
  "list_ok s avs \<Longrightarrow> s_nextRef s + n < 2 ^ 62 \<Longrightarrow>
   \<exists>res s' avs'. close_heads n s = (res, s') \<and> list_ok s' avs' \<and> s_nextRef s \<le> s_nextRef s' \<and>
     s_nextRef s' \<le> s_nextRef s + n"
proof (induction n arbitrary: s avs)
  case (Suc n)
  obtain res s1 where np: "newPartition None True s = (res, s1)" by fastforce
  have ok: "list_ok s1 ((pl_fresh (s_partitionList s), s_nextRef s) # avs)" "s_nextRef s1 = Suc (s_nextRef s)"
    using newPartition_ok [OF np Suc.prems(1)] Suc.prems(2) by simp_all
  show ?case
  proof (cases res)
    case (Inl e)
    thus ?thesis using np ok by auto
  next
    case (Inr u)
    obtain res s' avs' where "close_heads n s1 = (res, s')" "list_ok s' avs'" "s_nextRef s1 \<le> s_nextRef s'"
      "s_nextRef s' \<le> s_nextRef s1 + n" using Suc.IH [OF ok(1)] Suc.prems(2) ok(2) by auto
    thus ?thesis using np Inr ok(2) by auto
  qed
qed auto

text \<open>Sequencing of operations that return and keep the invariant.\<close>

definition keeps :: "storage \<Rightarrow> ('a result \<times> storage) option \<Rightarrow> nat \<Rightarrow> bool" where
  "keeps s x k \<longleftrightarrow> (\<exists>res s'. x = Some (res, s') \<and> storage_ok s' \<and> s_nextRef s \<le> s_nextRef s' \<and> s_nextRef s' \<le> s_nextRef s + k)"

lemma keeps_wrapS [intro]: "keeps s x k \<Longrightarrow> keeps s (wrapS msg x) k"
  by (auto simp: keeps_def wrapS_def)

lemma keeps_mono: "keeps s x k \<Longrightarrow> k \<le> n \<Longrightarrow> keeps s x n"
  by (fastforce simp: keeps_def)

lemma keeps_thenS:
  assumes "keeps s x k" "\<And>s' a. storage_ok s' \<Longrightarrow> s_nextRef s \<le> s_nextRef s' \<Longrightarrow> s_nextRef s' \<le> s_nextRef s + k \<Longrightarrow> keeps s' (f a s') n"
  shows "keeps s (thenS x f) (k + n)"
proof -
  obtain res s' where x: "x = Some (res, s')" "storage_ok s'" "s_nextRef s \<le> s_nextRef s'" "s_nextRef s' \<le> s_nextRef s + k"
    using assms(1) by (auto simp: keeps_def)
  show ?thesis
  proof (cases res)
    case (Inl e)
    thus ?thesis using x by (auto simp: keeps_def thenS_def)
  next
    case (Inr a)
    obtain res2 s2 where "f a s' = Some (res2, s2)" "storage_ok s2" "s_nextRef s' \<le> s_nextRef s2" "s_nextRef s2 \<le> s_nextRef s' + n"
      using assms(2) [OF x(2-4), of a] by (auto simp: keeps_def)
    thus ?thesis using x Inr by (auto simp: keeps_def thenS_def)
  qed
qed

lemma keeps_on_wal:
  assumes "storage_ok s"
  shows "keeps s (Some (on_wal f s)) 0"
proof -
  obtain r s' where w: "on_wal f s = (r, s')" by fastforce
  have "storage_ok s'" "s_nextRef s' = s_nextRef s"
    using assms on_wal_list_ok(1,2) [OF w] by (simp_all add: storage_ok_def)
  thus ?thesis using w by (simp add: keeps_def)
qed

lemma keeps_flushPartitions:
  assumes "storage_ok s" "s_nextRef s < 2 ^ 61" "runtime_ok R"
  shows "keeps s (flushPartitions R clock s) (s_nextRef s)"
proof -
  obtain avs where avs: "list_ok s avs" using assms(1) by (auto simp: storage_ok_def)
  have "s_nextRef s + length avs < 2 ^ 62" using list_ok_length [OF avs] assms(2) by simp
  from flushPartitions_result [OF avs this assms(3), of clock] list_ok_length [OF avs] show ?thesis
    by (fastforce simp: keeps_def flush_result_def storage_ok_def)
qed

lemma keeps_removeExpired:
  assumes "storage_ok s" "few_partitions s"
  shows "keeps s (removeExpiredPartitions clock s) 0"
  using assms removeExpiredPartitions_ok [of s _ clock] unfolding keeps_def storage_ok_def by fastforce

lemma keeps_close_heads:
  assumes "storage_ok s" "s_nextRef s + n < 2 ^ 62"
  shows "keeps s (Some (close_heads n s)) n"
  using assms close_heads_ok [of s _ n] unfolding keeps_def storage_ok_def by fastforce

lemma keeps_Close:
  assumes "storage_ok s" "s_nextRef s < 2 ^ 60" "runtime_ok R"
  shows "keeps s (Close R clock s) (s_nextRef s + 4)"
proof (cases "s_done s")
  case True
  thus ?thesis using assms by (auto simp: Close_def keeps_def)
next
  case False
  have ok: "storage_ok (s\<lparr>s_done := True\<rparr>)" using assms(1) by (simp add: storage_ok_def list_ok_def)
  let ?s = "s\<lparr>s_done := True\<rparr>" and ?N = "s_nextRef s"
  have "keeps ?s (Close R clock s) (0 + (2 + ((?N + 2) + (0 + 0))))"
    unfolding Close_def if_not_P [OF False]
  proof (rule keeps_thenS, rule keeps_wrapS, rule keeps_on_wal [OF ok], rule keeps_thenS)
    fix s1 assume 1: "storage_ok s1" "s_nextRef s1 \<le> s_nextRef ?s + 0"
    thus "keeps s1 (Some (close_heads writablePartitionsNum s1)) 2"
      unfolding writablePartitionsNum_def by (intro keeps_close_heads) (use assms(2) in simp_all)
    fix s2 assume 2: "storage_ok s2" "s_nextRef s2 \<le> s_nextRef s1 + 2"
    hence N: "s_nextRef s2 < 2 ^ 61" "s_nextRef s2 \<le> ?N + 2" using 1 assms(2) by simp_all
    show "keeps s2 (thenS (wrapS ''failed to close storage'' (flushPartitions R clock s2)) (\<lambda>_ s.
        thenS (wrapS ''failed to remove expired partitions'' (removeExpiredPartitions clock s)) (\<lambda>_ s.
        wrapS ''failed to remove WAL'' (Some (on_wal wal_removeAll s))))) ((?N + 2) + (0 + 0))"
    proof (rule keeps_thenS, rule keeps_wrapS, rule keeps_mono [OF keeps_flushPartitions [OF 2(1) N(1) assms(3)] N(2)], rule keeps_thenS)
      fix s3 assume 3: "storage_ok s3" "s_nextRef s3 \<le> s_nextRef s2 + (?N + 2)"
      thus "keeps s3 (wrapS ''failed to remove expired partitions'' (removeExpiredPartitions clock s3)) 0"
        by (intro keeps_wrapS keeps_removeExpired) (use N assms(2) in simp_all)
    qed (intro keeps_wrapS keeps_on_wal)
  qed
  from keeps_mono [OF this, of "?N + 4"] show ?thesis by (simp add: keeps_def)
qed

text \<open>The storage before its partitions are read: the list is empty.\<close>

lemma options_fields:
  "s_partitionList (foldl apply_option s opts) = s_partitionList s \<and> s_nextRef (foldl apply_option s opts) = s_nextRef s \<and>
   s_parts (foldl apply_option s opts) = s_parts s"
proof (induction opts arbitrary: s)
  case (Cons opt opts)
  have "s_partitionList (apply_option s opt) = s_partitionList s \<and> s_nextRef (apply_option s opt) = s_nextRef s \<and>
    s_parts (apply_option s opt) = s_parts s" by (cases opt) simp_all
  thus ?case using Cons.IH [of "apply_option s opt"] by simp
qed simp

lemma list_ok_default:
  "list_ok (foldl apply_option (default_storage n fs) opts) []"
  "s_nextRef (foldl apply_option (default_storage n fs) opts) = 0"
  "fits rows (foldl apply_option (default_storage n fs) opts) \<longleftrightarrow> int (length rows) < 2 ^ 63"
  using options_fields [of "default_storage n fs" opts]
  by (simp_all add: list_ok_def default_storage_def represents_def newPartitionList_def fits_def)

lemma add_partitions_ok:
  assumes "list_ok s avs" "s_nextRef s + length ps < 2 ^ 62"
  shows "\<exists>avs'. list_ok (foldl (\<lambda>s p. snd (newPartition (Some (DiskP p)) False s)) s ps) avs' \<and>
    s_nextRef (foldl (\<lambda>s p. snd (newPartition (Some (DiskP p)) False s)) s ps) = s_nextRef s + length ps \<and>
    (fits rows s \<longrightarrow> fits rows (foldl (\<lambda>s p. snd (newPartition (Some (DiskP p)) False s)) s ps))"
  using assms
proof (induction ps arbitrary: s avs)
  case (Cons p ps)
  obtain res s1 where np: "newPartition (Some (DiskP p)) False s = (res, s1)" by fastforce
  have ok: "list_ok s1 ((pl_fresh (s_partitionList s), s_nextRef s) # avs)" "s_nextRef s1 = Suc (s_nextRef s)"
    "s_parts s1 = (s_parts s)(s_nextRef s := DiskP p)"
    using newPartition_ok [OF np Cons.prems(1)] Cons.prems(2) by simp_all
  have "fits rows s \<longrightarrow> fits rows s1" using ok(3) by (auto simp: fits_def)
  thus ?case using np Cons.IH [OF ok(1)] ok(2) Cons.prems(2) by auto
qed auto

text \<open>Starting succeeds in a state that satisfies the invariant, if what is read fits.\<close>

definition reads_few :: "(storage \<times> bool) \<Rightarrow> bool" where
  "reads_few sb \<longleftrightarrow> s_nextRef (fst sb) < 2 ^ 60 \<and>
     (\<forall>files fs rows fs'. newDiskWALReader (s_dataPath (fst sb) @ [walDirName]) (s_fs (fst sb)) = (Inr files, fs) \<and>
        readAll (s_dataPath (fst sb) @ [walDirName]) files [] fs = (Inr rows, fs') \<longrightarrow> int (length rows) < 2 ^ 63)"

lemma recoverWAL_ok:
  assumes "recoverWAL R clock dir s = (res, s')" "list_ok s avs" "few_partitions s" "\<And>r. clock_ok (clock r)"
    "\<And>files fs rows fs'. newDiskWALReader dir (s_fs s) = (Inr files, fs) \<Longrightarrow>
       readAll dir files [] fs = (Inr rows, fs') \<Longrightarrow> int (length rows) < 2 ^ 63 \<and> fits rows s"
  shows "storage_ok s' \<and> s_nextRef s' \<le> Suc (s_nextRef s)"
proof -
  have upd: "list_ok (s\<lparr>s_fs := fs\<rparr>) avs" "fits rows (s\<lparr>s_fs := fs\<rparr>) = fits rows s" for fs rows
    using assms(2) by (simp_all add: list_ok_def fits_def)
  obtain r1 fs1 where rd: "newDiskWALReader dir (s_fs s) = (r1, fs1)" by fastforce
  show ?thesis
  proof (cases r1)
    case (Inl e)
    thus ?thesis using assms(1) rd upd by (auto simp: recoverWAL_def storage_ok_def)
  next
    case files: (Inr files)
    obtain r2 fs2 where ra: "readAll dir files [] fs1 = (r2, fs2)" by fastforce
    show ?thesis
    proof (cases "\<exists>rows. r2 = Inr rows \<and> rows \<noteq> []")
      case False
      hence "s' = s\<lparr>s_fs := fs2\<rparr>"
        using assms(1) rd files ra by (cases r2) (auto simp: recoverWAL_def Let_def)
      thus ?thesis using upd by (auto simp: storage_ok_def)
    next
      case True
      then obtain rows where rows: "r2 = Inr rows" "rows \<noteq> []" by blast
      obtain r3 s3 where ins: "InsertRows R clock True rows (s\<lparr>s_fs := fs2\<rparr>) = (r3, s3)" by fastforce
      have "int (length rows) < 2 ^ 63" "fits rows s" using assms(5) rd files ra rows by auto
      hence ok: "storage_ok s3 \<and> s_nextRef s3 \<le> Suc (s_nextRef s)" using InsertRows_ok [OF ins upd(1)] assms(3,4) upd(2) by simp
      show ?thesis
      proof (cases r3)
        case (Inl e)
        thus ?thesis using ok assms(1) rd files ra rows ins by (simp add: recoverWAL_def)
      next
        case (Inr u)
        hence "on_wal wal_refresh s3 = (res, s')" using assms(1) rd files ra rows ins by (simp add: recoverWAL_def)
        from on_wal_list_ok(1,2) [OF this] ok show ?thesis by (simp add: storage_ok_def)
      qed
    qed
  qed
qed

lemma open_storage_ok:
  assumes "open_storage srt n opts fs = (Inr (s, b), fs')" "s_nextRef s < 2 ^ 60"
  shows "\<exists>avs. list_ok s avs \<and> (int (length rows) < 2 ^ 63 \<longrightarrow> fits rows s)"
proof -
  let ?d = "foldl apply_option (default_storage n fs) opts"
  let ?add = "foldl (\<lambda>s p. snd (newPartition (Some (DiskP p)) False s))"
  have upd: "list_ok (?d\<lparr>s_wal := w, s_fs := fs1\<rparr>) []" "s_nextRef (?d\<lparr>s_wal := w, s_fs := fs1\<rparr>) = 0"
    "fits rows (?d\<lparr>s_wal := w, s_fs := fs1\<rparr>) \<longleftrightarrow> int (length rows) < 2 ^ 63" for w fs1
    using list_ok_default(1,2) [of n fs opts] list_ok_default(3) [of rows n fs opts] by (simp_all add: list_ok_def fits_def)
  have new: "\<exists>avs. list_ok s1 avs \<and> (int (length rows) < 2 ^ 63 \<longrightarrow> fits rows s1)"
    if np: "newPartition None False s0 = (r, s1)" and s0: "list_ok s0 []" "s_nextRef s0 = 0"
      "fits rows s0 \<longleftrightarrow> int (length rows) < 2 ^ 63" for r s0 s1
    using newPartition_ok [OF np s0(1)] s0(2,3) by (auto simp: fits_def split: if_splits)
  have count: "s_nextRef (?add s0 ps) = s_nextRef s0 + length ps" for s0 ps
    by (induction ps arbitrary: s0) (simp_all add: newPartition_def new_ref_def)
  consider r s0 where "newPartition None False s0 = (r, s)" "list_ok s0 []" "s_nextRef s0 = 0"
      "fits rows s0 \<longleftrightarrow> int (length rows) < 2 ^ 63"
    | s0 ps where "s = ?add s0 ps" "list_ok s0 []" "s_nextRef s0 = 0" "fits rows s0 \<longleftrightarrow> int (length rows) < 2 ^ 63"
    using assms(1) upd list_ok_default(1,2) [of n fs opts] list_ok_default(3) [of rows n fs opts]
    by (auto simp: open_storage_def Let_def split: prod.splits sum.splits if_splits)
  thus ?thesis
  proof cases
    case 1
    thus ?thesis by (rule new)
  next
    case 2
    have "s_nextRef s0 + length ps < 2 ^ 62" using count [of s0 ps] 2(1) assms(2) by simp
    thus ?thesis using add_partitions_ok [OF 2(2), of ps rows] 2(1,4) by blast
  qed
qed

lemma NewStorage_ok:
  assumes "NewStorage R srt clock n opts fs = (Inr s, fs')" "\<And>r. clock_ok (clock r)"
    "\<And>sb fs1. open_storage srt n opts fs = (Inr sb, fs1) \<Longrightarrow> reads_few sb"
  shows "storage_ok s"
proof -
  obtain s0 b fs1 where op: "open_storage srt n opts fs = (Inr (s0, b), fs1)"
    using assms(1) by (auto simp: NewStorage_def split: prod.splits sum.splits)
  have few: "reads_few (s0, b)" "s_nextRef s0 < 2 ^ 60" using assms(3) [OF op] by (simp, simp add: reads_few_def)
  obtain avs where avs: "list_ok s0 avs" using open_storage_ok [OF op few(2)] by blast
  have fit: "fits rows s0" if "int (length rows) < 2 ^ 63" for rows
    using open_storage_ok [OF op few(2), of rows] that by blast
  show ?thesis
  proof (cases b)
    case False
    thus ?thesis using assms(1) op avs by (auto simp: NewStorage_def storage_ok_def)
  next
    case True
    obtain r s1 where rec: "recoverWAL R clock (s_dataPath s0 @ [walDirName]) s0 = (r, s1)" by fastforce
    have "int (length rows) < 2 ^ 63 \<and> fits rows s0"
      if "newDiskWALReader (s_dataPath s0 @ [walDirName]) (s_fs s0) = (Inr files, fs)"
        "readAll (s_dataPath s0 @ [walDirName]) files [] fs = (Inr rows, fs')" for files fs rows fs'
      using few(1) that fit [of rows] by (auto simp: reads_few_def)
    from recoverWAL_ok [OF rec avs _ assms(2) this] few(2)
    have ok: "storage_ok s1" "s_nextRef s1 \<le> Suc (s_nextRef s0)" by simp_all
    then obtain avs1 where avs1: "list_ok s1 avs1" by (auto simp: storage_ok_def)
    obtain r2 s2 where np: "newPartition None False s1 = (r2, s2)" by fastforce
    have "list_ok s2 ((pl_fresh (s_partitionList s1), s_nextRef s1) # avs1)"
      using newPartition_ok [OF np avs1] ok(2) few(2) by simp
    moreover have "s = s2\<lparr>s_ticker := True\<rparr>"
      using assms(1) op True rec np by (auto simp: NewStorage_def split: sum.splits)
    ultimately have "list_ok s ((pl_fresh (s_partitionList s1), s_nextRef s1) # avs1)" by (simp add: list_ok_def)
    thus ?thesis unfolding storage_ok_def by blast
  qed
qed

section \<open>The storage as a transition system\<close>

text \<open>
  The steps of a running storage: its operations, a pending flush, a tick of the expiry timer, and
  new faults ahead of the next system calls. Rows come with a clock between 1970 and 2262 and fit
  into memory.
\<close>

inductive storage_step :: "Runtime \<Rightarrow> storage \<Rightarrow> storage \<Rightarrow> bool" for R :: Runtime where
  insert: "InsertRows R clock freed rows s = (res, s') \<Longrightarrow> (\<And>r. clock_ok (clock r)) \<Longrightarrow> fits rows s \<Longrightarrow>
    int (length rows) < 2 ^ 63 \<Longrightarrow> storage_step R s s'"
| select: "Select R time metric labels start end s = Some (res, s') \<Longrightarrow> storage_step R s s'"
| flush: "0 < s_pending s \<Longrightarrow> flushPartitions R time (s\<lparr>s_pending := s_pending s - 1\<rparr>) = Some (res, s') \<Longrightarrow>
    storage_step R s s'"
| tick: "s_ticker s \<Longrightarrow> \<not> s_done s \<Longrightarrow> removeExpiredPartitions time s = Some (res, s') \<Longrightarrow> storage_step R s s'"
| close: "Close R time s = Some (res, s') \<Longrightarrow> storage_step R s s'"
| fault: "storage_step R s (s\<lparr>s_fs := (s_fs s)\<lparr>fs_faults := faults\<rparr>\<rparr>)"

inductive reachable :: "Runtime \<Rightarrow> storage \<Rightarrow> bool" for R :: Runtime where
  start: "NewStorage R sortParts clock n opts fs = (Inr s, fs') \<Longrightarrow> (\<And>r. clock_ok (clock r)) \<Longrightarrow>
    (\<And>sb fs1. open_storage sortParts n opts fs = (Inr sb, fs1) \<Longrightarrow> reads_few sb) \<Longrightarrow> reachable R s"
| step: "reachable R s \<Longrightarrow> s_nextRef s < 2 ^ 60 \<Longrightarrow> storage_step R s s' \<Longrightarrow> reachable R s'"

lemma keepsD: "keeps s x k \<Longrightarrow> x = Some (res, s') \<Longrightarrow> storage_ok s'"
  by (auto simp: keeps_def)

lemma storage_step_ok:
  assumes "storage_step R s s'" "storage_ok s" "s_nextRef s < 2 ^ 60" "runtime_ok R"
  shows "storage_ok s'"
  using assms(1)
proof cases
  case (insert clock freed rows res)
  obtain avs where "list_ok s avs" using assms(2) by (auto simp: storage_ok_def)
  from InsertRows_ok [OF insert(1) this _ insert(2-4)] assms(3) show ?thesis by simp
next
  case (select time metric labels start "end" res)
  obtain avs where "list_ok s avs" using assms(2) by (auto simp: storage_ok_def)
  from Select_ok [OF this, of R time metric labels start "end"] select show ?thesis by (auto simp: storage_ok_def)
next
  case (flush time res)
  let ?s = "s\<lparr>s_pending := s_pending s - 1\<rparr>"
  have "storage_ok ?s" using assms(2) by (simp add: storage_ok_def list_ok_def)
  from keepsD [OF keeps_flushPartitions [OF this _ assms(4)] flush(2)] assms(3) show ?thesis by simp
next
  case (tick time res)
  show ?thesis using keepsD [OF keeps_removeExpired [OF assms(2)] tick(3)] assms(3) by simp
next
  case (close time res)
  show ?thesis by (rule keepsD [OF keeps_Close [OF assms(2-4)] close])
next
  case (fault faults)
  thus ?thesis using assms(2) by (simp add: storage_ok_def list_ok_def)
qed

lemma reachable_ok:
  assumes "reachable R s" "runtime_ok R"
  shows "storage_ok s"
  using assms(1)
proof induction
  case (start sortParts clock n opts fs s fs')
  thus ?case by (rule NewStorage_ok)
next
  case (step s s')
  thus ?case using storage_step_ok assms(2) by blast
qed

section \<open>Properties\<close>

text \<open>
  C7: The invariant of the storage. However a storage is started, whatever operations run in
  whatever order, and whichever system calls fail: the linked list of partitions is well formed
  and ends, its count is exact, no partition occurs in it twice, and every memory partition has an
  exact number of points, well-formed metrics and all its points within its time range.
\<close>

theorem storage_invariant:
  assumes "reachable R s" and "runtime_ok R"
  shows "\<exists>refs. pl_values (s_partitionList s) = Some refs \<and> pl_size (s_partitionList s) = int (length refs) \<and>
    distinct refs \<and> (\<forall>r m. r \<in> set refs \<and> s_parts s r = MemP m \<longrightarrow> mp_ok m)"
proof -
  obtain avs where avs: "list_ok s avs" using reachable_ok [OF assms] by (auto simp: storage_ok_def)
  have "mp_ok m" if "r \<in> set (map snd avs)" "s_parts s r = MemP m" for r m
    using avs that by (auto simp: list_ok_def)
  moreover have "distinct (map snd avs)" using avs by (simp add: list_ok_def)
  ultimately show ?thesis using list_ok_values [OF avs] pl_repr_size [OF list_ok_repr [OF avs]]
    by (intro exI [of _ "map snd avs"]) auto
qed

definition fresh_storage :: storage where
  "fresh_storage = snd (newPartition None False (default_storage 1 empty_fs))"

lemma fresh_storage_reachable: "reachable stable_runtime fresh_storage"
proof (rule reachable.start)
  show "NewStorage stable_runtime (\<lambda>ps. ps) (\<lambda>_ _. 5) 1 [] empty_fs = (Inr fresh_storage, empty_fs)"
    by (simp add: NewStorage_def open_storage_def inMemoryMode_def default_storage_def fresh_storage_def
        newPartition_def new_ref_def)
  show "clock_ok (\<lambda>_. 5)" by (simp add: clock_ok_def)
  fix sb fs1 assume "open_storage (\<lambda>ps. ps) 1 [] empty_fs = (Inr sb, fs1)"
  hence "sb = (fresh_storage, False)"
    by (simp add: open_storage_def inMemoryMode_def default_storage_def fresh_storage_def newPartition_def new_ref_def)
  thus "reads_few sb"
    by (simp add: reads_few_def fresh_storage_def default_storage_def newPartition_def new_ref_def newDiskWALReader_def
        ReadDir_def empty_fs_def lookup_def walDirName_def)
qed

theorem storage_invariant_witness:
  "\<exists>refs. pl_values (s_partitionList fresh_storage) = Some refs \<and> distinct refs \<and>
    (\<forall>r m. r \<in> set refs \<and> s_parts fresh_storage r = MemP m \<longrightarrow> mp_ok m)"
  using storage_invariant [OF fresh_storage_reachable runtime_ok_stable] by auto

text \<open>
  C8: Every operation of a storage returns, in every reachable state: no selection, no flush of
  partitions, no removal of expired partitions and no shutdown follows pointers for ever, even
  though flushing changes the list it walks.
\<close>

theorem storage_operations_return:
  assumes "reachable R s" and "runtime_ok R" and "s_nextRef s < 2 ^ 60"
  shows "Select R time metric labels start end s \<noteq> None \<and> flushPartitions R time s \<noteq> None \<and>
    removeExpiredPartitions time s \<noteq> None \<and> Close R time s \<noteq> None"
proof -
  have ok: "storage_ok s" by (rule reachable_ok [OF assms(1,2)])
  then obtain avs where avs: "list_ok s avs" by (auto simp: storage_ok_def)
  have "keeps s (flushPartitions R time s) (s_nextRef s)" "keeps s (removeExpiredPartitions time s) 0"
    "keeps s (Close R time s) (s_nextRef s + 4)"
    using keeps_flushPartitions [OF ok _ assms(2)] keeps_removeExpired [OF ok] keeps_Close [OF ok assms(3,2)] assms(3) by simp_all
  moreover have "Select R time metric labels start end s \<noteq> None"
    using Select_ok [OF avs, of R time metric labels start "end"] by auto
  ultimately show ?thesis by (auto simp: keeps_def)
qed

theorem storage_operations_return_witness:
  "Select stable_runtime (\<lambda>_. 5) ''a'' [] 1 9 fresh_storage \<noteq> None \<and> Close stable_runtime (\<lambda>_. 5) fresh_storage \<noteq> None"
proof -
  have "s_nextRef fresh_storage < 2 ^ 60"
    by (simp add: fresh_storage_def newPartition_def new_ref_def default_storage_def)
  from storage_operations_return [OF fresh_storage_reachable runtime_ok_stable this, of "\<lambda>_. 5" "''a''" "[]" 1 9]
  show ?thesis by simp
qed

text \<open>
  C14: A flush that reports success has dealt with every partition it should, as long as no older
  partition in memory starts at the same timestamp as a newer partition: the two newest partitions,
  which take late points, are left as they are, and no older partition is in memory any more.
\<close>

theorem flushPartitions_done:
  assumes "storage_ok s" and "pl_values (s_partitionList s) = Some refs" and "runtime_ok R" and "s_nextRef s < 2 ^ 60"
    and "separated s (take 2 refs) (drop 2 refs)" and "flushPartitions R time s = Some (Inr (), s')"
  shows "\<exists>rest. pl_values (s_partitionList s') = Some (take 2 refs @ rest) \<and>
    (\<forall>r \<in> set (take 2 refs). s_parts s' r = s_parts s r) \<and> (\<forall>r \<in> set rest. \<not> in_memory (s_parts s' r))"
proof -
  obtain avs where avs: "list_ok s avs" using assms(1) by (auto simp: storage_ok_def)
  have refs: "refs = map snd avs" using list_ok_values [OF avs] assms(2) by simp
  have "s_nextRef s + length avs < 2 ^ 62" using list_ok_length [OF avs] assms(4) by simp
  from flushPartitions_result [OF avs this assms(3), of time] assms(6)
  have "flush_result writablePartitionsNum [] avs s (Inr ()) s'" by simp
  then obtain avs' rest where r: "list_ok s' avs'" "avs' = take 2 avs @ rest"
    "\<forall>r \<in> snd ` set rest. \<not> in_memory (s_parts s' r)" "\<forall>u \<in> snd ` set (take 2 avs). s_parts s' u = s_parts s u"
    using assms(5) unfolding flush_result_def writablePartitionsNum_def refs take_map drop_map by auto
  show ?thesis using list_ok_values [OF r(1)] r(2-4) refs
    by (intro exI [of _ "map snd rest"]) (simp add: take_map)
qed

definition succeeds :: "(unit result \<times> storage) option \<Rightarrow> bool" where
  "succeeds x \<longleftrightarrow> (case x of Some (Inr _, _) \<Rightarrow> True | _ \<Rightarrow> False)"

lemma succeeds: "succeeds x \<Longrightarrow> \<exists>s. x = Some (Inr (), s)"
  by (auto simp: succeeds_def split: option.splits sum.splits)

definition old_storage :: storage where
  "old_storage = snd (newPartition None False (snd (newPartition None False
     (snd (newPartition (Some (MemP sample_partition)) False (default_storage 1 empty_fs))))))"

lemma old_storage_ok: "list_ok old_storage [(2, 2), (1, 1), (0, 0)]" "s_nextRef old_storage < 2 ^ 60"
proof -
  note defs = old_storage_def newPartition_def new_ref_def default_storage_def pl_insert_def new_node_def setHead_def
    newPartitionList_def
  have "mp_ok sample_partition" using sample_partition_ok(1) by (simp add: flushable_def)
  thus "list_ok old_storage [(2, 2), (1, 1), (0, 0)]" "s_nextRef old_storage < 2 ^ 60"
    by (simp_all add: list_ok_def represents_def defs Let_def int64_range_def)
qed

theorem flushPartitions_done_witness:
  "\<exists>s' rest. flushPartitions stable_runtime (\<lambda>_. 5) old_storage = Some (Inr (), s') \<and>
    pl_values (s_partitionList s') = Some ([2, 1] @ rest) \<and> (\<forall>r \<in> set rest. \<not> in_memory (s_parts s' r))"
proof -
  have ok: "storage_ok old_storage" using old_storage_ok(1) by (auto simp: storage_ok_def)
  have vals: "pl_values (s_partitionList old_storage) = Some [2, 1, 0]" by code_simp
  have sep: "separated old_storage (take 2 [2, 1, 0]) (drop 2 [2, 1, 0])" by code_simp
  have "succeeds (flushPartitions stable_runtime (\<lambda>_. 5) old_storage)" by code_simp
  then obtain s' where "flushPartitions stable_runtime (\<lambda>_. 5) old_storage = Some (Inr (), s')" using succeeds by blast
  from flushPartitions_done [OF ok vals runtime_ok_stable old_storage_ok(2) sep this] this show ?thesis by auto
qed

text \<open>
  C31: Partitions are told apart by their minimum timestamp only. When the oldest partition in memory
  starts at the same timestamp as a newer partition, as the partitions of late first batches may,
  a flush that reports success hits the newest partition with that timestamp: it is no longer in the
  list, whatever points it has, all other newer partitions stay, and the older partition, which was
  to leave the memory, is still in the list and in memory.
\<close>

theorem same_minimum_hits_newest:
  assumes "storage_ok s" and "pl_values (s_partitionList s) = Some (us @ v # ws @ [r])" and "runtime_ok R" and "s_nextRef s < 2 ^ 60"
    and "in_memory (s_parts s r)" and "2 \<le> length (us @ v # ws)" and "\<forall>u \<in> set (drop 2 (us @ v # ws)). \<not> in_memory (s_parts s u)"
    and "minTimestamp (s_parts s v) = minTimestamp (s_parts s r)" and "\<forall>u \<in> set us. minTimestamp (s_parts s u) \<noteq> minTimestamp (s_parts s r)"
    and "flushPartitions R time s = Some (Inr (), s')"
  shows "\<exists>refs. pl_values (s_partitionList s') = Some refs \<and> v \<notin> set refs \<and> set (us @ ws) \<subseteq> set refs \<and>
    r \<in> set refs \<and> in_memory (s_parts s' r)"
proof -
  obtain avs where avs: "list_ok s avs" using assms(1) by (auto simp: storage_ok_def)
  have refs: "map snd avs = us @ v # ws @ [r]" using list_ok_values [OF avs] assms(2) by simp
  then obtain ys a where ys: "avs = ys @ [(a, r)]" "map snd ys = us @ v # ws"
    by (cases avs rule: rev_cases) (auto simp: prod_eq_iff)
  have "snd ` set (drop 2 ys) = set (drop 2 (us @ v # ws))" unfolding ys(2) [symmetric] drop_map by simp
  moreover have "length ys = length (us @ v # ws)" unfolding ys(2) [symmetric] by simp
  ultimately have "flushed_at ys a r [] s (Inr ()) s'"
    using flushPartitions_last [of s ys a r R time "Inr ()" s'] avs ys(1) assms(3-7,10) by (simp add: writablePartitionsNum_def)
  then obtain ys' where ys': "list_ok s' ys'" "in_memory (s_parts s' r)" "hits_first ys a r ys' s s'"
    using assms(5) by (auto simp: flushed_at_def)
  obtain xs b x zs where h: "ys @ [(a, r)] = xs @ (b, x) # zs" "ref_minT s x = ref_minT s r"
    "\<forall>u \<in> snd ` set xs. ref_minT s u \<noteq> ref_minT s r" "ys' = xs @ zs \<or> (\<exists>c. ys' = xs @ (c, s_nextRef s) # zs)"
    using ys'(3) unfolding hits_first_def by blast
  have eq: "us @ v # ws @ [r] = map snd xs @ x # map snd zs" using arg_cong [OF h(1), of "map snd"] ys(2) by simp
  have first: "us = map snd xs \<and> v = x \<and> ws @ [r] = map snd zs"
    by (rule first_split_unique [OF eq, of "\<lambda>u. ref_minT s u = ref_minT s r"]) (use assms(8,9) h(2,3) in \<open>simp_all add: ref_minT_def\<close>)
  have "distinct (map snd avs)" "\<forall>u \<in> set (map snd avs). u < s_nextRef s" using avs by (auto simp: list_ok_def)
  hence d: "v \<notin> set us" "v \<notin> set (ws @ [r])" "v < s_nextRef s" unfolding refs by auto
  have "map snd ys' = us @ ws @ [r] \<or> map snd ys' = us @ s_nextRef s # ws @ [r]" using h(4) first by auto
  then obtain refs where "pl_values (s_partitionList s') = Some refs" "refs = us @ ws @ [r] \<or> refs = us @ s_nextRef s # ws @ [r]"
    using list_ok_values [OF ys'(1)] by metis
  thus ?thesis using d ys'(2) by (intro exI [of _ refs]) auto
qed

text \<open>Two partitions with the same points, and a new one between them.\<close>

definition twin_storage :: storage where
  "twin_storage = snd (newPartition (Some (MemP sample_partition)) False (snd (newPartition None False
     (snd (newPartition (Some (MemP sample_partition)) False (default_storage 1 empty_fs))))))"

theorem same_minimum_hits_newest_witness:
  "\<exists>s' refs. flushPartitions stable_runtime (\<lambda>_. 5) twin_storage = Some (Inr (), s') \<and>
    pl_values (s_partitionList s') = Some refs \<and> 2 \<notin> set refs \<and> 0 \<in> set refs \<and> in_memory (s_parts s' 0)"
proof -
  note defs = twin_storage_def newPartition_def new_ref_def default_storage_def pl_insert_def new_node_def setHead_def
    newPartitionList_def
  have "mp_ok sample_partition" using sample_partition_ok(1) by (simp add: flushable_def)
  hence "list_ok twin_storage [(2, 2), (1, 1), (0, 0)]" and few: "s_nextRef twin_storage < 2 ^ 60"
    and parts: "in_memory (s_parts twin_storage 0)" "minTimestamp (s_parts twin_storage 2) = minTimestamp (s_parts twin_storage 0)"
    by (simp_all add: list_ok_def represents_def defs Let_def int64_range_def)
  hence ok: "storage_ok twin_storage" by (auto simp: storage_ok_def)
  have vals: "pl_values (s_partitionList twin_storage) = Some ([] @ 2 # [1] @ [0])" by code_simp
  have "succeeds (flushPartitions stable_runtime (\<lambda>_. 5) twin_storage)" by code_simp
  then obtain s' where fl: "flushPartitions stable_runtime (\<lambda>_. 5) twin_storage = Some (Inr (), s')" using succeeds by blast
  have two: "(2::nat) \<le> length ([] @ 2 # [1::nat])" "\<forall>u \<in> set (drop 2 ([] @ 2 # [1])). \<not> in_memory (s_parts twin_storage u)"
    by simp_all
  from same_minimum_hits_newest [OF ok vals runtime_ok_stable few parts(1) two parts(2) _ fl] fl show ?thesis by auto
qed

end
