(* ===== verification/Storage_Select.thy ===== *)
theory Storage_Select
  imports Storage_State
begin

text \<open>
  Selecting from a storage. \<open>select_parts\<close> is the loop of \<open>Select\<close> on plain lists, for partitions
  given by what they answer; it is refined by the loop over references, which stores empty
  metrics as it goes. The locale \<open>selectable\<close> is the contract of a partition towards \<open>Select\<close>:
  it answers with the points of a series in a range, and all its points lie in its time range.
  From the contract follows that \<open>Select\<close> returns exactly the points of the range, in order, when
  the partitions are in order of time. Memory and disk partitions satisfy the contract.
\<close>

section \<open>The loop on plain lists\<close>

fun select_parts ::
  "('p \<Rightarrow> DataPoint list result) \<Rightarrow> ('p \<Rightarrow> int64) \<Rightarrow> ('p \<Rightarrow> int64) \<Rightarrow> int64 \<Rightarrow> int64 \<Rightarrow> 'p list \<Rightarrow> DataPoint list
   \<Rightarrow> DataPoint list result" where
  "select_parts sel lo hi start end [] points = (if points = [] then Inl ErrNoDataPoints else Inr points)"
| "select_parts sel lo hi start end (p # ps) points =
     (if lo p = 0 then select_parts sel lo hi start end ps points
      else if hi p < start then (if points = [] then Inl ErrNoDataPoints else Inr points)
      else if end < lo p then select_parts sel lo hi start end ps points
      else case sel p of
        Inl e \<Rightarrow> if errors_Is e ErrNoDataPoints then select_parts sel lo hi start end ps points
                 else Inl (wrap ''failed to select data points'' e)
      | Inr qs \<Rightarrow> select_parts sel lo hi start end ps (qs @ points))"

lemma select_loop_refines:
  assumes "distinct refs"
  shows "fst (select_loop R clock metric labels start end refs points s) =
    select_parts (\<lambda>r. fst (selectDataPoints R (clock r) metric labels start end (s_parts s r)))
      (\<lambda>r. minTimestamp (s_parts s r)) (\<lambda>r. maxTimestamp (s_parts s r)) start end refs points"
  using assms
proof (induction refs arbitrary: points s)
  case (Cons r refs)
  obtain res p where sel: "selectDataPoints R (clock r) metric labels start end (s_parts s r) = (res, p)" by fastforce
  let ?s = "s\<lparr>s_parts := (s_parts s)(r := p)\<rparr>"
  have cong: "select_parts f lo hi start end refs ps = select_parts f' lo' hi' start end refs ps"
    if "\<And>u. u \<in> set refs \<Longrightarrow> f u = f' u \<and> lo u = lo' u \<and> hi u = hi' u" for f f' lo lo' hi hi' ps
    using that by (induction refs arbitrary: ps) (auto split: sum.splits)
  have eq: "select_parts (\<lambda>r. fst (selectDataPoints R (clock r) metric labels start end (s_parts ?s r)))
      (\<lambda>r. minTimestamp (s_parts ?s r)) (\<lambda>r. maxTimestamp (s_parts ?s r)) start end refs ps =
    select_parts (\<lambda>r. fst (selectDataPoints R (clock r) metric labels start end (s_parts s r)))
      (\<lambda>r. minTimestamp (s_parts s r)) (\<lambda>r. maxTimestamp (s_parts s r)) start end refs ps" for ps
    by (rule cong) (use Cons.prems in auto)
  show ?case using Cons.IH [where s = ?s] Cons.IH [where s = s] Cons.prems sel eq
    by (simp add: Let_def split: sum.splits)
qed simp

text \<open>Newest first; partitions with the minimum 0 are skipped, so they must have no points.\<close>

definition time_ordered :: "('p \<Rightarrow> int64) \<Rightarrow> ('p \<Rightarrow> int64) \<Rightarrow> ('p \<Rightarrow> DataPoint list) \<Rightarrow> 'p list \<Rightarrow> bool" where
  "time_ordered lo hi series ps \<longleftrightarrow>
     sorted_wrt (\<lambda>p q. lo p = 0 \<or> lo q = 0 \<or> hi q \<le> lo p \<and> hi q \<le> hi p) ps \<and>
     (\<forall>p \<in> set ps. lo p = 0 \<longrightarrow> series p = [])"

section \<open>The contract of a partition\<close>

abbreviation within :: "int64 \<Rightarrow> int64 \<Rightarrow> DataPoint \<Rightarrow> bool" where
  "within start end p \<equiv> start \<le> dp_Timestamp p \<and> dp_Timestamp p < end"

locale selectable =
  fixes ok :: "'p \<Rightarrow> bool"
    and lo hi :: "'p \<Rightarrow> int64"
    and series :: "'p \<Rightarrow> DataPoint list"
    and sel :: "int64 \<Rightarrow> int64 \<Rightarrow> 'p \<Rightarrow> DataPoint list result"
  assumes sel_answers: "ok p \<Longrightarrow> start < end \<Longrightarrow> (\<And>q. q \<in> set (series p) \<Longrightarrow> dp_Timestamp q \<noteq> end) \<Longrightarrow>
      sel start end p = Inr (filter (within start end) (series p)) \<or>
      (\<exists>e. sel start end p = Inl e \<and> errors_Is e ErrNoDataPoints \<and> filter (within start end) (series p) = [])"
    and series_sorted: "ok p \<Longrightarrow> sorted (map dp_Timestamp (series p))"
    and series_bounds: "ok p \<Longrightarrow> q \<in> set (series p) \<Longrightarrow> lo p \<le> dp_Timestamp q \<and> dp_Timestamp q \<le> hi p"
begin

abbreviation in_time_order :: "'p list \<Rightarrow> bool" where
  "in_time_order \<equiv> time_ordered lo hi series"

abbreviation all_points :: "'p list \<Rightarrow> DataPoint list" where
  "all_points ps \<equiv> concat (map series (rev ps))"

lemma filter_empty_older:
  assumes "in_time_order (p # ps)" "\<forall>q \<in> set (p # ps). ok q" "lo p \<noteq> 0" "hi p < start"
  shows "filter (within start end) (all_points (p # ps)) = []"
proof -
  have "\<not> within start end x" if q: "q \<in> set (p # ps)" "x \<in> set (series q)" for q x
  proof -
    have "hi q \<le> hi p" using assms(1,3) q by (auto simp: time_ordered_def)
    thus ?thesis using series_bounds [of q x] assms(2,4) q by auto
  qed
  thus ?thesis by (auto simp: filter_empty_conv)
qed

lemma in_time_order_tl: "in_time_order (p # ps) \<Longrightarrow> in_time_order ps"
  by (simp add: time_ordered_def)

lemma select_parts_eq:
  assumes "in_time_order ps" "\<forall>p \<in> set ps. ok p" "start < end" "\<forall>q \<in> set (all_points ps). dp_Timestamp q \<noteq> end"
  shows "select_parts (sel start end) lo hi start end ps points =
    (let qs = filter (within start end) (all_points ps) @ points in if qs = [] then Inl ErrNoDataPoints else Inr qs)"
  using assms
proof (induction ps arbitrary: points)
  case (Cons p ps)
  note IH = Cons.IH [OF in_time_order_tl [OF Cons.prems(1)] _ Cons.prems(3)]
  have ok: "ok p" "\<forall>p \<in> set ps. ok p" "\<forall>q \<in> set (all_points ps). dp_Timestamp q \<noteq> end" using Cons.prems(2,4) by auto
  consider "lo p = 0" | "lo p \<noteq> 0" "hi p < start" | "lo p \<noteq> 0" "\<not> hi p < start" "end < lo p"
    | "lo p \<noteq> 0" "\<not> hi p < start" "\<not> end < lo p" by blast
  thus ?case
  proof cases
    case 1
    hence "series p = []" using Cons.prems(1) by (simp add: time_ordered_def)
    thus ?thesis using 1 IH [OF ok(2,3)] by simp
  next
    case 2
    thus ?thesis using filter_empty_older [OF Cons.prems(1,2) 2] by (simp add: Let_def)
  next
    case 3
    have "filter (within start end) (series p) = []"
      using series_bounds [OF ok(1)] 3(3) by (force simp: filter_empty_conv)
    thus ?thesis using 3 IH [OF ok(2,3)] by simp
  next
    case 4
    have "dp_Timestamp q \<noteq> end" if "q \<in> set (series p)" for q using Cons.prems(4) that by simp
    from sel_answers [OF ok(1) Cons.prems(3) this] show ?thesis using 4 IH [OF ok(2,3)] by (auto simp: Let_def)
  qed
qed simp

lemma all_points_sorted:
  assumes "in_time_order ps" "\<forall>p \<in> set ps. ok p"
  shows "sorted (map dp_Timestamp (all_points ps))"
  using assms
proof (induction ps)
  case (Cons p ps)
  have IH: "sorted (map dp_Timestamp (all_points ps))" using Cons in_time_order_tl by simp
  have "dp_Timestamp x \<le> dp_Timestamp y" if x: "q \<in> set ps" "x \<in> set (series q)" and y: "y \<in> set (series p)" for q x y
  proof -
    have "hi q \<le> lo p" using Cons.prems(1) x y by (auto simp: time_ordered_def)
    thus ?thesis using series_bounds [of q x] series_bounds [of p y] Cons.prems(2) x y by fastforce
  qed
  thus ?case using IH series_sorted [of p] Cons.prems(2) by (auto simp: sorted_append)
qed simp

end

section \<open>Memory and disk partitions satisfy the contract\<close>

text \<open>
  The points of a series a partition answers with at a time: those in order in a memory partition,
  the decoded ones in a disk partition that has not expired.
\<close>

fun part_series :: "Runtime \<Rightarrow> string \<Rightarrow> Label list \<Rightarrow> Time \<times> partition \<Rightarrow> DataPoint list" where
  "part_series R metric labels (now, MemP m) =
     mm_points (metric_at (mp_metrics m) (metricName (sortLabels R) metric labels))"
| "part_series R metric labels (now, DiskP d) =
     (if dk_expired now d then []
      else case map_of (meta_Metrics (dk_meta d)) (metricName (sortLabels R) metric labels) of
        None \<Rightarrow> []
      | Some dm \<Rightarrow>
          (case decodePoints (nat (dm_NumDataPoints dm)) (newSeriesDecoder (drop (nat (dm_Offset dm)) (dk_mappedFile d))) of
             Inr ps \<Rightarrow> ps | Inl _ \<Rightarrow> []))"
| "part_series R metric labels (now, FakeP f) = []"

text \<open>A disk partition whose series can be read, in order and within the partition's range.\<close>

definition disk_ok :: "diskPartition \<Rightarrow> bool" where
  "disk_ok d \<longleftrightarrow> (\<forall>(n, dm) \<in> set (meta_Metrics (dk_meta d)). 0 \<le> dm_Offset dm \<and> 0 \<le> dm_NumDataPoints dm \<and>
     dm_NumDataPoints dm \<le> 2 ^ 45 \<and>
     (case decodePoints (nat (dm_NumDataPoints dm)) (newSeriesDecoder (drop (nat (dm_Offset dm)) (dk_mappedFile d))) of
        Inr ps \<Rightarrow> sorted (map dp_Timestamp ps) \<and>
          (\<forall>p \<in> set ps. dk_minTimestamp d \<le> dp_Timestamp p \<and> dp_Timestamp p \<le> dk_maxTimestamp d)
      | Inl _ \<Rightarrow> False))"

fun answers :: "Time \<times> partition \<Rightarrow> bool" where
  "answers (now, MemP m) = mp_ok m"
| "answers (now, DiskP d) = disk_ok d"
| "answers (now, FakeP f) = (case fk_err f of None \<Rightarrow> True | Some e \<Rightarrow> errors_Is e ErrNoDataPoints)"

lemma disk_ok_lookup:
  assumes "disk_ok d" "map_of (meta_Metrics (dk_meta d)) n = Some dm"
  obtains ps where "0 \<le> dm_Offset dm" "0 \<le> dm_NumDataPoints dm" "dm_NumDataPoints dm \<le> 2 ^ 45"
    "decodePoints (nat (dm_NumDataPoints dm)) (newSeriesDecoder (drop (nat (dm_Offset dm)) (dk_mappedFile d))) = Inr ps"
    "sorted (map dp_Timestamp ps)" "\<forall>p \<in> set ps. dk_minTimestamp d \<le> dp_Timestamp p \<and> dp_Timestamp p \<le> dk_maxTimestamp d"
  using assms(1) map_of_SomeD [OF assms(2)] unfolding disk_ok_def by (fastforce split: sum.splits)

lemma mem_series_bounds:
  assumes "mp_ok m" "p \<in> set (mm_points (metric_at (mp_metrics m) n))"
  shows "mp_minT m \<le> dp_Timestamp p \<and> dp_Timestamp p \<le> mp_maxT m"
proof -
  obtain mt where mt: "map_of (mp_metrics m) n = Some mt" "metric_at (mp_metrics m) n = mt"
    using assms(2) by (cases "map_of (mp_metrics m) n") (auto simp: metric_at_def new_memoryMetric_def)
  have "p \<in># metric_points mt" using assms(2) mt(2) by (simp add: metric_points_def)
  from metric_points_in [OF mt(1) this] assms(1) show ?thesis by (auto simp: mp_ok_def)
qed

interpretation stored: selectable answers "\<lambda>np. minTimestamp (snd np)" "\<lambda>np. maxTimestamp (snd np)"
    "part_series R metric labels" "\<lambda>start end np. fst (selectDataPoints R (fst np) metric labels start end (snd np))"
  for R metric labels
proof
  fix np :: "Time \<times> partition" and start "end" :: int64
  assume ok: "answers np" and lt: "start < end" and ne: "\<And>q. q \<in> set (part_series R metric labels np) \<Longrightarrow> dp_Timestamp q \<noteq> end"
  obtain now p where np: "np = (now, p)" by fastforce
  let ?n = "metricName (sortLabels R) metric labels"
  show "fst (selectDataPoints R (fst np) metric labels start end (snd np)) = Inr (filter (within start end) (part_series R metric labels np)) \<or>
      (\<exists>e. fst (selectDataPoints R (fst np) metric labels start end (snd np)) = Inl e \<and> errors_Is e ErrNoDataPoints \<and>
        filter (within start end) (part_series R metric labels np) = [])"
  proof (cases p)
    case (MemP m)
    let ?mt = "metric_at (mp_metrics m) ?n"
    have eq: "filter (in_range ?mt start end) (mm_points ?mt) = filter (within start end) (mm_points ?mt)"
      by (rule filter_cong [OF refl]) (use ne np MemP in \<open>auto simp: in_range_def\<close>)
    obtain m' where "mem_selectDataPoints R metric labels start end m = (Inr (filter (in_range ?mt start end) (mm_points ?mt)), m')"
      using mem_selectDataPoints_eq [of m start "end" R metric labels] ok lt np MemP by auto
    thus ?thesis using np MemP eq by simp
  next
    case (DiskP d)
    show ?thesis
    proof (cases "dk_expired now d \<or> map_of (meta_Metrics (dk_meta d)) ?n = None")
      case True
      thus ?thesis using np DiskP by (auto simp: dk_selectDataPoints_def)
    next
      case False
      then obtain dm where dm: "map_of (meta_Metrics (dk_meta d)) ?n = Some dm" "\<not> dk_expired now d" by auto
      have "disk_ok d" using ok np DiskP by simp
      then obtain ps where ps: "0 \<le> dm_Offset dm" "0 \<le> dm_NumDataPoints dm" "dm_NumDataPoints dm \<le> 2 ^ 45"
        "decodePoints (nat (dm_NumDataPoints dm)) (newSeriesDecoder (drop (nat (dm_Offset dm)) (dk_mappedFile d))) = Inr ps"
        "sorted (map dp_Timestamp ps)" by (rule disk_ok_lookup [OF _ dm(1)])
      have "dk_selectDataPoints R now metric labels start end d = Inr (filter (within start end) ps)"
        using dm ps(1-3) dk_points_eq [OF ps(4,5)] by (simp add: dk_selectDataPoints_def)
      thus ?thesis using np DiskP dm ps(4) by simp
    qed
  next
    case (FakeP f)
    thus ?thesis using ok np by (auto split: option.splits)
  qed
next
  fix np :: "Time \<times> partition"
  assume ok: "answers np"
  obtain now p where np: "np = (now, p)" by fastforce
  show "sorted (map dp_Timestamp (part_series R metric labels np))"
  proof (cases p)
    case (MemP m)
    have "metric_ok (metric_at (mp_metrics m) (metricName (sortLabels R) metric labels))"
      using ok np MemP metric_ok_metric_at by (simp add: mp_ok_def)
    thus ?thesis using np MemP by (simp add: metric_ok_def strict_sorted_imp_sorted)
  next
    case (DiskP d)
    hence "disk_ok d" using ok np by simp
    thus ?thesis using np DiskP by (auto split: option.splits elim!: disk_ok_lookup)
  qed (use np in simp)
next
  fix np :: "Time \<times> partition" and q
  assume ok: "answers np" and q: "q \<in> set (part_series R metric labels np)"
  obtain now p where np: "np = (now, p)" by fastforce
  show "minTimestamp (snd np) \<le> dp_Timestamp q \<and> dp_Timestamp q \<le> maxTimestamp (snd np)"
  proof (cases p)
    case (MemP m)
    thus ?thesis using ok q np mem_series_bounds [of m q] by simp
  next
    case (DiskP d)
    hence "disk_ok d" using ok np by simp
    thus ?thesis using q np DiskP by (auto split: option.splits if_splits elim!: disk_ok_lookup)
  qed (use np q in simp)
qed

section \<open>Selecting from the storage\<close>

lemma select_parts_map:
  "select_parts (\<lambda>r. sel (f r)) (\<lambda>r. lo (f r)) (\<lambda>r. hi (f r)) start end rs points =
   select_parts sel lo hi start end (map f rs) points"
  by (induction rs arbitrary: points) (auto split: sum.splits)

text \<open>The partitions of a list of references with the times at which they are asked, and all points of a series.\<close>

definition snapshot :: "(nat \<Rightarrow> Time) \<Rightarrow> storage \<Rightarrow> nat list \<Rightarrow> (Time \<times> partition) list" where
  "snapshot clock s refs = map (\<lambda>r. (clock r, s_parts s r)) refs"

definition all_series :: "Runtime \<Rightarrow> string \<Rightarrow> Label list \<Rightarrow> (Time \<times> partition) list \<Rightarrow> DataPoint list" where
  "all_series R metric labels parts = concat (map (part_series R metric labels) (rev parts))"

definition ordered_parts :: "Runtime \<Rightarrow> string \<Rightarrow> Label list \<Rightarrow> (Time \<times> partition) list \<Rightarrow> bool" where
  "ordered_parts R metric labels parts \<longleftrightarrow>
     time_ordered (\<lambda>np. minTimestamp (snd np)) (\<lambda>np. maxTimestamp (snd np)) (part_series R metric labels) parts"

lemma Select_eq:
  assumes "list_ok s avs" "metric \<noteq> ''''" "start < end" "\<forall>np \<in> set (snapshot clock s (map snd avs)). answers np"
    "ordered_parts R metric labels (snapshot clock s (map snd avs))"
    "\<forall>q \<in> set (all_series R metric labels (snapshot clock s (map snd avs))). dp_Timestamp q \<noteq> end"
  shows "\<exists>s'. Select R clock metric labels start end s =
    Some (let qs = filter (within start end) (all_series R metric labels (snapshot clock s (map snd avs)))
          in if qs = [] then Inl ErrNoDataPoints else Inr qs, s')"
proof -
  have d: "distinct (map snd avs)" using assms(1) by (simp add: list_ok_def)
  let ?sel = "\<lambda>np. fst (selectDataPoints R (fst np) metric labels start end (snd np))"
  let ?parts = "snapshot clock s (map snd avs)"
  have "fst (select_loop R clock metric labels start end (map snd avs) [] s) =
      select_parts ?sel (\<lambda>np. minTimestamp (snd np)) (\<lambda>np. maxTimestamp (snd np)) start end ?parts []"
    unfolding select_loop_refines [OF d] snapshot_def
    using select_parts_map [where sel = ?sel and lo = "\<lambda>np. minTimestamp (snd np)" and hi = "\<lambda>np. maxTimestamp (snd np)"
        and f = "\<lambda>r. (clock r, s_parts s r)"] by simp
  also have "\<dots> = (let qs = filter (within start end) (all_series R metric labels ?parts)
      in if qs = [] then Inl ErrNoDataPoints else Inr qs)"
    using stored.select_parts_eq [OF assms(5) [unfolded ordered_parts_def] assms(4,3) assms(6) [unfolded all_series_def], of "[]"]
    by (simp add: all_series_def)
  finally show ?thesis using assms(2,3) list_ok_values [OF assms(1)]
    by (cases "select_loop R clock metric labels start end (map snd avs) [] s") (simp add: Select_def)
qed

section \<open>The first batch\<close>

lemma insert_loop_first:
  assumes ok: "list_ok s ((a, r) # zs)" and m: "s_parts s r = MemP m" "rows \<noteq> []"
    and ins: "mem_insertRows R (clock r) (any_append R) rows (s_wal s, s_fs s) m = (Inr [], w, m')"
  shows "insert_loop R clock (min (nat (pl_size (s_partitionList s))) writablePartitionsNum)
      (newIterator (s_partitionList s)) rows s =
    (Inr (), s\<lparr>s_wal := fst w, s_fs := snd w, s_parts := (s_parts s)(r := MemP m')\<rparr>)"
proof -
  let ?l = "s_partitionList s"
  have rep: "represents ?l ((a, r) # zs)" using ok by (simp add: list_ok_def)
  have nx: "iter_next ?l (newIterator ?l) = (True, At (Some a))" "iter_value ?l (At (Some a)) = Some r"
    using rep by (auto simp: represents_def newIterator_def iter_value_def node_value_def split: option.splits)
  have "pl_size ?l = int (length ((a, r) # zs))" using rep by (simp add: represents_def pl_size_def)
  then obtain n where "min (nat (pl_size ?l)) writablePartitionsNum = Suc n"
    by (cases "min (nat (pl_size ?l)) writablePartitionsNum") (auto simp: writablePartitionsNum_def min_def split: if_splits)
  moreover have "insert_loop R clock n it [] s2 = (Inr (), s2)" for n it s2 by (cases n) simp_all
  ultimately show ?thesis using nx m ins by simp
qed

text \<open>The state of an in-memory storage at the start.\<close>

definition started :: "nat \<Rightarrow> Option list \<Rightarrow> meta filesys \<Rightarrow> storage" where
  "started n opts fs = snd (newPartition None False (foldl apply_option (default_storage n fs) opts))"

lemma options_kept:
  "s_wal (foldl apply_option s opts) = s_wal s \<and> s_workers (foldl apply_option s opts) = s_workers s \<and>
   s_workersLimit (foldl apply_option s opts) = s_workersLimit s \<and> s_done (foldl apply_option s opts) = s_done s"
proof (induction opts arbitrary: s)
  case (Cons opt opts)
  have "s_wal (apply_option s opt) = s_wal s \<and> s_workers (apply_option s opt) = s_workers s \<and>
    s_workersLimit (apply_option s opt) = s_workersLimit s \<and> s_done (apply_option s opt) = s_done s" by (cases opt) simp_all
  thus ?case using Cons.IH [of "apply_option s opt"] by simp
qed simp

text \<open>The head that takes the first batch is a new partition, and so are all others.\<close>

definition all_new :: "storage \<Rightarrow> nat set \<Rightarrow> bool" where
  "all_new s refs \<longleftrightarrow> (\<forall>r \<in> refs. \<exists>d prec. s_parts s r = MemP (newMemoryPartition d prec))"

lemma on_wal_Nop: "s_wal s = NopWAL \<Longrightarrow> on_wal f s = (Inr (), s)"
  by (simp add: on_wal_def lift_wal_def)

lemma started_ready:
  assumes "s = (started n opts fs)\<lparr>s_workers := k\<rparr>"
  shows "\<exists>s1 a r zs. ensureActiveHead s = (Inr (), s1) \<and> list_ok s1 ((a, r) # zs) \<and>
    all_new s1 (snd ` set ((a, r) # zs)) \<and> s_wal s1 = NopWAL"
proof -
  let ?d = "foldl apply_option (default_storage n fs) opts"
  obtain res s0 where np: "newPartition None False ?d = (res, s0)" by fastforce
  have s: "s = s0\<lparr>s_workers := k\<rparr>" using np assms by (simp add: started_def)
  have wal0: "s_wal s0 = NopWAL"
    using np options_kept [of "default_storage n fs" opts] by (auto simp: newPartition_def new_ref_def default_storage_def)
  have s0: "list_ok s0 [(pl_fresh (s_partitionList ?d), 0)]" "s_nextRef s0 = 1" "all_new s0 {0}"
    using newPartition_ok [OF np list_ok_default(1)] list_ok_default(2) [of n fs opts] by (auto simp: all_new_def)
  have ok: "list_ok s [(pl_fresh (s_partitionList ?d), 0)]" "few_partitions s" "all_new s {0}" "s_wal s = NopWAL"
    using s s0 wal0 by (simp_all add: list_ok_def all_new_def)
  show ?thesis
  proof (cases "case getHead (s_partitionList s) of None \<Rightarrow> False | Some r \<Rightarrow> active (s_parts s r)")
    case True
    thus ?thesis using ok
      by (intro exI [of _ s] exI [of _ "pl_fresh (s_partitionList ?d)"] exI [of _ 0] exI [of _ "[]"])
         (simp add: ensureActiveHead_def)
  next
    case False
    obtain res2 s2 where np2: "newPartition None True s = (res2, s2)" by fastforce
    note new = newPartition_ok [OF np2 ok(1,2)]
    have wal2: "res2 = Inr ()" "s_wal s2 = NopWAL"
      using np2 ok(4) by (auto simp: newPartition_def new_ref_def on_wal_Nop Let_def)
    let ?s = "s2\<lparr>s_pending := s_pending s2 + 1\<rparr>"
    have "ensureActiveHead s = (Inr (), ?s)" using False np2 wal2(1) by (simp add: ensureActiveHead_def)
    moreover have "list_ok ?s ((pl_fresh (s_partitionList s), s_nextRef s) # [(pl_fresh (s_partitionList ?d), 0)])"
      using conjunct1 [OF new] unfolding list_ok_def by simp
    moreover have "all_new ?s (snd ` set ((pl_fresh (s_partitionList s), s_nextRef s) # [(pl_fresh (s_partitionList ?d), 0)]))"
      using new ok(3) by (auto simp: all_new_def)
    ultimately show ?thesis using wal2(2)
      by (intro exI [of _ ?s] exI [of _ "pl_fresh (s_partitionList s)"] exI [of _ "s_nextRef s"]
          exI [of _ "[(pl_fresh (s_partitionList ?d), 0)]"]) simp
  qed
qed

text \<open>The first batch goes to the head; the others stay new.\<close>

lemma first_batch_inserted:
  assumes n: "0 < n" and rows: "rows \<noteq> []"
    and ins: "\<And>d prec r fs. \<exists>m'. mem_insertRows R (clock r) (any_append R) rows (NopWAL, fs) (newMemoryPartition d prec) =
      (Inr [], (NopWAL, fs), m') \<and> P r m'"
  shows "\<exists>s' a r zs m'. InsertRows R clock freed rows (started n opts fs) = (Inr (), s') \<and>
    P r m' \<and> s_parts s' r = MemP m' \<and> all_new s' (snd ` set zs) \<and> (mp_ok m' \<longrightarrow> list_ok s' ((a, r) # zs))"
proof -
  let ?d = "foldl apply_option (default_storage n fs) opts" and ?s = "started n opts fs"
  have lim: "s_workers ?s = 0" "s_workersLimit ?s = n"
    using options_kept [of "default_storage n fs" opts] by (simp_all add: started_def newPartition_def new_ref_def default_storage_def)
  obtain s1 a r zs where s1: "ensureActiveHead (?s\<lparr>s_workers := 1\<rparr>) = (Inr (), s1)" "list_ok s1 ((a, r) # zs)"
    "all_new s1 (snd ` set ((a, r) # zs))" "s_wal s1 = NopWAL"
    using started_ready [where n = n and opts = opts and fs = fs and k = 1, OF refl] by blast
  obtain d prec where m: "s_parts s1 r = MemP (newMemoryPartition d prec)" using s1(3) by (auto simp: all_new_def)
  obtain m' where m': "mem_insertRows R (clock r) (any_append R) rows (s_wal s1, s_fs s1) (newMemoryPartition d prec) =
      (Inr [], (NopWAL, s_fs s1), m')" "P r m'" using ins s1(4) by metis
  let ?s2 = "s1\<lparr>s_wal := NopWAL, s_fs := s_fs s1, s_parts := (s_parts s1)(r := MemP m')\<rparr>"
  let ?s' = "?s2\<lparr>s_workers := s_workers ?s2 - 1\<rparr>"
  have "insert_rows R clock rows (?s\<lparr>s_workers := 1\<rparr>) = (Inr (), ?s2)"
    using s1(1) insert_loop_first [where clock = clock, OF s1(2) m rows m'(1)] by (simp add: insert_rows_def)
  hence "InsertRows R clock freed rows ?s = (Inr (), ?s')" using lim n by (simp add: InsertRows_def with_token_def)
  moreover have "r \<notin> snd ` set zs" using s1(2) by (simp add: list_ok_def)
  hence "all_new ?s' (snd ` set zs)" using s1(3) by (auto simp: all_new_def)
  moreover have "list_ok ?s' ((a, r) # zs)" if "mp_ok m'" using s1(2) that by (auto simp: list_ok_def)
  ultimately show ?thesis using m'(2)
    by (intro exI [of _ ?s'] exI [of _ a] exI [of _ r] exI [of _ zs] exI [of _ m']) simp
qed

lemma NewStorage_in_memory:
  assumes "s_dataPath (foldl apply_option (default_storage n fs) opts) = []"
  shows "\<exists>fs'. NewStorage R srt clock n opts fs = (Inr (started n opts fs), fs')"
  using assms
  by (cases "newPartition None False (foldl apply_option (default_storage n fs) opts)")
     (simp add: NewStorage_def open_storage_def inMemoryMode_def started_def Let_def)

lemma any_append_Nop [simp]: "any_append R rows (NopWAL, fs) = (Inr (), NopWAL, fs)"
  by (simp add: any_append_def lift_wal_def)

lemma mp_minT_new: "mp_minT (newMemoryPartition d prec) = 0"
  by (simp add: newMemoryPartition_def Let_def)

lemma new_partition_series [simp]:
  "minTimestamp (MemP (newMemoryPartition d prec)) = 0" "part_series R metric labels (now, MemP (newMemoryPartition d prec)) = []"
  by (simp_all add: newMemoryPartition_def Let_def metric_at_def new_memoryMetric_def)

section \<open>Properties\<close>

text \<open>
  C6: \<open>Select\<close> answers exactly. When the partitions are in order of time, newest first, each
  of them can be read, and none with points has the minimum timestamp 0, a selection gives back, oldest
  first, exactly the points of the series whose timestamps are at least \<open>start\<close> and less than \<open>end\<close> in
  all partitions, and \<open>ErrNoDataPoints\<close> when there are none; skipping partitions by their time range
  loses nothing. The points of a memory partition are those that arrived in order; late ones are
  found once it is on disk. (No point is at \<open>end\<close> itself, where memory partitions differ from the
  documentation.)
\<close>

theorem Select_correct:
  assumes "storage_ok s" and "pl_values (s_partitionList s) = Some refs" and "metric \<noteq> ''''" and "start < end"
    and "\<forall>np \<in> set (snapshot clock s refs). answers np" and "ordered_parts R metric labels (snapshot clock s refs)"
    and "\<forall>q \<in> set (all_series R metric labels (snapshot clock s refs)). dp_Timestamp q \<noteq> end"
  shows "\<exists>qs s'. qs = filter (\<lambda>p. start \<le> dp_Timestamp p \<and> dp_Timestamp p < end)
        (all_series R metric labels (snapshot clock s refs)) \<and>
    sorted (map dp_Timestamp qs) \<and>
    Select R clock metric labels start end s = Some (if qs = [] then Inl ErrNoDataPoints else Inr qs, s')"
proof -
  obtain avs where avs: "list_ok s avs" using assms(1) by (auto simp: storage_ok_def)
  have refs: "refs = map snd avs" using list_ok_values [OF avs] assms(2) by simp
  note sel = Select_eq [OF avs assms(3-6) [unfolded refs] assms(7) [unfolded refs]]
  have "sorted (map dp_Timestamp (all_series R metric labels (snapshot clock s refs)))"
    using stored.all_points_sorted [OF assms(6) [unfolded ordered_parts_def] assms(5)] by (simp add: all_series_def)
  hence "sorted (map dp_Timestamp (filter (within start end) (all_series R metric labels (snapshot clock s refs))))"
    by (rule sorted_filter)
  thus ?thesis using sel unfolding refs Let_def by blast
qed

theorem Select_correct_witness:
  "\<exists>s'. Select stable_runtime (\<lambda>_. 5) ''a'' [] 1 20 old_storage = Some (Inr [point 9 1], s')"
proof -
  have ok: "storage_ok old_storage" using old_storage_ok(1) by (auto simp: storage_ok_def)
  have vals: "pl_values (s_partitionList old_storage) = Some [2, 1, 0]" by code_simp
  have mp: "mp_ok sample_partition" using sample_partition_ok(1) by (simp add: flushable_def)
  let ?snap = "[(5, MemP (newMemoryPartition Hour Nanoseconds)), (5, MemP (newMemoryPartition Hour Nanoseconds)),
    (5, MemP sample_partition)]"
  have snap: "snapshot (\<lambda>_. 5) old_storage [2, 1, 0] = ?snap"
    by (simp add: snapshot_def old_storage_def newPartition_def new_ref_def default_storage_def)
  have ser: "part_series stable_runtime ''a'' [] (5, MemP sample_partition) = [point 9 1]" by code_simp
  have all: "all_series stable_runtime ''a'' [] ?snap = [point 9 1]" unfolding all_series_def by (simp add: ser del: part_series.simps)
  have "ordered_parts stable_runtime ''a'' [] ?snap"
    unfolding ordered_parts_def time_ordered_def by (simp add: sample_partition_def mp_minT_new del: part_series.simps)
  moreover have "\<forall>np \<in> set ?snap. answers np" using mp by simp
  ultimately show ?thesis
    using Select_correct [of old_storage "[2, 1, 0]" "''a''" 1 20 "\<lambda>_. 5" stable_runtime "[]", OF ok vals, unfolded snap all] by simp
qed

text \<open>
  C13: What is inserted can be selected: in a new in-memory storage, with any options, a first batch
  without zero timestamps is inserted without an error, and a selection of a series whose rows are
  in increasing order of time returns exactly the points of its rows in the range, when none is at the
  end of the range.
\<close>

theorem insert_then_select:
  assumes "s_dataPath (foldl apply_option (default_storage n fs) opts) = []" and "0 < n"
    and "rows \<noteq> []" and "\<forall>r \<in> set rows. row_Timestamp r \<noteq> 0" and "int (length rows) < 2 ^ 63"
    and "\<forall>r. clock_ok (clock r)" and "sorted_wrt (<) (map dp_Timestamp (series_of R metric labels rows))"
    and "metric \<noteq> ''''" and "start < end" and "\<forall>q \<in> set (series_of R metric labels rows). dp_Timestamp q \<noteq> end"
  shows "\<exists>s fs' s' s'' qs. NewStorage R srt clock n opts fs = (Inr s, fs') \<and>
    InsertRows R clock freed rows s = (Inr (), s') \<and>
    qs = filter (\<lambda>p. start \<le> dp_Timestamp p \<and> dp_Timestamp p < end) (series_of R metric labels rows) \<and>
    Select R time metric labels start end s' = Some (if qs = [] then Inl ErrNoDataPoints else Inr qs, s'')"
proof -
  let ?nm = "metricName (sortLabels R) metric labels" and ?series = "series_of R metric labels rows"
  let ?P = "\<lambda>m'. mp_ok m' \<and> mp_minT m' \<noteq> 0 \<and> mm_points (metric_at (mp_metrics m') ?nm) = ?series"
  have "\<exists>m'. mem_insertRows R (clock r) (any_append R) rows (NopWAL, fs) (newMemoryPartition d prec) =
      (Inr [], (NopWAL, fs), m') \<and> ?P m'" for d prec r fs
    using mem_first_batch [of rows "any_append R" "(NopWAL, fs)" "(NopWAL, fs)" R "clock r" d prec] assms(3-7) by auto
  from first_batch_inserted [where P = "\<lambda>_. ?P" and clock = clock and R = R, OF assms(2,3) this]
  obtain s' a r zs m' where ins: "InsertRows R clock freed rows (started n opts fs) = (Inr (), s')" "?P m'"
    "s_parts s' r = MemP m'" "all_new s' (snd ` set zs)" "list_ok s' ((a, r) # zs)" by blast
  let ?refs = "map snd ((a, r) # zs)"
  have old: "answers np \<and> part_series R metric labels np = [] \<and> minTimestamp (snd np) = 0"
    if "np \<in> set (snapshot time s' (map snd zs))" for np
    using that ins(4) by (auto simp: snapshot_def all_new_def simp del: minTimestamp.simps part_series.simps)
  have snap: "snapshot time s' ?refs = (time r, MemP m') # snapshot time s' (map snd zs)"
    using ins(3) by (simp add: snapshot_def)
  have all: "all_series R metric labels (snapshot time s' ?refs) = ?series"
    unfolding snap all_series_def using old ins(2) by simp
  have "ordered_parts R metric labels (snapshot time s' ?refs)"
    unfolding snap ordered_parts_def time_ordered_def using old ins(2) by (auto simp: sorted_wrt_iff_nth_less)
  moreover have "\<forall>np \<in> set (snapshot time s' ?refs). answers np" unfolding snap using old ins(2) by simp
  ultimately obtain s'' where "Select R time metric labels start end s' =
      Some (let qs = filter (within start end) ?series in if qs = [] then Inl ErrNoDataPoints else Inr qs, s'')"
    using Select_eq [where clock = time and R = R and labels = labels, OF ins(5) assms(8,9)] assms(10) unfolding all by blast
  thus ?thesis using NewStorage_in_memory [OF assms(1), of R srt clock] ins(1) by (auto simp: Let_def)
qed

theorem insert_then_select_witness:
  "\<exists>s fs' s' s''. NewStorage stable_runtime (\<lambda>ps. ps) (\<lambda>_ _. 5) 1 [WithTimestampPrecision Seconds] empty_fs = (Inr s, fs') \<and>
    InsertRows stable_runtime (\<lambda>_ _. 5) True [row ''a'' 7 1, row ''b'' 3 2, row ''a'' 9 3] s = (Inr (), s') \<and>
    Select stable_runtime (\<lambda>_. 6) ''a'' [] 1 8 s' = Some (Inr [point 7 1], s'')"
  using insert_then_select [of 1 empty_fs "[WithTimestampPrecision Seconds]" "[row ''a'' 7 1, row ''b'' 3 2, row ''a'' 9 3]"
      "\<lambda>_ _. 5" stable_runtime "''a''" "[]" 1 8 "\<lambda>ps. ps" True "\<lambda>_. 6"]
  by (simp add: default_storage_def clock_ok_def series_of_def row_name_def)

text \<open>
  C28: A row without a timestamp hides its partition: the documentation says that a row with the
  timestamp 0 gets the current time, but the first batch of a partition with such a row, and with no
  negative timestamp, sets the minimum timestamp of the partition to 0, which \<open>Select\<close> takes for an
  empty partition. In a new in-memory storage, after the batch, which is inserted without an error,
  every selection of every series finds nothing.
\<close>

theorem zero_timestamp_hides_partition:
  assumes "s_dataPath (foldl apply_option (default_storage n fs) opts) = []" and "0 < n"
    and "r0 \<in> set rows" and "row_Timestamp r0 = 0" and "\<forall>r \<in> set rows. 0 \<le> row_Timestamp r"
    and "int (length rows) < 2 ^ 63" and "\<forall>r. clock_ok (clock r)"
  shows "\<exists>s fs' s'. NewStorage R srt clock n opts fs = (Inr s, fs') \<and> InsertRows R clock freed rows s = (Inr (), s') \<and>
    (\<forall>time metric labels start end. metric \<noteq> [] \<and> start < end \<longrightarrow>
       (\<exists>s''. Select R time metric labels start end s' = Some (Inl ErrNoDataPoints, s'')))"
proof -
  have rows: "rows \<noteq> []" using assms(3) by auto
  have "\<exists>m'. mem_insertRows R (clock r) (any_append R) rows (NopWAL, fs) (newMemoryPartition d prec) =
      (Inr [], (NopWAL, fs), m') \<and> mp_ok m' \<and> mp_minT m' = 0" for d prec r fs
  proof -
    let ?m = "newMemoryPartition d prec"
    have min: "mp_minT (once_Do rows ?m) = 0"
      using once_Do_min [OF rows _ assms(3), of ?m] once_Do_min_mem [OF rows, of ?m] assms(4,5) by force
    hence out: "filter (\<lambda>r. row_Timestamp r < mp_minT (once_Do rows ?m)) rows = []"
      using assms(5) by (simp add: filter_empty_conv not_less)
    obtain al where al: "mem_insertRows R (clock r) (any_append R) rows (NopWAL, fs) ?m = (Inr [], (NopWAL, fs),
       (once_Do rows ?m)\<lparr>mp_metrics := al, mp_numPoints := int (size (points_of al)),
                       mp_maxT := new_maxT R (clock r) rows ?m\<rparr>)" (is "_ = (_, _, ?m')")
      "metrics_ok al" "points_of al = mp_points ?m + mset (batch R (clock r) rows ?m)"
      using mem_insertRows_eq [of ?m rows "any_append R" "(NopWAL, fs)" "(NopWAL, fs)" R "clock r"] rows assms(6) out by auto
    have "mp_ok ?m'" using mp_ok_batch [OF _ rows _ al(2,3)] assms(7) by simp
    thus ?thesis using al(1) min by (intro exI [of _ ?m']) simp
  qed
  from first_batch_inserted [where P = "\<lambda>_ m'. mp_ok m' \<and> mp_minT m' = 0" and clock = clock and R = R, OF assms(2) rows this]
  obtain s' a r zs m' where ins: "InsertRows R clock freed rows (started n opts fs) = (Inr (), s')" "mp_ok m'" "mp_minT m' = 0"
    "s_parts s' r = MemP m'" "all_new s' (snd ` set zs)" "list_ok s' ((a, r) # zs)" by blast
  have min: "minTimestamp (s_parts s' u) = 0" if "u \<in> set (map snd ((a, r) # zs))" for u
    using that ins(3-5) by (auto simp: all_new_def newMemoryPartition_def Let_def)
  have loop: "select_loop R time metric labels start end us [] s' = (Inl ErrNoDataPoints, s')"
    if "\<And>u. u \<in> set us \<Longrightarrow> minTimestamp (s_parts s' u) = 0" for time metric labels start "end" us
    using that by (induction us) simp_all
  have "Select R time metric labels start end s' = Some (Inl ErrNoDataPoints, s')" if "metric \<noteq> []" "start < end"
    for time metric labels start "end"
  proof -
    have "select_loop R time metric labels start end (map snd ((a, r) # zs)) [] s' = (Inl ErrNoDataPoints, s')"
      by (rule loop) (rule min)
    thus ?thesis using that list_ok_values [OF ins(6)] by (simp add: Select_def del: select_loop.simps)
  qed
  thus ?thesis using NewStorage_in_memory [OF assms(1), of R srt clock] ins(1) by blast
qed

theorem zero_timestamp_hides_partition_witness:
  "\<exists>s fs' s' s''. NewStorage stable_runtime (\<lambda>ps. ps) (\<lambda>_ _. 5) 1 [] empty_fs = (Inr s, fs') \<and>
    InsertRows stable_runtime (\<lambda>_ _. 5) True [row ''a'' 0 1, row ''b'' 3 2] s = (Inr (), s') \<and>
    Select stable_runtime (\<lambda>_. 6) ''b'' [] 1 8 s' = Some (Inl ErrNoDataPoints, s'')"
proof -
  obtain s fs' s' where s: "NewStorage stable_runtime (\<lambda>ps. ps) (\<lambda>_ _. 5) 1 [] empty_fs = (Inr s, fs')"
    "InsertRows stable_runtime (\<lambda>_ _. 5) True [row ''a'' 0 1, row ''b'' 3 2] s = (Inr (), s')"
    "\<forall>time metric labels start end. metric \<noteq> [] \<and> start < end \<longrightarrow>
       (\<exists>s''. Select stable_runtime time metric labels start end s' = Some (Inl ErrNoDataPoints, s''))"
    using zero_timestamp_hides_partition [of 1 empty_fs "[]" "row ''a'' 0 1" "[row ''a'' 0 1, row ''b'' 3 2]" "\<lambda>_ _. 5"
        stable_runtime "\<lambda>ps. ps" True] by (auto simp: default_storage_def clock_ok_def)
  from s(3) [rule_format, of "''b''" 1 8 "\<lambda>_. 6" "[]"] s(1,2) show ?thesis by auto
qed

end
