(* ===== verification/Storage_Recovery.thy ===== *)
theory Storage_Recovery
  imports Storage_Select
begin

text \<open>
  Starting a storage on a directory that a crashed process left behind: \<open>NewStorage\<close> finds no
  partition, reads the segments of the write-ahead log and inserts their rows again. The first
  section shows that the log works while the operating system does, the second goes through
  \<open>NewStorage\<close>, the last gives what a restart finds, and what it loses after a second crash.
\<close>

section \<open>The log without faults\<close>

text \<open>Nothing but the contents of files changes, and the writer has no error.\<close>

definition same_files :: "'j filesys \<Rightarrow> 'j filesys \<Rightarrow> bool" where
  "same_files fs fs' \<longleftrightarrow> fs_entries fs' = fs_entries fs \<and> fs_faults fs' = fs_faults fs \<and> fs_next fs' = fs_next fs"

lemma same_files_refl [simp]: "same_files fs fs"
  by (simp add: same_files_def)

lemma same_files_append_bytes [simp]: "same_files fs (append_bytes fd bs fs)"
  by (simp add: same_files_def append_bytes_def)

lemma same_files_trans: "same_files fs fs1 \<Longrightarrow> same_files fs1 fs2 \<Longrightarrow> same_files fs fs2"
  by (simp add: same_files_def)

lemma same_files_lookup: "same_files fs fs' \<Longrightarrow> lookup fs' q = lookup fs q"
  by (simp add: same_files_def lookup_def)

definition written :: "bufioWriter \<times> 'j filesys \<Rightarrow> bufioWriter \<times> 'j filesys \<Rightarrow> bool" where
  "written st st' \<longleftrightarrow> bw_err (fst st') = None \<and> same_files (snd st) (snd st')"

definition healthy :: "bufioWriter \<times> 'j filesys \<Rightarrow> bool" where
  "healthy st \<longleftrightarrow> bw_err (fst st) = None \<and> fs_faults (snd st) = []"

lemma written_healthy: "written st st' \<Longrightarrow> healthy st \<Longrightarrow> healthy st'"
  by (simp add: written_def healthy_def same_files_def)

lemma written_trans: "written st st1 \<Longrightarrow> written st1 st2 \<Longrightarrow> written st st2"
  by (simp add: written_def same_files_def)

lemma fd_writer_healthy:
  assumes "fs_faults fs = []"
  shows "fd_writer fd True bs fs = ((length bs, None), append_bytes fd bs fs)"
  using assms by (simp add: fd_writer_def file_Write_def next_fault_def)

lemma bw_Flush_written:
  assumes "healthy (b, fs)"
  shows "written (b, fs) (bw_Flush (fd_writer fd True) b fs) \<and> bw_buf (fst (bw_Flush (fd_writer fd True) b fs)) = []"
  using assms by (simp add: bw_Flush_def healthy_def written_def fd_writer_healthy)

lemma bw_Write_written:
  assumes "healthy (b, fs)"
  shows "written (b, fs) (bw_Write (fd_writer fd True) p b fs)"
proof -
  have buffered: "written (b, fs) (b\<lparr>bw_buf := bw_buf b @ p\<rparr>, fs)" if "healthy (b, fs)" for b p and fs :: "'j filesys"
    using that by (simp add: written_def healthy_def)
  have direct: "written (b, fs) (bw_Write (fd_writer fd True) p b fs)"
    if "healthy (b, fs)" "bw_buf b = []" for b p and fs :: "'j filesys"
    using that by (subst bw_Write.simps) (simp add: healthy_def written_def fd_writer_healthy)
  show ?thesis
  proof (cases "bw_Available b < length p \<and> bw_buf b \<noteq> []")
    case True
    let ?n = "bw_Available b"
    obtain b1 fs1 where fl: "bw_Flush (fd_writer fd True) (b\<lparr>bw_buf := bw_buf b @ take ?n p\<rparr>) fs = (b1, fs1)" by fastforce
    have "written (b, fs) (b1, fs1)" "bw_buf b1 = []"
      using bw_Flush_written [of "b\<lparr>bw_buf := bw_buf b @ take ?n p\<rparr>" fs fd] fl assms
      by (auto simp: healthy_def written_def)
    moreover have "written (b1, fs1) (bw_Write (fd_writer fd True) (drop ?n p) b1 fs1)"
      by (rule direct [OF written_healthy [OF calculation(1) assms] calculation(2)])
    moreover have "bw_Write (fd_writer fd True) p b fs = bw_Write (fd_writer fd True) (drop ?n p) b1 fs1"
      using True fl assms by (subst bw_Write.simps) (simp add: healthy_def)
    ultimately show ?thesis using written_trans by simp
  next
    case small: False
    show ?thesis
    proof (cases "bw_buf b = []")
      case False
      hence "bw_Write (fd_writer fd True) p b fs = (b\<lparr>bw_buf := bw_buf b @ p\<rparr>, fs)"
        using small assms by (subst bw_Write.simps) (simp add: healthy_def)
      thus ?thesis using buffered [OF assms, of p] by simp
    qed (rule direct [OF assms])
  qed
qed

lemma bw_WriteByte_written:
  assumes "healthy (b, fs)"
  shows "written (b, fs) (bw_WriteByte (fd_writer fd True) c b fs)"
  using assms bw_Flush_written [OF assms, of fd]
  by (cases "bw_Flush (fd_writer fd True) b fs") (auto simp: bw_WriteByte_def healthy_def written_def)

text \<open>A step of \<open>append\<close> that succeeds.\<close>

definition appends :: "bufioWriter \<times> 'j filesys \<Rightarrow> unit result \<times> (bufioWriter \<times> 'j filesys) \<Rightarrow> bool" where
  "appends st x \<longleftrightarrow> fst x = Inr () \<and> written st (snd x)"

lemma appends_put:
  assumes "\<And>b fs. st = (b, fs) \<Longrightarrow> written st (f b fs)"
  shows "appends st (put msg f st)"
  using assms by (cases st; cases "f (fst st) (snd st)") (auto simp: appends_def put_def written_def)

lemma appends_andThen:
  assumes "appends st x" "\<And>st'. written st st' \<Longrightarrow> appends st' (k () st')"
  shows "appends st (andThen x k id)"
proof -
  obtain st' where "x = (Inr (), st')" "written st st'" using assms(1) by (cases x) (auto simp: appends_def)
  thus ?thesis using assms(2) [of st'] written_trans [of st st' "snd (k () st')"] by (simp add: appends_def)
qed

lemma append_row_appends:
  assumes "healthy st"
  shows "appends st (append_row (fd_writer fd True) R rw st)"
proof -
  have w: "appends st (put msg (bw_Write (fd_writer fd True) p) st)" if "healthy st" for st msg p
    by (rule appends_put) (use that bw_Write_written in auto)
  have c: "appends st (put msg (bw_WriteByte (fd_writer fd True) p) st)" for msg p
    by (rule appends_put) (use assms bw_WriteByte_written in auto)
  note h = written_healthy
  show ?thesis unfolding append_row_def Let_def
    by (intro appends_andThen c w) (blast intro: assms h)+
qed

lemma append_rows_appends:
  assumes "healthy st"
  shows "appends st (append_rows (fd_writer fd True) R rows st)"
  using assms
proof (induction rows arbitrary: st)
  case Nil
  thus ?case by (simp add: appends_def written_def healthy_def)
next
  case (Cons rw rows)
  show ?case unfolding append_rows.simps
    by (rule appends_andThen [OF append_row_appends [OF Cons.prems]])
       (use Cons written_healthy in blast)
qed

text \<open>A log that is open and has met no error.\<close>

definition wal_healthy :: "diskWAL \<Rightarrow> 'j filesys \<Rightarrow> bool" where
  "wal_healthy w fs \<longleftrightarrow> dw_open w \<and> healthy (dw_w w, fs)"

text \<open>What flushing and appending leave: the same log with another buffer and the same files.\<close>

definition wal_advances :: "diskWAL \<times> 'j filesys \<Rightarrow> unit result \<times> diskWAL \<times> 'j filesys \<Rightarrow> bool" where
  "wal_advances wfs x \<longleftrightarrow>
     (case x of (r, w', fs') \<Rightarrow> r = Inr () \<and> bw_err (dw_w w') = None \<and> same_files (snd wfs) fs' \<and>
        dw_dir w' = dw_dir (fst wfs) \<and> dw_index w' = dw_index (fst wfs) \<and> dw_open w' = dw_open (fst wfs))"

lemma wal_flush_healthy:
  assumes "wal_healthy w fs"
  shows "wal_advances (w, fs) (wal_flush w fs)"
proof -
  have h: "dw_open w" "healthy (dw_w w, fs)" using assms by (simp_all add: wal_healthy_def)
  obtain b fs' where fl: "bw_Flush (fd_writer (dw_fd w) True) (dw_w w) fs = (b, fs')" by fastforce
  have "bw_err b = None" "same_files fs fs'"
    using bw_Flush_written [OF h(2), of "dw_fd w"] fl by (simp_all add: written_def)
  thus ?thesis using fl h(1) by (simp add: wal_flush_def wal_advances_def)
qed

lemma wal_append_healthy:
  assumes "wal_healthy w fs"
  shows "wal_advances (w, fs) (wal_append R operationInsert rows w fs)"
proof -
  have op: "dw_open w" "healthy (dw_w w, fs)" using assms by (simp_all add: wal_healthy_def)
  obtain r b fs1 where ap: "append_rows (fd_writer (dw_fd w) True) R rows (dw_w w, fs) = (r, (b, fs1))"
    by (metis prod.exhaust)
  have b: "r = Inr ()" "bw_err b = None" "same_files fs fs1"
    using append_rows_appends [OF op(2), of "dw_fd w" R rows] ap by (simp_all add: appends_def written_def)
  have "wal_healthy (w\<lparr>dw_w := b\<rparr>) fs1" using op b by (simp add: wal_healthy_def healthy_def same_files_def)
  from wal_flush_healthy [OF this] show ?thesis
    using ap op(1) b by (auto simp: wal_append_def wal_advances_def intro: same_files_trans)
qed

text \<open>The entries outside a directory; a new file in the directory is not among them.\<close>

definition outside :: "path \<Rightarrow> 'j filesys \<Rightarrow> (path \<times> entry) list" where
  "outside dir fs = filter (\<lambda>(q, e). \<not> prefix dir q) (fs_entries fs)"

lemma outside_fields [simp]: "outside dir (fs\<lparr>fs_inodes := ino\<rparr>) = outside dir fs" "outside dir (fs\<lparr>fs_next := i\<rparr>) = outside dir fs"
  by (simp_all add: outside_def)

lemma outside_set_entry [simp]: "prefix dir q \<Longrightarrow> outside dir (set_entry q e fs) = outside dir fs"
proof -
  assume "prefix dir q"
  hence "filter (\<lambda>(q, e). \<not> prefix dir q) (AList.update q e es) = filter (\<lambda>(q, e). \<not> prefix dir q) es"
    for es :: "(path \<times> entry) list" by (induction es) auto
  thus ?thesis by (simp add: outside_def set_entry_def)
qed

lemma same_files_outside: "same_files fs fs' \<Longrightarrow> outside dir fs' = outside dir fs"
  by (simp add: same_files_def outside_def)

text \<open>A new segment, on a new file or on one that is there.\<close>

lemma startSegment_healthy:
  assumes "fs_faults fs = []" "lookup fs (dw_dir w) = Some Dir"
    "lookup fs (dw_dir w @ [itoa (unat (dw_index w))]) \<noteq> Some Dir"
  shows "\<exists>w' fs'. startSegment w fs = (Inr (), w', fs') \<and> wal_healthy w' fs' \<and> dw_dir w' = dw_dir w \<and>
    dw_index w' = dw_index w + 1 \<and> outside (dw_dir w) fs' = outside (dw_dir w) fs \<and>
    (\<forall>q. q \<noteq> dw_dir w @ [itoa (unat (dw_index w))] \<longrightarrow> lookup fs' q = lookup fs q) \<and>
    (\<exists>i. lookup fs' (dw_dir w @ [itoa (unat (dw_index w))]) = Some (File i))"
proof (cases "lookup fs (dw_dir w @ [itoa (unat (dw_index w))])")
  case None
  thus ?thesis using assms(1,2)
    by (simp add: startSegment_def createSegmentFile_def OpenAppend_def open_new wal_healthy_def healthy_def
        NewWriterSize_def lookup_set_entry)
next
  case (Some e)
  then obtain i where "lookup fs (dw_dir w @ [itoa (unat (dw_index w))]) = Some (File i)" using assms(3) by (cases e) auto
  thus ?thesis using assms(1,2)
    by (simp add: startSegment_def createSegmentFile_def OpenAppend_def open_found wal_healthy_def healthy_def NewWriterSize_def)
qed

lemma wal_punctuate_healthy:
  assumes "wal_healthy w fs" "lookup fs (dw_dir w) = Some Dir"
    "lookup fs (dw_dir w @ [itoa (unat (dw_index w))]) \<noteq> Some Dir"
  shows "\<exists>w' fs'. wal_punctuate w fs = (Inr (), w', fs') \<and> wal_healthy w' fs' \<and> dw_dir w' = dw_dir w \<and>
    dw_index w' = dw_index w + 1 \<and> outside (dw_dir w) fs' = outside (dw_dir w) fs \<and>
    (\<forall>q. q \<noteq> dw_dir w @ [itoa (unat (dw_index w))] \<longrightarrow> lookup fs' q = lookup fs q) \<and>
    (\<exists>i. lookup fs' (dw_dir w @ [itoa (unat (dw_index w))]) = Some (File i))"
proof -
  obtain r w1 fs1 where fl: "wal_flush w fs = (r, w1, fs1)" by (metis prod.exhaust)
  have adv: "r = Inr ()" "same_files fs fs1"
    and w1: "dw_open w1" "dw_dir w1 = dw_dir w" "dw_index w1 = dw_index w" "fs_faults fs1 = []"
    using wal_flush_healthy [OF assms(1)] fl assms(1)
    by (simp_all add: wal_advances_def wal_healthy_def healthy_def same_files_def)
  let ?w = "w1\<lparr>dw_open := False\<rparr>"
  have "\<exists>w' fs'. startSegment ?w fs1 = (Inr (), w', fs') \<and> wal_healthy w' fs' \<and> dw_dir w' = dw_dir ?w \<and>
    dw_index w' = dw_index ?w + 1 \<and> outside (dw_dir ?w) fs' = outside (dw_dir ?w) fs1 \<and> (\<forall>q. q \<noteq> dw_dir ?w @ [itoa (unat (dw_index ?w))] \<longrightarrow> lookup fs' q = lookup fs1 q) \<and>
    (\<exists>i. lookup fs' (dw_dir ?w @ [itoa (unat (dw_index ?w))]) = Some (File i))"
    by (rule startSegment_healthy) (use assms w1 same_files_lookup [OF adv(2)] in simp_all)
  thus ?thesis using fl adv(1) w1 same_files_lookup [OF adv(2)] same_files_outside [OF adv(2)]
    by (simp add: wal_punctuate_def close_fd_def file_Close_def)
qed

text \<open>A refreshed log is one empty segment.\<close>

lemma mkdirs_snoc:
  "\<forall>q. prefix q (done @ ns) \<longrightarrow> lookup fs q = Some Dir \<Longrightarrow> lookup fs (done @ ns @ [n]) = None \<Longrightarrow>
   mkdirs done (ns @ [n]) fs = (Inr (), set_entry (done @ ns @ [n]) Dir fs)"
proof (induction ns arbitrary: "done")
  case (Cons m ns)
  have "lookup fs (done @ [m]) = Some Dir" using Cons.prems(1) by (simp add: prefix_def)
  thus ?case using Cons.IH [of "done @ [m]"] Cons.prems by (simp add: Let_def)
qed (simp add: Let_def)

lemma lookup_outside: "lookup (fs\<lparr>fs_entries := outside d fs\<rparr>) q = (if q \<noteq> [] \<and> prefix d q then None else lookup fs q)"
proof -
  have "map_of (filter (\<lambda>(q, e). \<not> prefix d q) es) q = (if prefix d q then None else map_of es q)"
    for es :: "(path \<times> entry) list" by (induction es) auto
  thus ?thesis by (auto simp: lookup_def outside_def)
qed

lemma wal_removeAll_healthy:
  assumes "wal_healthy w fs" "dw_dir w = dataPath @ [n]" "\<forall>q. prefix q (dw_dir w) \<longrightarrow> lookup fs q = Some Dir"
  shows "wal_removeAll w fs =
    (Inr (), w\<lparr>dw_open := False\<rparr>, fs\<lparr>fs_entries := outside (dw_dir w) fs @ [(dw_dir w, Dir)]\<rparr>)"
proof -
  have op: "dw_open w" "fs_faults fs = []" using assms(1) by (simp_all add: wal_healthy_def healthy_def)
  let ?fs = "fs\<lparr>fs_entries := outside (dw_dir w) fs\<rparr>" and ?d = "dataPath @ [n]"
  have look: "lookup ?fs q = (if q \<noteq> [] \<and> prefix ?d q then None else lookup fs q)" for q
    using lookup_outside [of ?d fs q] assms(2) by simp
  have "\<not> prefix ?d q" if "prefix q dataPath" for q using that by (auto dest!: prefix_length_le)
  hence "MkdirAll ?d ?fs = (Inr (), set_entry ?d Dir ?fs)"
    using mkdirs_snoc [of "[]" dataPath ?fs n] assms(2,3) op(2) look by (simp add: MkdirAll_def)
  moreover have "RemoveAll (dw_dir w) fs = (Inr (), ?fs)" using op(2) by (simp add: RemoveAll_def outside_def)
  moreover have "set_entry ?d Dir ?fs = fs\<lparr>fs_entries := outside (dw_dir w) fs @ [(dw_dir w, Dir)]\<rparr>"
    using set_entry_new [of ?d ?fs Dir] look [of ?d] assms(2) by (simp add: set_entry_def)
  ultimately show ?thesis
    using op assms(2) by (simp add: wal_removeAll_def close_fd_def file_Close_def)
qed

lemma wal_refresh_healthy:
  assumes "wal_healthy w fs" "dw_dir w = dataPath @ [n]" "\<forall>q. prefix q (dw_dir w) \<longrightarrow> lookup fs q = Some Dir"
  shows "\<exists>w' fs' i. wal_refresh w fs = (Inr (), w', fs') \<and> fs_faults fs' = [] \<and> file_bytes fs' i = [] \<and>
    fs_entries fs' = outside (dw_dir w) fs @ [(dw_dir w, Dir), (dw_dir w @ [itoa (unat (dw_index w))], File i)]"
proof -
  let ?d = "dw_dir w" and ?seg = "dw_dir w @ [itoa (unat (dw_index w))]" and ?i = "fs_next fs"
  let ?fs1 = "fs\<lparr>fs_entries := outside ?d fs @ [(?d, Dir)]\<rparr>"
  have look: "map_of (outside ?d fs) q = None" if "prefix ?d q" "q \<noteq> []" for q
    using lookup_outside [of ?d fs q] that by (simp add: lookup_def)
  have fs1: "fs_faults ?fs1 = []" "lookup ?fs1 ?d = Some Dir" "lookup ?fs1 ?seg = None"
    using assms(1,2) look [of ?d] look [of ?seg] by (simp_all add: wal_healthy_def healthy_def lookup_def map_add_def)
  let ?fs2 = "(set_entry ?seg (File ?i) ?fs1)\<lparr>fs_inodes := (fs_inodes fs)(?i := Bytes []), fs_next := ?i + 1\<rparr>"
  have "OpenAppend ?seg ?fs1 = (Inr ?i, ?fs2)"
    unfolding OpenAppend_def using open_new [OF fs1, of False] by simp
  moreover have "fs_entries ?fs2 = outside ?d fs @ [(?d, Dir), (?seg, File ?i)]"
    using set_entry_new [of ?seg ?fs1] fs1(3) by simp
  ultimately show ?thesis using fs1(1)
    by (simp add: wal_refresh_def wal_removeAll_healthy [OF assms] startSegment_def createSegmentFile_def file_bytes_def)
qed

text \<open>On an existing directory with its segment 0 nothing changes when the log is opened.\<close>

lemma mkdirs_exists:
  "\<forall>q. prefix q (done @ ns) \<longrightarrow> lookup fs q = Some Dir \<Longrightarrow> mkdirs done ns fs = (Inr (), fs)"
proof (induction ns arbitrary: "done")
  case (Cons n ns)
  have "lookup fs (done @ [n]) = Some Dir" using Cons.prems by (simp add: prefix_def)
  thus ?case using Cons.IH [of "done @ [n]"] Cons.prems by (simp add: Let_def)
qed simp

lemma newDiskWAL_exists:
  assumes "fs_faults fs = []" "\<forall>q. prefix q dir \<longrightarrow> lookup fs q = Some Dir" "lookup fs (dir @ [''0'']) = Some (File i)"
  shows "\<exists>w. newDiskWAL dir sz fs = (Inr w, fs) \<and> wal_healthy w fs \<and> dw_dir w = dir \<and> dw_index w = 1"
proof -
  have mk: "MkdirAll dir fs = (Inr (), fs)" using mkdirs_exists [of "[]" dir fs] assms(1,2) by (simp add: MkdirAll_def)
  have "itoa 0 = ''0''" by code_simp
  moreover have "OpenAppend (dir @ [''0'']) fs = (Inr i, fs)"
    unfolding OpenAppend_def by (rule open_found) (use assms in auto)
  ultimately show ?thesis using assms(1)
    by (simp add: newDiskWAL_def mk startSegment_def createSegmentFile_def wal_healthy_def healthy_def NewWriterSize_def)
qed

section \<open>Inserting into an empty storage with a log\<close>

text \<open>The log's directory can take the next segment, and its path consists of directories.\<close>

definition wal_usable :: "storage \<Rightarrow> bool" where
  "wal_usable s \<longleftrightarrow>
     (case s_wal s of NopWAL \<Rightarrow> False
      | DiskWAL w \<Rightarrow> wal_healthy w (s_fs s) \<and> dw_dir w \<noteq> [] \<and> (\<forall>q. prefix q (dw_dir w) \<longrightarrow> lookup (s_fs s) q = Some Dir) \<and>
          lookup (s_fs s) (dw_dir w @ [itoa (unat (dw_index w))]) \<noteq> Some Dir)"

lemma ensureActiveHead_empty:
  assumes ok: "list_ok s []" "few_partitions s" and w: "s_wal s = DiskWAL w" "wal_usable s"
  shows "\<exists>s1 a w1. ensureActiveHead s = (Inr (), s1) \<and> list_ok s1 [(a, s_nextRef s)] \<and> s_nextRef s1 = Suc (s_nextRef s) \<and>
    all_new s1 {s_nextRef s} \<and> s_wal s1 = DiskWAL w1 \<and> wal_healthy w1 (s_fs s1) \<and> dw_dir w1 = dw_dir w \<and>
    (\<forall>q. prefix q (dw_dir w) \<longrightarrow> lookup (s_fs s1) q = Some Dir) \<and>
    outside (dw_dir w) (s_fs s1) = outside (dw_dir w) (s_fs s) \<and> s_workers s1 = s_workers s"
proof -
  have use: "wal_healthy w (s_fs s)" "\<forall>q. prefix q (dw_dir w) \<longrightarrow> lookup (s_fs s) q = Some Dir"
    "lookup (s_fs s) (dw_dir w @ [itoa (unat (dw_index w))]) \<noteq> Some Dir" "lookup (s_fs s) (dw_dir w) = Some Dir"
    using w by (auto simp: wal_usable_def)
  obtain w1 fs1 where pu: "wal_punctuate w (s_fs s) = (Inr (), w1, fs1)" "wal_healthy w1 fs1" "dw_dir w1 = dw_dir w"
    "\<forall>q. q \<noteq> dw_dir w @ [itoa (unat (dw_index w))] \<longrightarrow> lookup fs1 q = lookup (s_fs s) q"
    "outside (dw_dir w) fs1 = outside (dw_dir w) (s_fs s)"
    using wal_punctuate_healthy [OF use(1,4,3)] by blast
  obtain res s2 where np: "newPartition None True s = (res, s2)" by fastforce
  note new = newPartition_ok [OF np ok]
  have fields: "res = Inr ()" "s_wal s2 = DiskWAL w1" "s_fs s2 = fs1" "s_workers s2 = s_workers s"
    using np w(1) pu(1) by (auto simp: newPartition_def new_ref_def on_wal_def lift_wal_def Let_def)
  have dirs: "lookup fs1 q = Some Dir" if "prefix q (dw_dir w)" for q
  proof -
    have "q \<noteq> dw_dir w @ [itoa (unat (dw_index w))]" using prefix_length_le [OF that] by auto
    thus ?thesis using pu(4) use(2) that by simp
  qed
  let ?s = "s2\<lparr>s_pending := s_pending s2 + 1\<rparr>"
  have "getHead (s_partitionList s) = None" using pl_repr_head [OF list_ok_repr [OF ok(1)]] by simp
  hence "ensureActiveHead s = (Inr (), ?s)" using np fields(1) by (simp add: ensureActiveHead_def)
  moreover have "list_ok ?s [(pl_fresh (s_partitionList s), s_nextRef s)]" using new by (simp add: list_ok_def)
  moreover have "all_new ?s {s_nextRef s}" using new by (auto simp: all_new_def)
  ultimately show ?thesis using new fields pu(2,3,5) dirs
    by (intro exI [of _ ?s] exI [of _ "pl_fresh (s_partitionList s)"] exI [of _ w1]) simp
qed

lemma first_batch_logged:
  assumes ok: "list_ok s []" "few_partitions s" "s_workers s < s_workersLimit s" and w: "s_wal s = DiskWAL w" "wal_usable s"
    and rows: "rows \<noteq> []"
    and ins: "\<And>d prec st st'. any_append R rows st = (Inr (), st') \<Longrightarrow>
      \<exists>m'. mem_insertRows R (clock (s_nextRef s)) (any_append R) rows st (newMemoryPartition d prec) = (Inr [], st', m') \<and> P m'"
    and P: "\<And>m'. P m' \<Longrightarrow> mp_ok m'"
  shows "\<exists>s' a m' w'. InsertRows R clock freed rows s = (Inr (), s') \<and> list_ok s' [(a, s_nextRef s)] \<and>
    s_nextRef s' = Suc (s_nextRef s) \<and> s_parts s' (s_nextRef s) = MemP m' \<and> P m' \<and>
    s_wal s' = DiskWAL w' \<and> wal_healthy w' (s_fs s') \<and> dw_dir w' = dw_dir w \<and>
    (\<forall>q. prefix q (dw_dir w) \<longrightarrow> lookup (s_fs s') q = Some Dir) \<and>
    outside (dw_dir w) (s_fs s') = outside (dw_dir w) (s_fs s)"
proof -
  let ?t = "s\<lparr>s_workers := s_workers s + 1\<rparr>" and ?r = "s_nextRef s"
  have "list_ok ?t []" "few_partitions ?t" "s_wal ?t = DiskWAL w" "wal_usable ?t"
    using ok w by (simp_all add: list_ok_def wal_usable_def)
  from ensureActiveHead_empty [OF this] obtain s1 a w1 where s1: "ensureActiveHead ?t = (Inr (), s1)"
    "list_ok s1 [(a, ?r)]" "s_nextRef s1 = Suc ?r" "all_new s1 {?r}" "s_wal s1 = DiskWAL w1" "wal_healthy w1 (s_fs s1)"
    "dw_dir w1 = dw_dir w" "\<forall>q. prefix q (dw_dir w) \<longrightarrow> lookup (s_fs s1) q = Some Dir"
    "outside (dw_dir w) (s_fs s1) = outside (dw_dir w) (s_fs s)" by auto
  obtain d prec where new: "s_parts s1 ?r = MemP (newMemoryPartition d prec)" using s1(4) by (auto simp: all_new_def)
  obtain res w2 fs2 where ap: "wal_append R operationInsert rows w1 (s_fs s1) = (res, w2, fs2)" by (metis prod.exhaust)
  have w2: "res = Inr ()" "same_files (s_fs s1) fs2" "dw_dir w2 = dw_dir w1" "wal_healthy w2 fs2"
    using wal_append_healthy [OF s1(6), of R rows] ap s1(6)
    by (simp_all add: wal_advances_def wal_healthy_def healthy_def same_files_def)
  have "any_append R rows (s_wal s1, s_fs s1) = (Inr (), DiskWAL w2, fs2)"
    using ap w2(1) s1(5) by (simp add: any_append_def lift_wal_def)
  from ins [OF this] obtain m' where m': "mem_insertRows R (clock ?r) (any_append R) rows (s_wal s1, s_fs s1)
      (newMemoryPartition d prec) = (Inr [], (DiskWAL w2, fs2), m')" "P m'" by blast
  let ?s2 = "s1\<lparr>s_wal := DiskWAL w2, s_fs := fs2, s_parts := (s_parts s1)(?r := MemP m')\<rparr>"
  let ?s' = "?s2\<lparr>s_workers := s_workers ?s2 - 1\<rparr>"
  have "insert_rows R clock rows ?t = (Inr (), ?s2)"
    using s1(1) insert_loop_first [where clock = clock, OF s1(2) new rows m'(1)] by (simp add: insert_rows_def)
  hence "InsertRows R clock freed rows s = (Inr (), ?s')" using ok(3) by (simp add: InsertRows_def with_token_def)
  moreover have "list_ok ?s' [(a, ?r)]" using s1(2) P [OF m'(2)] by (auto simp: list_ok_def)
  ultimately show ?thesis using s1(3,7-9) m'(2) w2(3,4) same_files_lookup [OF w2(2)] same_files_outside [OF w2(2)]
    by (intro exI [of _ ?s'] exI [of _ a] exI [of _ m'] exI [of _ w2]) simp
qed

section \<open>Starting after a crash\<close>

text \<open>
  What a crashed process leaves behind that had written no partition yet: the data directory with
  the directory of the log, whose segments hold complete records. \<open>segs\<close> gives for each segment
  file its name, inode and rows.
\<close>

definition crashed :: "Runtime \<Rightarrow> path \<Rightarrow> (string \<times> nat \<times> Row list) list \<Rightarrow> meta filesys \<Rightarrow> bool" where
  "crashed R dataPath segs fs \<longleftrightarrow>
     (let dir = dataPath @ [walDirName] in
      fs_faults fs = [] \<and> (\<forall>q. prefix q dir \<longrightarrow> lookup fs q = Some Dir) \<and>
      dir_entries dataPath fs = [(walDirName, Dir)] \<and>
      dir_entries dir fs = map (\<lambda>(n, i, rows). (n, File i)) segs \<and>
      (\<forall>(n, i, rows) \<in> set segs. lookup fs (dir @ [n]) = Some (File i) \<and>
         file_bytes fs i = concat (map (record_bytes R) rows) \<and> (\<forall>row \<in> set rows. loggable R row)) \<and>
      (\<exists>i. lookup fs (dir @ [''0'']) = Some (File i)) \<and> lookup fs (dir @ [''1'']) \<noteq> Some Dir)"

definition logged_rows :: "(string \<times> nat \<times> Row list) list \<Rightarrow> Row list" where
  "logged_rows segs = concat (map (\<lambda>(n, i, rows). rows) segs)"

text \<open>Options do not touch the file system and do not depend on it.\<close>

lemma options_s_fs [simp]: "s_fs (foldl apply_option s opts) = s_fs s"
proof (induction opts arbitrary: s)
  case (Cons opt opts)
  have "s_fs (apply_option s opt) = s_fs s" by (cases opt) simp_all
  thus ?case using Cons.IH by simp
qed simp

lemma options_other_fs:
  "foldl apply_option (default_storage n fs) opts = (foldl apply_option (default_storage n fs0) opts)\<lparr>s_fs := fs\<rparr>"
proof -
  have one: "apply_option (s\<lparr>s_fs := fs\<rparr>) opt = (apply_option s opt)\<lparr>s_fs := fs\<rparr>" for s opt
    by (cases opt) simp_all
  have "foldl apply_option (s\<lparr>s_fs := fs\<rparr>) opts = (foldl apply_option s opts)\<lparr>s_fs := fs\<rparr>" for s
  proof (induction opts arbitrary: s)
    case (Cons opt opts)
    thus ?case by (simp add: one)
  qed simp
  from this [of "default_storage n fs0"] show ?thesis by (simp add: default_storage_def)
qed

lemma open_storage_crashed:
  assumes "crashed R dataPath segs fs" "srt [] = []" "dataPath \<noteq> []"
    "s_dataPath (foldl apply_option (default_storage n fs) opts) = dataPath"
    "0 \<le> s_walBufferedSize (foldl apply_option (default_storage n fs) opts)"
  shows "\<exists>w. open_storage srt n opts fs =
      (Inr ((foldl apply_option (default_storage n fs) opts)\<lparr>s_wal := DiskWAL w, s_fs := fs\<rparr>, True), fs) \<and>
    wal_healthy w fs \<and> dw_dir w = dataPath @ [walDirName] \<and> dw_index w = 1"
proof -
  let ?d = "foldl apply_option (default_storage n fs) opts" and ?dir = "dataPath @ [walDirName]"
  have c: "fs_faults fs = []" "\<forall>q. prefix q ?dir \<longrightarrow> lookup fs q = Some Dir" "dir_entries dataPath fs = [(walDirName, Dir)]"
    "\<exists>i. lookup fs (?dir @ [''0'']) = Some (File i)"
    using assms(1) by (simp_all add: crashed_def Let_def)
  obtain w where w: "newDiskWAL ?dir (s_walBufferedSize ?d) fs = (Inr w, fs)" "wal_healthy w fs" "dw_dir w = ?dir" "dw_index w = 1"
    using newDiskWAL_exists [OF c(1,2)] c(4) by blast
  have mk: "MkdirAll dataPath fs = (Inr (), fs)"
    using mkdirs_exists [of "[]" dataPath fs] c(1,2) by (simp add: MkdirAll_def)
  have rd: "ReadDir dataPath fs = (Inr [(walDirName, Dir)], fs)" using c by (simp add: ReadDir_def)
  have "s_fs ?d = fs" by (simp add: default_storage_def)
  hence "open_storage srt n opts fs = (Inr (?d\<lparr>s_wal := DiskWAL w, s_fs := fs\<rparr>, True), fs)"
    using assms(2-5) mk rd w(1)
    by (simp add: open_storage_def inMemoryMode_def open_wal_def isPartitionDir_def walDirName_def)
  thus ?thesis using w by blast
qed

text \<open>
  The recovery inserts all rows into a new partition. Of the log it leaves one empty segment.
\<close>

definition refreshed :: "path \<Rightarrow> meta filesys \<Rightarrow> meta filesys \<Rightarrow> bool" where
  "refreshed dataPath fs fs' \<longleftrightarrow>
     (let dir = dataPath @ [walDirName] in
      fs_faults fs' = [] \<and>
      (\<exists>n i. file_bytes fs' i = [] \<and> fs_entries fs' = outside dir fs @ [(dir, Dir), (dir @ [n], File i)]))"

lemma recoverWAL_crashed:
  assumes c: "crashed R dataPath segs fs" and s: "list_ok s []" "s_nextRef s = 0" "s_workers s < s_workersLimit s" "s_fs s = fs"
    and w: "s_wal s = DiskWAL w" "wal_healthy w fs" "dw_dir w = dataPath @ [walDirName]" "dw_index w = 1"
    and rows: "logged_rows segs \<noteq> []"
    and ins: "\<And>d prec st st'. any_append R (map (wal_row R) (logged_rows segs)) st = (Inr (), st') \<Longrightarrow>
      \<exists>m'. mem_insertRows R (clock 0) (any_append R) (map (wal_row R) (logged_rows segs)) st (newMemoryPartition d prec)
         = (Inr [], st', m') \<and> P m'"
    and P: "\<And>m'. P m' \<Longrightarrow> mp_ok m'"
  shows "\<exists>s' a m'. recoverWAL R clock (dataPath @ [walDirName]) s = (Inr (), s') \<and> list_ok s' [(a, 0)] \<and>
    s_nextRef s' = 1 \<and> s_parts s' 0 = MemP m' \<and> P m' \<and> refreshed dataPath fs (s_fs s')"
proof -
  let ?dir = "dataPath @ [walDirName]" and ?recs = "map (wal_row R) (logged_rows segs)"
  have faults: "fs_faults fs = []" and dirs: "\<forall>q. prefix q ?dir \<longrightarrow> lookup fs q = Some Dir"
    and files: "dir_entries ?dir fs = map (\<lambda>(n, i, rows). (n, File i)) segs"
    and segs: "\<forall>(n, i, rows) \<in> set segs. lookup fs (?dir @ [n]) = Some (File i) \<and>
         file_bytes fs i = concat (map (record_bytes R) rows) \<and> (\<forall>row \<in> set rows. loggable R row)"
    and one: "lookup fs (?dir @ [''1'']) \<noteq> Some Dir"
    using c by (simp_all add: crashed_def Let_def)
  have dir: "lookup fs ?dir = Some Dir" using dirs by simp
  have rd: "newDiskWALReader ?dir fs = (Inr (map (\<lambda>(n, i, rows). (n, File i)) segs), fs)"
    using dir faults files by (simp add: newDiskWALReader_def ReadDir_def)
  have all: "readAll ?dir (map (\<lambda>(n, i, rows). (n, File i)) segs) [] fs = (Inr ?recs, fs)"
    using readAll_segments [OF faults dir segs, of "[]" "[]"] by (simp add: logged_rows_def)
  have "itoa 1 = ''1''" by code_simp
  hence use: "wal_usable s" using w s(4) dirs one by (simp add: wal_usable_def)
  have few: "few_partitions s" using s(2) by simp
  from first_batch_logged [where P = P and clock = clock and freed = True and rows = ?recs and R = R, OF s(1) few s(3) w(1) use]
  obtain s1 a m' w1 where s1: "InsertRows R clock True ?recs s = (Inr (), s1)" "list_ok s1 [(a, 0)]" "s_nextRef s1 = 1"
    "s_parts s1 0 = MemP m'" "P m'" "s_wal s1 = DiskWAL w1" "wal_healthy w1 (s_fs s1)" "dw_dir w1 = ?dir"
    "\<forall>q. prefix q ?dir \<longrightarrow> lookup (s_fs s1) q = Some Dir" "outside ?dir (s_fs s1) = outside ?dir fs"
    using rows ins P s(2,4) w(3) by auto
  obtain w2 fs2 i where re: "wal_refresh w1 (s_fs s1) = (Inr (), w2, fs2)" "fs_faults fs2 = []" "file_bytes fs2 i = []"
    "fs_entries fs2 = outside ?dir fs @ [(?dir, Dir), (?dir @ [itoa (unat (dw_index w1))], File i)]"
    using wal_refresh_healthy [OF s1(7)] s1(8-10) by auto
  obtain s2 where s2: "on_wal wal_refresh s1 = (Inr (), s2)" "s_fs s2 = fs2"
    using s1(6) re(1) by (simp add: on_wal_def lift_wal_def)
  have fs2: "refreshed dataPath fs (s_fs s2)"
    unfolding refreshed_def Let_def s2(2) using re(2-4) by blast
  note keep = on_wal_list_ok [OF s2(1)]
  have same: "s\<lparr>s_fs := fs\<rparr> = s" using s(4) by simp
  have "recoverWAL R clock ?dir s = (Inr (), s2)"
    using rd all rows s1(1) s2(1) s(4) by (simp add: recoverWAL_def same)
  thus ?thesis using keep s1(2-5) fs2 by (intro exI [of _ s2] exI [of _ a] exI [of _ m']) simp
qed

text \<open>Reading a row from the log keeps its series and its point.\<close>

lemma series_of_wal_row [simp]: "series_of R metric labels (map (wal_row R) rows) = series_of R metric labels rows"
  by (simp add: series_of_def row_name_def wal_row_def filter_map comp_def)

lemma NewStorage_crashed:
  assumes c: "crashed R dataPath segs fs" and o: "srt [] = []" "dataPath \<noteq> []" "0 < n"
      "s_dataPath (foldl apply_option (default_storage n fs) opts) = dataPath"
      "0 \<le> s_walBufferedSize (foldl apply_option (default_storage n fs) opts)"
    and rows: "logged_rows segs \<noteq> []"
    and ins: "\<And>d prec st st'. any_append R (map (wal_row R) (logged_rows segs)) st = (Inr (), st') \<Longrightarrow>
      \<exists>m'. mem_insertRows R (clock 0) (any_append R) (map (wal_row R) (logged_rows segs)) st (newMemoryPartition d prec)
         = (Inr [], st', m') \<and> P m'"
    and P: "\<And>m'. P m' \<Longrightarrow> mp_ok m'"
  shows "\<exists>s fs' a b m'. NewStorage R srt clock n opts fs = (Inr s, fs') \<and> list_ok s [(b, 1), (a, 0)] \<and>
    s_parts s 0 = MemP m' \<and> all_new s {1} \<and> P m' \<and> refreshed dataPath fs fs'"
proof -
  let ?d = "foldl apply_option (default_storage n fs) opts"
  obtain w where w: "open_storage srt n opts fs = (Inr (?d\<lparr>s_wal := DiskWAL w, s_fs := fs\<rparr>, True), fs)"
    "wal_healthy w fs" "dw_dir w = dataPath @ [walDirName]" "dw_index w = 1"
    using open_storage_crashed [where srt = srt and n = n and opts = opts, OF c o(1,2,4,5)] by blast
  let ?s = "?d\<lparr>s_wal := DiskWAL w, s_fs := fs\<rparr>"
  have s: "list_ok ?s []" "s_nextRef ?s = 0" "s_workers ?s < s_workersLimit ?s" "s_fs ?s = fs" "s_wal ?s = DiskWAL w"
    using list_ok_default(1,2) [of n fs opts] options_kept [of "default_storage n fs" opts] o(3)
    by (simp_all add: list_ok_def default_storage_def)
  obtain s1 a m' where s1: "recoverWAL R clock (dataPath @ [walDirName]) ?s = (Inr (), s1)" "list_ok s1 [(a, 0)]"
    "s_nextRef s1 = 1" "s_parts s1 0 = MemP m'" "P m'" "refreshed dataPath fs (s_fs s1)"
    using recoverWAL_crashed [where P = P and clock = clock, OF c s w(2-4) rows ins P] by blast
  obtain res s2 where np: "newPartition None False s1 = (res, s2)" by fastforce
  note new = newPartition_ok [OF np s1(2)]
  let ?s2 = "s2\<lparr>s_ticker := True\<rparr>"
  have "s_fs ?s2 = s_fs s1" using np by (auto simp: newPartition_def new_ref_def)
  hence "NewStorage R srt clock n opts fs = (Inr ?s2, s_fs s1)"
    using w(1) s1(1) np o(4) by (simp add: NewStorage_def)
  moreover have "list_ok ?s2 [(pl_fresh (s_partitionList s1), 1), (a, 0)]" "s_parts ?s2 0 = MemP m'" "all_new ?s2 {1}"
    using new s1(3,4) by (auto simp: list_ok_def all_new_def)
  ultimately show ?thesis using s1(5,6) by blast
qed

text \<open>A selection from a storage with one filled partition behind a new head.\<close>

lemma Select_behind_head:
  assumes "list_ok s [(b, 1), (a, 0)]" "all_new s {1}" "answers (time 0, s_parts s 0)" "minTimestamp (s_parts s 0) \<noteq> 0"
    "part_series R metric labels (time 0, s_parts s 0) = ps"
    "metric \<noteq> ''''" "start < end" "\<forall>q \<in> set ps. dp_Timestamp q \<noteq> end"
  shows "\<exists>s'. Select R time metric labels start end s =
    Some (let qs = filter (within start end) ps in if qs = [] then Inl ErrNoDataPoints else Inr qs, s')"
proof -
  obtain d prec where new: "s_parts s 1 = MemP (newMemoryPartition d prec)" using assms(2) by (auto simp: all_new_def)
  have snap: "snapshot time s (map snd [(b, 1), (a, 0)]) = [(time 1, MemP (newMemoryPartition d prec)), (time 0, s_parts s 0)]"
    using new by (simp add: snapshot_def)
  have all: "all_series R metric labels (snapshot time s (map snd [(b, 1), (a, 0)])) = ps"
    unfolding snap all_series_def using assms(5) by (simp add: new_memoryMetric_def)
  have "ordered_parts R metric labels (snapshot time s (map snd [(b, 1), (a, 0)]))"
    unfolding snap ordered_parts_def time_ordered_def using assms(4) by (simp add: new_memoryMetric_def mp_minT_new)
  moreover have "\<forall>np \<in> set (snapshot time s (map snd [(b, 1), (a, 0)])). answers np"
    unfolding snap using assms(3) by simp
  ultimately show ?thesis
    using Select_eq [where clock = time and R = R and labels = labels, OF assms(1,6,7)] assms(8) unfolding all by blast
qed

section \<open>Writing into a new directory\<close>

text \<open>The file system after a storage has been started on an empty one.\<close>

definition new_dir_fs :: "string \<Rightarrow> meta filesys" where
  "new_dir_fs d = \<lparr>fs_entries = [([d], Dir), ([d, walDirName], Dir), ([d, walDirName, ''0''], File 0)],
     fs_inodes = (\<lambda>_. Bytes []), fs_next = 1, fs_faults = []\<rparr>"

definition new_wal :: "string \<Rightarrow> int \<Rightarrow> diskWAL" where
  "new_wal d sz = \<lparr>dw_dir = [d, walDirName], dw_bufferedSize = sz, dw_w = NewWriterSize sz, dw_fd = 0,
     dw_open = True, dw_index = 1\<rparr>"

lemma itoa_0: "itoa 0 = ''0''"
  by code_simp

lemma newDiskWAL_new:
  "MkdirAll [d] empty_fs = (Inr (), empty_fs\<lparr>fs_entries := [([d], Dir)]\<rparr>)"
  "newDiskWAL [d, walDirName] sz (empty_fs\<lparr>fs_entries := [([d], Dir)]\<rparr>) = (Inr (new_wal d sz), new_dir_fs d)"
  by (simp_all add: MkdirAll_def empty_fs_def lookup_def set_entry_def newDiskWAL_def startSegment_def
      createSegmentFile_def OpenAppend_def open_with_def new_file_def Let_def itoa_0 new_wal_def new_dir_fs_def fun_upd_def)

lemma recoverWAL_new:
  assumes "s_fs s = new_dir_fs d"
  shows "recoverWAL R clock [d, walDirName] s = (Inr (), s)"
proof -
  have same: "s\<lparr>s_fs := new_dir_fs d\<rparr> = s" using assms by simp
  have "newDiskWALReader [d, walDirName] (new_dir_fs d) = (Inr [(''0'', File 0)], new_dir_fs d)"
    by (simp add: newDiskWALReader_def ReadDir_def new_dir_fs_def lookup_def dir_entries_def)
  moreover have "readAll [d, walDirName] [(''0'', File 0)] [] (new_dir_fs d) = (Inr [], new_dir_fs d)"
    by (simp add: new_dir_fs_def OpenRead_def open_with_def lookup_def file_bytes_def file_Close_def)
  ultimately show ?thesis using assms by (simp add: recoverWAL_def same)
qed

lemma NewStorage_new:
  fixes opts n
  defines "opt \<equiv> foldl apply_option (default_storage n empty_fs) opts"
  assumes "s_dataPath opt = [d]" "srt [] = []" "s_walBufferedSize opt = sz" "0 \<le> sz"
  shows "\<exists>s a. NewStorage R srt clock n opts empty_fs = (Inr s, new_dir_fs d) \<and> list_ok s [(a, 0)] \<and>
    s_nextRef s = 1 \<and> s_parts s 0 = MemP (newMemoryPartition (s_partitionDuration opt) (s_timestampPrecision opt)) \<and>
    s_wal s = DiskWAL (new_wal d sz) \<and> s_fs s = new_dir_fs d \<and> s_workers s = 0 \<and> s_workersLimit s = n \<and>
    \<not> s_done s \<and> s_retention s = s_retention opt \<and> s_dataPath s = [d]"
proof -
  let ?s = "opt\<lparr>s_wal := DiskWAL (new_wal d sz), s_fs := new_dir_fs d\<rparr>"
  have rd: "ReadDir [d] (new_dir_fs d) = (Inr [(walDirName, Dir)], new_dir_fs d)"
    by (simp add: ReadDir_def new_dir_fs_def lookup_def dir_entries_def walDirName_def)
  have "s_fs opt = empty_fs" unfolding opt_def by (simp add: default_storage_def)
  hence op: "open_storage srt n opts empty_fs = (Inr (?s, True), new_dir_fs d)"
    using assms(2-5) rd
    by (simp add: open_storage_def inMemoryMode_def open_wal_def isPartitionDir_def opt_def [symmetric] Let_def
        newDiskWAL_new) (simp add: walDirName_def)
  have s: "list_ok ?s []" "s_nextRef ?s = 0" "s_workers ?s = 0" "s_workersLimit ?s = n" "\<not> s_done ?s"
    using list_ok_default(1,2) [of n empty_fs opts] options_kept [of "default_storage n empty_fs" opts]
    by (simp_all add: list_ok_def default_storage_def opt_def)
  obtain res s1 where np: "newPartition None False ?s = (res, s1)" by fastforce
  note new = newPartition_ok [OF np s(1)]
  have fields: "s_wal s1 = DiskWAL (new_wal d sz)" "s_fs s1 = new_dir_fs d" "s_workers s1 = 0" "s_workersLimit s1 = n"
    "\<not> s_done s1" "s_retention s1 = s_retention opt" "s_dataPath s1 = [d]"
    using np s(3-5) assms(2) by (auto simp: newPartition_def new_ref_def)
  let ?s1 = "s1\<lparr>s_ticker := True\<rparr>"
  have rec: "recoverWAL R clock [d, walDirName] ?s = (Inr (), ?s)" by (rule recoverWAL_new) simp
  have "NewStorage R srt clock n opts empty_fs = (Inr ?s1, new_dir_fs d)"
    using op rec np assms(2) fields(2) by (simp add: NewStorage_def)
  moreover have "list_ok ?s1 [(pl_fresh (s_partitionList ?s), 0)]" using new s(2) by (simp add: list_ok_def)
  ultimately show ?thesis using new s(2) fields by (intro exI [of _ ?s1] exI [of _ "pl_fresh (s_partitionList ?s)"]) simp
qed

text \<open>The first batch goes to the partition at the head and to the log.\<close>

lemma first_batch_new:
  assumes s: "list_ok s [(a, 0)]" "s_parts s 0 = MemP (newMemoryPartition d prec)" "s_wal s = DiskWAL (new_wal dir sz)"
      "s_fs s = new_dir_fs dir" "s_workers s < s_workersLimit s"
    and head: "mem_active (newMemoryPartition d prec)"
    and rows: "rows \<noteq> []" "\<forall>r \<in> set rows. row_Timestamp r \<noteq> 0" "int (length rows) < 2 ^ 63"
  shows "\<exists>w fs m. wal_append R operationInsert rows (new_wal dir sz) (new_dir_fs dir) = (Inr (), w, fs) \<and>
    wal_advances (new_wal dir sz, new_dir_fs dir) (Inr (), w, fs) \<and>
    mem_insertRows R (clock 0) (any_append R) rows (DiskWAL (new_wal dir sz), new_dir_fs dir) (newMemoryPartition d prec) =
      (Inr [], (DiskWAL w, fs), m) \<and>
    InsertRows R clock freed rows s = (Inr (), s\<lparr>s_wal := DiskWAL w, s_fs := fs, s_parts := (s_parts s)(0 := MemP m)\<rparr>)"
proof -
  let ?w = "new_wal dir sz" and ?fs = "new_dir_fs dir" and ?t = "s\<lparr>s_workers := s_workers s + 1\<rparr>"
  have h: "wal_healthy ?w ?fs" by (simp add: wal_healthy_def healthy_def new_wal_def new_dir_fs_def NewWriterSize_def)
  obtain w2 fs2 where ap: "wal_append R operationInsert rows ?w ?fs = (Inr (), w2, fs2)" "wal_advances (?w, ?fs) (Inr (), w2, fs2)"
    using wal_append_healthy [OF h, of R rows] by (cases "wal_append R operationInsert rows ?w ?fs") (auto simp: wal_advances_def)
  have app: "any_append R rows (DiskWAL ?w, ?fs) = (Inr (), DiskWAL w2, fs2)"
    using ap(1) by (simp add: any_append_def lift_wal_def)
  from mem_first_batch [where wal_append = "any_append R", OF rows this, of R "clock 0" d prec] obtain m' where
    m': "mem_insertRows R (clock 0) (any_append R) rows (DiskWAL ?w, ?fs) (newMemoryPartition d prec) =
      (Inr [], (DiskWAL w2, fs2), m')" by blast
  have t: "list_ok ?t [(a, 0)]" "s_parts ?t 0 = MemP (newMemoryPartition d prec)" using s(1,2) by (simp_all add: list_ok_def)
  have "getHead (s_partitionList ?t) = Some 0" using pl_repr_head [OF list_ok_repr [OF t(1)]] by simp
  hence act: "ensureActiveHead ?t = (Inr (), ?t)" using head t(2) by (simp add: ensureActiveHead_def)
  have "mem_insertRows R (clock 0) (any_append R) rows (s_wal ?t, s_fs ?t) (newMemoryPartition d prec) =
      (Inr [], (DiskWAL w2, fs2), m')" using m' s(3,4) by simp
  hence "insert_rows R clock rows ?t = (Inr (), ?t\<lparr>s_wal := DiskWAL w2, s_fs := fs2, s_parts := (s_parts ?t)(0 := MemP m')\<rparr>)"
    using act insert_loop_first [where clock = clock, OF t rows(1)] by (simp add: insert_rows_def)
  hence "InsertRows R clock freed rows s = (Inr (), s\<lparr>s_wal := DiskWAL w2, s_fs := fs2, s_parts := (s_parts s)(0 := MemP m')\<rparr>)"
    using s(5) by (simp add: InsertRows_def with_token_def)
  thus ?thesis using ap m' by blast
qed

text \<open>It is in the log completely when the log is not buffered.\<close>

lemma first_batch_crash:
  assumes s: "list_ok s [(a, 0)]" "s_parts s 0 = MemP (newMemoryPartition d prec)" "s_wal s = DiskWAL (new_wal dir 0)"
      "s_fs s = new_dir_fs dir" "s_workers s < s_workersLimit s"
    and head: "mem_active (newMemoryPartition d prec)"
    and rows: "rows \<noteq> []" "\<forall>r \<in> set rows. row_Timestamp r \<noteq> 0" "int (length rows) < 2 ^ 63" "\<forall>r \<in> set rows. loggable R r"
  shows "\<exists>s'. InsertRows R clock freed rows s = (Inr (), s') \<and> crashed R [dir] [(''0'', 0, rows)] (s_fs s')"
proof -
  let ?w = "new_wal dir 0" and ?fs = "new_dir_fs dir"
  obtain w2 fs2 m where ap: "wal_append R operationInsert rows ?w ?fs = (Inr (), w2, fs2)" "wal_advances (?w, ?fs) (Inr (), w2, fs2)"
    and ins: "InsertRows R clock freed rows s = (Inr (), s\<lparr>s_wal := DiskWAL w2, s_fs := fs2, s_parts := (s_parts s)(0 := MemP m)\<rparr>)"
    using first_batch_new [OF s head rows(1-3)] by blast
  have fresh: "fresh_segment ?w ?fs" by (simp add: fresh_segment_def new_wal_def new_dir_fs_def file_bytes_def)
  have same: "same_files ?fs fs2" using ap(2) by (simp add: wal_advances_def)
  have bytes: "file_bytes fs2 0 = concat (map (record_bytes R) rows)"
    using wal_append_spec [OF ap(1) fresh_segment_holds [OF fresh]] by (simp add: new_wal_def)
  have "lookup fs2 q = lookup ?fs q" "fs_faults fs2 = []" "dir_entries p fs2 = dir_entries p ?fs" for p q
    using same by (simp_all add: same_files_def lookup_def dir_entries_def new_dir_fs_def)
  moreover have "lookup ?fs q = Some Dir" if "prefix q [dir, walDirName]" for q
    using that by (auto simp: prefix_Cons lookup_def new_dir_fs_def)
  moreover have "dir_entries [dir] ?fs = [(walDirName, Dir)]" "dir_entries [dir, walDirName] ?fs = [(''0'', File 0)]"
    "lookup ?fs [dir, walDirName, ''0''] = Some (File 0)" "lookup ?fs [dir, walDirName, ''1''] = None"
    by (simp_all add: dir_entries_def new_dir_fs_def lookup_def walDirName_def)
  ultimately have "crashed R [dir] [(''0'', 0, rows)] fs2" using bytes rows(4) by (simp add: crashed_def Let_def)
  thus ?thesis using ins by (intro exI [of _ "s\<lparr>s_wal := DiskWAL w2, s_fs := fs2, s_parts := (s_parts s)(0 := MemP m)\<rparr>"]) simp
qed

lemma recovered_batch:
  assumes "rows \<noteq> []" "\<forall>r \<in> set rows. row_Timestamp r \<noteq> 0" "int (length rows) < 2 ^ 63" "clock_ok clock"
    "sorted_wrt (<) (map dp_Timestamp (series_of R metric labels rows))"
    "any_append R (map (wal_row R) rows) st = (Inr (), st')"
  shows "\<exists>m'. mem_insertRows R clock (any_append R) (map (wal_row R) rows) st (newMemoryPartition d prec) = (Inr [], st', m') \<and>
    mp_ok m' \<and> mp_minT m' \<noteq> 0 \<and>
    mm_points (metric_at (mp_metrics m') (metricName (sortLabels R) metric labels)) = series_of R metric labels rows"
  using mem_first_batch [where wal_append = "any_append R" and rows = "map (wal_row R) rows" and R = R and clock = clock,
      OF _ _ _ assms(6), of d prec] assms(1-5) by (auto simp: wal_row_def [of R r for r])

lemma crashed_select:
  assumes c: "crashed R dataPath segs fs" and o: "srt [] = []" "dataPath \<noteq> []" "0 < n"
      "s_dataPath (foldl apply_option (default_storage n fs) opts) = dataPath"
      "0 \<le> s_walBufferedSize (foldl apply_option (default_storage n fs) opts)"
    and rows: "logged_rows segs \<noteq> []" "\<forall>r \<in> set (logged_rows segs). row_Timestamp r \<noteq> 0"
      "int (length (logged_rows segs)) < 2 ^ 63" "\<forall>r. clock_ok (clock r)"
      "sorted_wrt (<) (map dp_Timestamp (series_of R metric labels (logged_rows segs)))"
    and sel: "metric \<noteq> ''''" "start < end" "\<forall>q \<in> set (series_of R metric labels (logged_rows segs)). dp_Timestamp q \<noteq> end"
  shows "\<exists>s fs' s' qs. NewStorage R srt clock n opts fs = (Inr s, fs') \<and>
    qs = filter (\<lambda>p. start \<le> dp_Timestamp p \<and> dp_Timestamp p < end) (series_of R metric labels (logged_rows segs)) \<and>
    Select R time metric labels start end s = Some (if qs = [] then Inl ErrNoDataPoints else Inr qs, s')"
proof -
  let ?P = "\<lambda>m'. mp_ok m' \<and> mp_minT m' \<noteq> 0 \<and>
    mm_points (metric_at (mp_metrics m') (metricName (sortLabels R) metric labels)) = series_of R metric labels (logged_rows segs)"
  have "clock_ok (clock 0)" using rows(4) by simp
  note ins = recovered_batch [OF rows(1-3) this rows(5)]
  have "\<exists>s fs' a b m'. NewStorage R srt clock n opts fs = (Inr s, fs') \<and> list_ok s [(b, 1), (a, 0)] \<and>
    s_parts s 0 = MemP m' \<and> all_new s {1} \<and> ?P m' \<and> refreshed dataPath fs fs'"
    by (rule NewStorage_crashed [where P = ?P and clock = clock and R = R and srt = srt and n = n and opts = opts, OF c o rows(1)]) (use ins in auto)
  then obtain s fs' a b m' where s: "NewStorage R srt clock n opts fs = (Inr s, fs')" "list_ok s [(b, 1), (a, 0)]"
    "s_parts s 0 = MemP m'" "all_new s {1}" "?P m'" by blast
  have m': "mp_ok m'" "mp_minT m' \<noteq> 0"
    "mm_points (metric_at (mp_metrics m') (metricName (sortLabels R) metric labels)) = series_of R metric labels (logged_rows segs)"
    using s(5) by auto
  have "answers (time 0, s_parts s 0)" "minTimestamp (s_parts s 0) \<noteq> 0"
    "part_series R metric labels (time 0, s_parts s 0) = series_of R metric labels (logged_rows segs)"
    using s(3) m' by simp_all
  from Select_behind_head [where time = time, OF s(2,4) this sel] obtain s' where
    "Select R time metric labels start end s = Some (let qs = filter (within start end)
       (series_of R metric labels (logged_rows segs)) in if qs = [] then Inl ErrNoDataPoints else Inr qs, s')" by blast
  thus ?thesis using s(1) by (auto simp: Let_def)
qed

section \<open>Starting again after a recovery\<close>

lemma sort_key_singleton: "sort_key f xs = [y] \<Longrightarrow> xs = [y]"
  by (metis mset_sort mset_single_iff_right)

lemma readAll_empty:
  assumes "fs_faults fs = []" "lookup fs dir = Some Dir"
    "\<forall>(n, e) \<in> set files. \<exists>i. e = File i \<and> lookup fs (dir @ [n]) = Some (File i) \<and> file_bytes fs i = []"
  shows "readAll dir files [] fs = (Inr [], fs)"
  using assms(3)
proof (induction files)
  case (Cons f files)
  obtain n i where f: "f = (n, File i)" "lookup fs (dir @ [n]) = Some (File i)" "file_bytes fs i = []"
    using Cons.prems by (cases f) auto
  have "OpenRead (dir @ [n]) fs = (Inr i, fs)" by (rule OpenRead_found [OF assms(1,2) f(2)])
  thus ?case using Cons f assms(1) by (simp add: file_Close_def)
qed simp

text \<open>The two files a restart finds: the refreshed segment and its own new one.\<close>

definition quiet_log :: "path \<Rightarrow> meta filesys \<Rightarrow> bool" where
  "quiet_log dataPath fs \<longleftrightarrow>
     (let dir = dataPath @ [walDirName] in
      fs_faults fs = [] \<and> (\<forall>q. prefix q dir \<longrightarrow> lookup fs q = Some Dir) \<and> dir_entries dataPath fs = [(walDirName, Dir)] \<and>
      (\<forall>(n, e) \<in> set (dir_entries dir fs). \<exists>i. e = File i \<and> lookup fs (dir @ [n]) = Some (File i) \<and> file_bytes fs i = []))"

lemma refreshed_quiet:
  assumes c: "crashed R dataPath segs fs" and r: "refreshed dataPath fs fs'"
  shows "quiet_log dataPath fs'"
proof -
  let ?dir = "dataPath @ [walDirName]"
  obtain n i where ents: "fs_entries fs' = outside ?dir fs @ [(?dir, Dir), (?dir @ [n], File i)]"
    and bytes: "file_bytes fs' i = []" and faults: "fs_faults fs' = []"
    using r by (auto simp: refreshed_def Let_def)
  have out: "map_of (outside ?dir fs) q = (if prefix ?dir q then None else map_of (fs_entries fs) q)" for q
  proof -
    have "map_of (filter (\<lambda>(q, e). \<not> prefix ?dir q) es) q = (if prefix ?dir q then None else map_of es q)"
      for es :: "(path \<times> entry) list" by (induction es) auto
    thus ?thesis by (simp add: outside_def)
  qed
  have look: "lookup fs' q = (if prefix ?dir q then map_of [(?dir, Dir), (?dir @ [n], File i)] q else lookup fs q)" for q
    using ents out [of q] by (auto simp: lookup_def map_add_def split: option.splits)
  have dirs: "lookup fs' q = Some Dir" if "prefix q ?dir" for q
    using that c look [of q] by (auto simp: crashed_def Let_def dest: prefix_order.antisym)
  have under: "filter (\<lambda>(q, e). q \<noteq> [] \<and> butlast q = ?dir) (outside ?dir fs) = []"
  proof -
    have "prefix ?dir q" if "butlast q = ?dir" for q using prefixeq_butlast [of q] that by simp
    thus ?thesis by (auto simp: filter_empty_conv outside_def)
  qed
  have "map (\<lambda>(q, e). (last q, e)) (filter (\<lambda>(q, e). q \<noteq> [] \<and> butlast q = dataPath) (fs_entries fs)) = [(walDirName, Dir)]"
    by (rule sort_key_singleton [of fst]) (use c in \<open>simp add: crashed_def Let_def dir_entries_def\<close>)
  note one = arg_cong [OF this, of set]
  have "q = ?dir" if q: "(q, e) \<in> set (fs_entries fs)" "q \<noteq> []" "butlast q = dataPath" for q e
  proof -
    have "(q, e) \<in> set (filter (\<lambda>(q, e). q \<noteq> [] \<and> butlast q = dataPath) (fs_entries fs))" using q by simp
    hence "(last q, e) \<in> {(walDirName, Dir)}" using one by (metis (mono_tags, lifting) case_prod_conv image_eqI list.set(1,2) set_map)
    thus ?thesis using append_butlast_last_id [OF q(2)] q(3) by simp
  qed
  hence "filter (\<lambda>(q, e). q \<noteq> [] \<and> butlast q = dataPath) (outside ?dir fs) = []"
    by (auto simp: filter_empty_conv outside_def)
  hence "dir_entries dataPath fs' = [(walDirName, Dir)]" by (simp add: dir_entries_def ents butlast_append)
  moreover have "dir_entries ?dir fs' = [(n, File i)]" using under by (simp add: dir_entries_def ents butlast_append)
  moreover have "lookup fs' (?dir @ [n]) = Some (File i)" using look [of "?dir @ [n]"] by simp
  ultimately show ?thesis using faults dirs bytes by (simp add: quiet_log_def Let_def)
qed

lemma newDiskWAL_quiet:
  assumes q: "quiet_log dataPath fs"
  shows "\<exists>w fs'. newDiskWAL (dataPath @ [walDirName]) sz fs = (Inr w, fs') \<and> quiet_log dataPath fs'"
proof -
  let ?dir = "dataPath @ [walDirName]" and ?seg = "(dataPath @ [walDirName]) @ [''0'']"
  have faults: "fs_faults fs = []" and dirs: "\<forall>q. prefix q ?dir \<longrightarrow> lookup fs q = Some Dir"
    and data: "dir_entries dataPath fs = [(walDirName, Dir)]"
    and log: "\<And>n e. (n, e) \<in> set (dir_entries ?dir fs) \<Longrightarrow>
      \<exists>i. e = File i \<and> lookup fs (?dir @ [n]) = Some (File i) \<and> file_bytes fs i = []"
    using q by (auto simp: quiet_log_def Let_def)
  have mk: "MkdirAll ?dir fs = (Inr (), fs)" using mkdirs_exists [of "[]" ?dir fs] faults dirs by (simp add: MkdirAll_def)
  have start: "\<exists>w. newDiskWAL ?dir sz fs = (Inr w, fs')" if "OpenAppend ?seg fs = (Inr i, fs')" for i fs'
    using that by (simp add: newDiskWAL_def mk startSegment_def createSegmentFile_def itoa_0)
  show ?thesis
  proof (cases "lookup fs ?seg")
    case None
    let ?i = "fs_next fs"
    let ?fs = "(set_entry ?seg (File ?i) fs)\<lparr>fs_inodes := (fs_inodes fs)(?i := Bytes []), fs_next := ?i + 1\<rparr>"
    have op: "OpenAppend ?seg fs = (Inr ?i, ?fs)"
      unfolding OpenAppend_def using open_new [of fs ?dir "''0''" False] faults dirs None by simp
    have ents: "fs_entries ?fs = fs_entries fs @ [(?seg, File ?i)]" using set_entry_new [of ?seg fs] None by simp
    have data': "dir_entries dataPath ?fs = [(walDirName, Dir)]" using data by (simp only: dir_entries_def ents) (simp add: butlast_append)
    have log': "set (dir_entries ?dir ?fs) = insert (''0'', File ?i) (set (dir_entries ?dir fs))"
      by (simp only: dir_entries_def ents) (simp add: butlast_append)
    have look: "lookup ?fs r = (if r = ?seg then Some (File ?i) else lookup fs r)" for r by (simp add: lookup_set_entry)
    have bytes: "file_bytes ?fs i = (if i = ?i then [] else file_bytes fs i)" for i by (simp add: file_bytes_def)
    have "\<exists>i. e = File i \<and> lookup ?fs (?dir @ [n]) = Some (File i) \<and> file_bytes ?fs i = []"
      if "(n, e) \<in> set (dir_entries ?dir ?fs)" for n e
      using that log [of n e] None unfolding log' look bytes by auto
    moreover have "lookup ?fs r = Some Dir" if "prefix r ?dir" for r
      using dirs that prefix_length_le [OF that] unfolding look by auto
    ultimately have "quiet_log dataPath ?fs" using faults data' by (auto simp: quiet_log_def Let_def)
    thus ?thesis using start [OF op] by blast
  next
    case (Some e)
    hence "(?seg, e) \<in> set (fs_entries fs)" by (auto simp: lookup_def dest: map_of_SomeD)
    hence "(''0'', e) \<in> set (dir_entries ?dir fs)" by (force simp: dir_entries_def butlast_append)
    then obtain i where "lookup fs ?seg = Some (File i)" using log by blast
    hence "OpenAppend ?seg fs = (Inr i, fs)" unfolding OpenAppend_def using dirs faults by (intro open_found) auto
    thus ?thesis using start q by blast
  qed
qed

text \<open>A restart on a log without rows finds nothing.\<close>

lemma NewStorage_quiet:
  assumes q: "quiet_log dataPath fs" and o: "srt [] = []" "dataPath \<noteq> []"
      "s_dataPath (foldl apply_option (default_storage n fs) opts) = dataPath"
      "0 \<le> s_walBufferedSize (foldl apply_option (default_storage n fs) opts)"
  shows "\<exists>s fs' a. NewStorage R srt clock n opts fs = (Inr s, fs') \<and> list_ok s [(a, 0)] \<and> all_new s {0}"
proof -
  let ?d = "foldl apply_option (default_storage n fs) opts" and ?dir = "dataPath @ [walDirName]"
  obtain w fs1 where w: "newDiskWAL ?dir (s_walBufferedSize ?d) fs = (Inr w, fs1)" "quiet_log dataPath fs1"
    using newDiskWAL_quiet [OF q] by blast
  have fs: "fs_faults fs = []" "lookup fs dataPath = Some Dir" "\<forall>q. prefix q dataPath \<longrightarrow> lookup fs q = Some Dir"
    using q by (auto simp: quiet_log_def Let_def)
  have fs1: "fs_faults fs1 = []" "lookup fs1 dataPath = Some Dir" "dir_entries dataPath fs1 = [(walDirName, Dir)]"
    "lookup fs1 ?dir = Some Dir"
    "\<forall>(n, e) \<in> set (dir_entries ?dir fs1). \<exists>i. e = File i \<and> lookup fs1 (?dir @ [n]) = Some (File i) \<and> file_bytes fs1 i = []"
    using w(2) by (auto simp: quiet_log_def Let_def)
  have mk: "MkdirAll dataPath fs = (Inr (), fs)" using mkdirs_exists [of "[]" dataPath fs] fs by (simp add: MkdirAll_def)
  have rd: "ReadDir dataPath fs1 = (Inr [(walDirName, Dir)], fs1)" using fs1 by (simp add: ReadDir_def)
  let ?s = "?d\<lparr>s_wal := DiskWAL w, s_fs := fs1\<rparr>"
  have "s_fs ?d = fs" by (simp add: default_storage_def)
  hence op: "open_storage srt n opts fs = (Inr (?s, True), fs1)"
    using o mk rd w(1) by (simp add: open_storage_def inMemoryMode_def open_wal_def isPartitionDir_def walDirName_def)
  have "readAll ?dir (dir_entries ?dir fs1) [] fs1 = (Inr [], fs1)" by (rule readAll_empty [OF fs1(1,4,5)])
  hence rec: "recoverWAL R clock ?dir ?s = (Inr (), ?s)"
    using fs1(1,4) by (simp add: recoverWAL_def newDiskWALReader_def ReadDir_def)
  have s: "list_ok ?s []" "s_nextRef ?s = 0" using list_ok_default(1,2) [of n fs opts] by (simp_all add: list_ok_def)
  obtain res s1 where np: "newPartition None False ?s = (res, s1)" by fastforce
  note new = newPartition_ok [OF np s(1)]
  let ?s1 = "s1\<lparr>s_ticker := True\<rparr>"
  have "NewStorage R srt clock n opts fs = (Inr ?s1, s_fs ?s1)" using op rec np o(3) by (simp add: NewStorage_def)
  moreover have "list_ok ?s1 [(pl_fresh (s_partitionList ?s), 0)]" "all_new ?s1 {0}"
    using new s(2) by (auto simp: list_ok_def all_new_def)
  ultimately show ?thesis by blast
qed

lemma Select_new_only:
  assumes "list_ok s avs" "all_new s (snd ` set avs)" "metric \<noteq> ''''" "start < end"
  shows "Select R time metric labels start end s = Some (Inl ErrNoDataPoints, s)"
proof -
  have "select_loop R time metric labels start end refs [] s = (Inl ErrNoDataPoints, s)"
    if "\<forall>r \<in> set refs. minTimestamp (s_parts s r) = 0" for refs
    using that by (induction refs) simp_all
  moreover have "\<forall>r \<in> set (map snd avs). minTimestamp (s_parts s r) = 0"
    using assms(2) by (auto simp: all_new_def mp_minT_new)
  ultimately show ?thesis using assms(3,4) list_ok_values [OF assms(1)] by (simp add: Select_def)
qed

text \<open>An example: the rows of a first batch, and the disk it leaves behind in a crash.\<close>

definition crash_opts :: "Option list" where
  "crash_opts = [WithDataPath [''d''], WithTimestampPrecision Seconds, WithWALBufferedSize 0]"

definition crash_rows :: "Row list" where
  "crash_rows = [row ''a'' 7 1, row ''b'' 3 2, row ''a'' 9 3]"

definition crash_fs :: "meta filesys" where
  "crash_fs = (new_dir_fs ''d'')\<lparr>fs_inodes := (\<lambda>_. Bytes (concat (map (record_bytes stable_runtime) crash_rows)))\<rparr>"

lemma crash_opts_fields:
  "s_dataPath (foldl apply_option (default_storage n fs) crash_opts) = [''d'']"
  "s_walBufferedSize (foldl apply_option (default_storage n fs) crash_opts) = 0"
  "s_partitionDuration (foldl apply_option (default_storage n fs) crash_opts) = 1 * Hour"
  "s_timestampPrecision (foldl apply_option (default_storage n fs) crash_opts) = Seconds"
  by (simp_all add: crash_opts_def default_storage_def)

lemma crash_rows_ok:
  "crash_rows \<noteq> []" "\<forall>r \<in> set crash_rows. row_Timestamp r \<noteq> 0" "\<forall>r \<in> set crash_rows. loggable stable_runtime r"
  "int (length crash_rows) < 2 ^ 63" "series_of stable_runtime ''a'' [] crash_rows = [point 7 1, point 9 3]"
  by (simp_all add: crash_rows_def loggable_def point_ok_def int64_range_def series_of_def row_name_def)

lemma crash_fs_ok: "crashed stable_runtime [''d''] [(''0'', 0, crash_rows)] crash_fs"
proof -
  have "lookup crash_fs q = Some Dir" if "prefix q [''d'', walDirName]" for q
    using that by (auto simp: prefix_Cons lookup_def new_dir_fs_def crash_fs_def)
  moreover have "fs_faults crash_fs = []" "dir_entries [''d''] crash_fs = [(walDirName, Dir)]"
    "dir_entries [''d'', walDirName] crash_fs = [(''0'', File 0)]"
    "lookup crash_fs [''d'', walDirName, ''0''] = Some (File 0)" "lookup crash_fs [''d'', walDirName, ''1''] = None"
    "file_bytes crash_fs 0 = concat (map (record_bytes stable_runtime) crash_rows)"
    by (simp_all add: dir_entries_def new_dir_fs_def lookup_def walDirName_def crash_fs_def file_bytes_def)
  ultimately show ?thesis using crash_rows_ok(3) by (simp add: crashed_def Let_def)
qed

lemma logged_crash_rows [simp]: "logged_rows [(''0'', 0, crash_rows)] = crash_rows"
  by (simp add: logged_rows_def)

section \<open>Properties\<close>

text \<open>
  C2: Recovery. A storage is started on a directory that a crashed process left behind, with complete
  segments in its write-ahead log, no partition yet, and no logged row with the timestamp 0. It
  starts without an error, and a selection of a series whose logged points are in increasing order
  of time returns exactly its points of the range, from all segments, when no point is at the
  end of the range.
\<close>

theorem recovery_selects_logged_rows:
  assumes "crashed R dataPath segs fs" and "srt [] = []" and "dataPath \<noteq> []" and "0 < n"
    and "s_dataPath (foldl apply_option (default_storage n fs) opts) = dataPath"
    and "0 \<le> s_walBufferedSize (foldl apply_option (default_storage n fs) opts)"
    and "logged_rows segs \<noteq> []" and "\<forall>r \<in> set (logged_rows segs). row_Timestamp r \<noteq> 0"
    and "int (length (logged_rows segs)) < 2 ^ 63" and "\<forall>r. clock_ok (clock r)"
    and "sorted_wrt (<) (map dp_Timestamp (series_of R metric labels (logged_rows segs)))"
    and "metric \<noteq> ''''" and "start < end" and "\<forall>q \<in> set (series_of R metric labels (logged_rows segs)). dp_Timestamp q \<noteq> end"
  shows "\<exists>s fs' s' qs. NewStorage R srt clock n opts fs = (Inr s, fs') \<and>
    qs = filter (\<lambda>p. start \<le> dp_Timestamp p \<and> dp_Timestamp p < end) (series_of R metric labels (logged_rows segs)) \<and>
    Select R time metric labels start end s = Some (if qs = [] then Inl ErrNoDataPoints else Inr qs, s')"
  by (rule crashed_select) (fact assms)+

theorem recovery_selects_logged_rows_witness:
  "\<exists>s fs' s'. NewStorage stable_runtime (\<lambda>ps. ps) (\<lambda>_ _. 5) 1 crash_opts crash_fs = (Inr s, fs') \<and>
    Select stable_runtime (\<lambda>_. 6) ''a'' [] 1 8 s = Some (Inr [point 7 1], s')"
  using recovery_selects_logged_rows [OF crash_fs_ok, of "\<lambda>ps. ps" 1 crash_opts "\<lambda>_ _. 5" "''a''" "[]" 1 8 "\<lambda>_. 6"] crash_rows_ok
  by (simp add: crash_opts_fields clock_ok_def)

text \<open>
  C1: An acknowledged first batch survives a crash, from end to end: a storage with an unbuffered log and
  a partition duration of more than one unit of time is started on an empty disk, a first batch of rows, none with the timestamp 0, is inserted, which
  reports success, and the process dies. A storage started again on what is on the disk then returns
  exactly the points of the range for a series whose rows the batch had in increasing order of time,
  when no point is at the end of the range.
\<close>

theorem crash_keeps_acknowledged_rows:
  assumes opt: "s_dataPath (foldl apply_option (default_storage n empty_fs) opts) = [d]"
      "s_walBufferedSize (foldl apply_option (default_storage n empty_fs) opts) = 0" "0 < n" "srt [] = []"
      "mem_active (newMemoryPartition (s_partitionDuration (foldl apply_option (default_storage n empty_fs) opts)) 
        (s_timestampPrecision (foldl apply_option (default_storage n empty_fs) opts)))"
    and rows: "rows \<noteq> []" "\<forall>r \<in> set rows. row_Timestamp r \<noteq> 0" "\<forall>r \<in> set rows. loggable R r" "int (length rows) < 2 ^ 63"
    and clock: "\<forall>r. clock_ok (clock r)" and series: "sorted_wrt (<) (map dp_Timestamp (series_of R metric labels rows))"
    and sel: "metric \<noteq> ''''" "start < end" "\<forall>q \<in> set (series_of R metric labels rows). dp_Timestamp q \<noteq> end"
  shows "\<exists>s1 fs1 s2 s3 fs3 s4 qs. NewStorage R srt clock n opts empty_fs = (Inr s1, fs1) \<and>
    InsertRows R clock freed rows s1 = (Inr (), s2) \<and>
    NewStorage R srt clock n opts (s_fs s2) = (Inr s3, fs3) \<and>
    qs = filter (\<lambda>p. start \<le> dp_Timestamp p \<and> dp_Timestamp p < end) (series_of R metric labels rows) \<and>
    Select R time metric labels start end s3 = Some (if qs = [] then Inl ErrNoDataPoints else Inr qs, s4)"
proof -
  let ?opt = "foldl apply_option (default_storage n empty_fs) opts"
  obtain s1 a where s1: "NewStorage R srt clock n opts empty_fs = (Inr s1, new_dir_fs d)" "list_ok s1 [(a, 0)]"
    "s_parts s1 0 = MemP (newMemoryPartition (s_partitionDuration ?opt) (s_timestampPrecision ?opt))"
    "s_wal s1 = DiskWAL (new_wal d 0)" "s_fs s1 = new_dir_fs d" "s_workers s1 = 0" "s_workersLimit s1 = n"
    using NewStorage_new [where n = n and opts = opts and d = d and sz = 0 and srt = srt and R = R and clock = clock]
      opt(1,2,4) by auto
  obtain s2 where s2: "InsertRows R clock freed rows s1 = (Inr (), s2)" "crashed R [d] [(''0'', 0, rows)] (s_fs s2)"
    using first_batch_crash [OF s1(2-5) _ opt(5) rows(1,2,4,3), of clock freed] s1(6,7) opt(3) by auto
  have o: "s_dataPath (foldl apply_option (default_storage n (s_fs s2)) opts) = [d]"
    "0 \<le> s_walBufferedSize (foldl apply_option (default_storage n (s_fs s2)) opts)"
    using options_other_fs [of n "s_fs s2" opts empty_fs] opt(1,2) by simp_all
  have logged: "logged_rows [(''0'', 0 :: nat, rows)] = rows" by (simp add: logged_rows_def)
  from crashed_select [where clock = clock and R = R and metric = metric and labels = labels and time = time and srt = srt and n = n and opts = opts,
      OF s2(2) opt(4) _ opt(3) o, unfolded logged, OF _ rows(1,2,4) clock series sel] s1(1) s2(1)
  show ?thesis by blast
qed

theorem crash_keeps_acknowledged_rows_witness:
  "\<exists>s1 fs1 s2 s3 fs3 s4. NewStorage stable_runtime (\<lambda>ps. ps) (\<lambda>_ _. 5) 1 crash_opts empty_fs = (Inr s1, fs1) \<and>
    InsertRows stable_runtime (\<lambda>_ _. 5) True crash_rows s1 = (Inr (), s2) \<and>
    NewStorage stable_runtime (\<lambda>ps. ps) (\<lambda>_ _. 5) 1 crash_opts (s_fs s2) = (Inr s3, fs3) \<and>
    Select stable_runtime (\<lambda>_. 6) ''a'' [] 1 20 s3 = Some (Inr [point 7 1, point 9 3], s4)"
proof -
  have active: "mem_active (newMemoryPartition (1 * Hour) Seconds)" by code_simp
  show ?thesis
    using crash_keeps_acknowledged_rows [of 1 crash_opts "''d''" "\<lambda>ps. ps" crash_rows stable_runtime "\<lambda>_ _. 5" "''a''" "[]" 1 20
      True "\<lambda>_. 6", unfolded crash_opts_fields crash_rows_ok(5)] crash_rows_ok(1-4) active
    by (simp add: clock_ok_def)
qed

text \<open>
  C25: Recovered rows do not survive a second crash. The recovery inserts the rows into a memory
  partition and then deletes the segments they came from, and the copies it has just logged: a
  storage started once more on what is then on the disk starts without an error and finds nothing,
  although the first restart gave the rows back.
\<close>

theorem second_crash_loses_recovered_rows:
  assumes "crashed R dataPath segs fs" and "srt [] = []" and "dataPath \<noteq> []" and "0 < n"
    and "s_dataPath (foldl apply_option (default_storage n fs) opts) = dataPath"
    and "0 \<le> s_walBufferedSize (foldl apply_option (default_storage n fs) opts)"
    and "logged_rows segs \<noteq> []" and "\<forall>r \<in> set (logged_rows segs). row_Timestamp r \<noteq> 0"
    and "int (length (logged_rows segs)) < 2 ^ 63" and "\<forall>r. clock_ok (clock r)"
  shows "\<exists>s1 fs1 s2 fs2. NewStorage R srt clock n opts fs = (Inr s1, fs1) \<and> NewStorage R srt clock n opts fs1 = (Inr s2, fs2) \<and>
    (\<forall>time metric labels start end. metric \<noteq> '''' \<and> start < end \<longrightarrow>
       Select R time metric labels start end s2 = Some (Inl ErrNoDataPoints, s2))"
proof -
  have clock: "clock_ok (clock 0)" using assms(10) by simp
  have ins: "\<exists>m'. mem_insertRows R (clock 0) (any_append R) (map (wal_row R) (logged_rows segs)) st (newMemoryPartition d prec)
      = (Inr [], st', m') \<and> mp_ok m'" if "any_append R (map (wal_row R) (logged_rows segs)) st = (Inr (), st')" for d prec st st'
    using mem_first_batch [where wal_append = "any_append R" and rows = "map (wal_row R) (logged_rows segs)" and R = R
        and clock = "clock 0", OF _ _ _ that, of d prec] assms(7-9) clock by (auto simp: wal_row_def [of R r for r])
  obtain s1 fs1 where s1: "NewStorage R srt clock n opts fs = (Inr s1, fs1)" "refreshed dataPath fs fs1"
    using NewStorage_crashed [where P = mp_ok and clock = clock and R = R and srt = srt and n = n and opts = opts,
        OF assms(1-7) ins] by blast
  have "s_dataPath (foldl apply_option (default_storage n fs1) opts) = dataPath"
    "0 \<le> s_walBufferedSize (foldl apply_option (default_storage n fs1) opts)"
    using options_other_fs [of n fs1 opts fs] assms(5,6) by simp_all
  from NewStorage_quiet [where R = R and clock = clock and srt = srt and n = n and opts = opts, OF refreshed_quiet [OF assms(1) s1(2)] assms(2,3) this]
  obtain s2 fs2 a where "NewStorage R srt clock n opts fs1 = (Inr s2, fs2)" "list_ok s2 [(a, 0)]" "all_new s2 {0}" by blast
  thus ?thesis using s1(1) Select_new_only [of s2 "[(a, 0)]"] by auto
qed

theorem second_crash_loses_recovered_rows_witness:
  "\<exists>s1 fs1 s2 fs2. NewStorage stable_runtime (\<lambda>ps. ps) (\<lambda>_ _. 5) 1 crash_opts crash_fs = (Inr s1, fs1) \<and>
    NewStorage stable_runtime (\<lambda>ps. ps) (\<lambda>_ _. 5) 1 crash_opts fs1 = (Inr s2, fs2) \<and>
    Select stable_runtime (\<lambda>_. 6) ''a'' [] 1 20 s2 = Some (Inl ErrNoDataPoints, s2)"
proof -
  obtain s1 fs1 s2 fs2 where s: "NewStorage stable_runtime (\<lambda>ps. ps) (\<lambda>_ _. 5) 1 crash_opts crash_fs = (Inr s1, fs1)"
    "NewStorage stable_runtime (\<lambda>ps. ps) (\<lambda>_ _. 5) 1 crash_opts fs1 = (Inr s2, fs2)"
    "\<forall>time metric labels start end. metric \<noteq> '''' \<and> start < end \<longrightarrow>
       Select stable_runtime time metric labels start end s2 = Some (Inl ErrNoDataPoints, s2)"
    using second_crash_loses_recovered_rows [OF crash_fs_ok, of "\<lambda>ps. ps" 1 crash_opts "\<lambda>_ _. 5"] crash_rows_ok(1,2,4)
    by (auto simp: crash_opts_fields clock_ok_def)
  from s(1,2) s(3) [rule_format, of "''a''" 1 20 "\<lambda>_. 6" "[]"] show ?thesis by auto
qed

end
