(* ===== verification/Storage_Close.thy ===== *)
theory Storage_Close
  imports Storage_Recovery
begin

text \<open>
  Closing a storage and starting it again: \<open>Close\<close> flushes the log, puts two new partitions at the
  head so that the filled one is flushed, and empties the log; \<open>NewStorage\<close> then opens the
  partition from its directory. The sections follow this path: what a written partition answers,
  the flush of the oldest partition, closing, starting, and the statement from end to end.
\<close>

section \<open>A written partition satisfies the contract of selections\<close>

lemma distinct_json_metrics: "distinct (map fst (json_metrics ms))"
proof -
  have "distinct (map fst (foldl (\<lambda>al (k, dm). AList.update (to_utf8 k) (dm\<lparr>dm_Name := to_utf8 (dm_Name dm)\<rparr>) al) al xs))"
    if "distinct (map fst al)" for al :: "(string \<times> diskMetric) list" and xs
    using that by (induction xs arbitrary: al) (auto simp: distinct_update)
  thus ?thesis by (simp add: json_metrics_def)
qed

lemma json_metrics_written:
  assumes "flushable R now m" "\<forall>n \<in> fst ` set (mp_metrics m). valid_utf8 n"
  shows "map_of (meta_Metrics (dk_meta (written_partition R now dir ret m))) n = map_of (layout R (mp_metrics m) 0 (visited R m)) n"
  using json_metrics_valid [of "layout R (mp_metrics m) 0 (visited R m)" n] layout_valid [of "visited R m" R "mp_metrics m" 0]
    visited_props [OF assms(1)] assms(2)
  by (simp add: written_partition_def json_meta_def disk_meta_def)

lemma written_stored:
  assumes "flushable R now m" "\<forall>n \<in> fst ` set (mp_metrics m). valid_utf8 n"
  shows "map_of (meta_Metrics (dk_meta (written_partition R now dir ret m))) n = None \<longleftrightarrow> n \<notin> fst ` set (mp_metrics m)"
proof -
  have "fst ` set (layout R (mp_metrics m) 0 (visited R m)) = fst ` set (mp_metrics m)"
    using layout_names [of R "mp_metrics m" 0 "visited R m"] visited_props(2) [OF assms(1)] by (metis set_map)
  thus ?thesis unfolding json_metrics_written [OF assms] map_of_eq_None_iff by simp
qed

lemma written_bounds [simp]:
  "dk_minTimestamp (written_partition R now dir ret m) = mp_minT m"
  "dk_maxTimestamp (written_partition R now dir ret m) = mp_maxT m"
  "dk_mappedFile (written_partition R now dir ret m) = data_bytes R m"
  "dk_expired t (written_partition R now dir ret m) \<longleftrightarrow> ret < time_Since t now"
  by (simp_all add: dk_minTimestamp_def dk_maxTimestamp_def written_partition_def json_meta_def disk_meta_def dk_expired_def)

lemma series_in_partition:
  assumes "flushable R now m" "p \<in> set (metric_series (sortPoints R) (metric_at (mp_metrics m) n))"
  shows "(n, p) \<in># mp_points m"
proof -
  have "p \<in># metric_points (metric_at (mp_metrics m) n)"
    using assms by (metis flushable_def mset_metric_series runtime_ok_def set_mset_mset)
  moreover from this have "map_of (mp_metrics m) n = Some (metric_at (mp_metrics m) n)"
    by (cases "map_of (mp_metrics m) n") (auto simp: metric_at_def new_memoryMetric_def metric_points_def)
  ultimately show ?thesis using metric_points_in by blast
qed

lemma disk_ok_written:
  assumes ok: "flushable R now m" and utf8: "\<forall>n \<in> fst ` set (mp_metrics m). valid_utf8 n"
    and pts: "\<forall>(n, p) \<in># mp_points m. point_ok p \<and> dp_Timestamp p \<noteq> 0"
  shows "disk_ok (written_partition R now dir ret m)"
proof -
  let ?d = "written_partition R now dir ret m"
  have *: "0 \<le> dm_Offset dm \<and> 0 \<le> dm_NumDataPoints dm \<and> dm_NumDataPoints dm \<le> 2 ^ 45 \<and>
     (case decodePoints (nat (dm_NumDataPoints dm)) (newSeriesDecoder (drop (nat (dm_Offset dm)) (dk_mappedFile ?d))) of
        Inr ps \<Rightarrow> sorted (map dp_Timestamp ps) \<and>
          (\<forall>p \<in> set ps. dk_minTimestamp ?d \<le> dp_Timestamp p \<and> dp_Timestamp p \<le> dk_maxTimestamp ?d)
      | Inl _ \<Rightarrow> False)" if "(n, dm) \<in> set (meta_Metrics (dk_meta ?d))" for n dm
  proof -
    have "distinct (map fst (meta_Metrics (dk_meta ?d)))"
      by (simp add: written_partition_def json_meta_def distinct_json_metrics)
    hence map: "map_of (meta_Metrics (dk_meta ?d)) n = Some dm" using that by simp
    hence "n \<in> fst ` set (mp_metrics m)" using written_stored [OF ok utf8, of dir ret n] by auto
    from written_entry [OF ok utf8 pts this, of dir ret] map
    have dm: "0 \<le> dm_Offset dm" "0 \<le> dm_NumDataPoints dm" "dm_NumDataPoints dm \<le> 2 ^ 45"
      "decodePoints (nat (dm_NumDataPoints dm)) (newSeriesDecoder (drop (nat (dm_Offset dm)) (data_bytes R m))) =
        Inr (metric_series (sortPoints R) (metric_at (mp_metrics m) n))" by auto
    have "sorted (map dp_Timestamp (metric_series (sortPoints R) (metric_at (mp_metrics m) n)))"
      using ok metric_ok_metric_at by (intro sorted_metric_series) (auto simp: flushable_def mp_ok_def runtime_ok_def)
    moreover have "mp_minT m \<le> dp_Timestamp p \<and> dp_Timestamp p \<le> mp_maxT m"
      if "p \<in> set (metric_series (sortPoints R) (metric_at (mp_metrics m) n))" for p
      using series_in_partition [OF ok that] ok by (auto simp: flushable_def mp_ok_def)
    ultimately show ?thesis using dm by simp
  qed
  show ?thesis unfolding disk_ok_def
  proof
    fix x assume x: "x \<in> set (meta_Metrics (dk_meta ?d))"
    obtain n dm where "x = (n, dm)" by fastforce
    thus "case x of (n, dm) \<Rightarrow> 0 \<le> dm_Offset dm \<and> 0 \<le> dm_NumDataPoints dm \<and> dm_NumDataPoints dm \<le> 2 ^ 45 \<and>
     (case decodePoints (nat (dm_NumDataPoints dm)) (newSeriesDecoder (drop (nat (dm_Offset dm)) (dk_mappedFile ?d))) of
        Inr ps \<Rightarrow> sorted (map dp_Timestamp ps) \<and>
          (\<forall>p \<in> set ps. dk_minTimestamp ?d \<le> dp_Timestamp p \<and> dp_Timestamp p \<le> dk_maxTimestamp ?d)
      | Inl _ \<Rightarrow> False)" using * [of n dm] x by (simp only: prod.case)
  qed
qed

lemma part_series_written:
  assumes ok: "flushable R now m" and utf8: "\<forall>n \<in> fst ` set (mp_metrics m). valid_utf8 n"
    and pts: "\<forall>(n, p) \<in># mp_points m. point_ok p \<and> dp_Timestamp p \<noteq> 0" and fresh: "time_Since t now \<le> ret"
  shows "part_series R metric labels (t, DiskP (written_partition R now dir ret m)) =
    metric_series (sortPoints R) (metric_at (mp_metrics m) (metricName (sortLabels R) metric labels))"
proof (cases "metricName (sortLabels R) metric labels \<in> fst ` set (mp_metrics m)")
  case True
  from written_entry [OF ok utf8 pts this, of dir ret] obtain dm where
    "map_of (meta_Metrics (dk_meta (written_partition R now dir ret m))) (metricName (sortLabels R) metric labels) = Some dm"
    "decodePoints (nat (dm_NumDataPoints dm)) (newSeriesDecoder (drop (nat (dm_Offset dm)) (data_bytes R m))) =
      Inr (metric_series (sortPoints R) (metric_at (mp_metrics m) (metricName (sortLabels R) metric labels)))" by blast
  thus ?thesis using fresh by simp
next
  case False
  let ?ps = "metric_series (sortPoints R) (metric_at (mp_metrics m) (metricName (sortLabels R) metric labels))"
  have inv: "metrics_ok (mp_metrics m)" using ok by (simp add: flushable_def mp_ok_def)
  have "p \<notin> set ?ps" for p using points_of_metric [OF inv series_in_partition [OF ok]] False by blast
  hence "?ps = []" by (meson list.set_sel(1))
  moreover have "map_of (meta_Metrics (dk_meta (written_partition R now dir ret m))) (metricName (sortLabels R) metric labels) = None"
    using written_stored [OF ok utf8] False by blast
  ultimately show ?thesis by simp
qed

section \<open>The log during a close\<close>

text \<open>A log that works, with its directory and nothing but files in it.\<close>

definition log_ready :: "diskWAL \<Rightarrow> 'j filesys \<Rightarrow> bool" where
  "log_ready w fs \<longleftrightarrow> wal_healthy w fs \<and> (\<forall>q. prefix q (dw_dir w) \<longrightarrow> lookup fs q = Some Dir) \<and>
     (\<forall>n. lookup fs (dw_dir w @ [n]) \<noteq> Some Dir)"

lemma log_ready_same_files:
  assumes "log_ready w fs" "same_files fs fs'" "bw_err (dw_w w') = None" "dw_dir w' = dw_dir w" "dw_open w' = dw_open w"
  shows "log_ready w' fs'"
  using assms same_files_lookup [OF assms(2)]
  by (simp add: log_ready_def wal_healthy_def healthy_def same_files_def)

lemma log_ready_punctuate:
  assumes "log_ready w fs"
  shows "\<exists>w' fs'. wal_punctuate w fs = (Inr (), w', fs') \<and> log_ready w' fs' \<and> dw_dir w' = dw_dir w \<and>
    outside (dw_dir w) fs' = outside (dw_dir w) fs \<and> (\<exists>n i. lookup fs' (dw_dir w @ [n]) = Some (File i))"
proof -
  let ?seg = "dw_dir w @ [itoa (unat (dw_index w))]"
  have r: "wal_healthy w fs" "\<forall>q. prefix q (dw_dir w) \<longrightarrow> lookup fs q = Some Dir" "\<forall>n. lookup fs (dw_dir w @ [n]) \<noteq> Some Dir"
    using assms by (simp_all add: log_ready_def)
  obtain w' fs' i where p: "wal_punctuate w fs = (Inr (), w', fs')" "wal_healthy w' fs'" "dw_dir w' = dw_dir w"
    "outside (dw_dir w) fs' = outside (dw_dir w) fs" "\<forall>q. q \<noteq> ?seg \<longrightarrow> lookup fs' q = lookup fs q" "lookup fs' ?seg = Some (File i)"
    using wal_punctuate_healthy [OF r(1)] r(2,3) by blast
  have "lookup fs' q = Some Dir" if "prefix q (dw_dir w)" for q
  proof -
    have "q \<noteq> ?seg" using prefix_length_le [OF that] by auto
    thus ?thesis using p(5) r(2) that by simp
  qed
  moreover have "lookup fs' (dw_dir w @ [n]) \<noteq> Some Dir" for n
    using p(5,6) r(3) by (cases "n = itoa (unat (dw_index w))") simp_all
  ultimately have "log_ready w' fs'" using p(2,3) by (simp add: log_ready_def)
  thus ?thesis using p by blast
qed

lemma log_ready_removeOldest:
  assumes "log_ready w fs" "lookup fs (dw_dir w @ [n]) = Some e"
  shows "\<exists>fs'. wal_removeOldest w fs = (Inr (), w, fs') \<and> log_ready w fs' \<and> outside (dw_dir w) fs' = outside (dw_dir w) fs \<and>
    fs_inodes fs' = fs_inodes fs \<and> fs_next fs' = fs_next fs"
proof -
  have r: "wal_healthy w fs" "\<forall>q. prefix q (dw_dir w) \<longrightarrow> lookup fs q = Some Dir" "\<forall>n. lookup fs (dw_dir w @ [n]) \<noteq> Some Dir"
    using assms(1) by (simp_all add: log_ready_def)
  have faults: "fs_faults fs = []" using r(1) by (simp add: wal_healthy_def healthy_def)
  have "(dw_dir w @ [n], e) \<in> set (fs_entries fs)" using assms(2) by (auto simp: lookup_def dest: map_of_SomeD)
  hence "(n, e) \<in> set (dir_entries (dw_dir w) fs)" by (force simp: dir_entries_def)
  then obtain k e' files where files: "dir_entries (dw_dir w) fs = (k, e') # files" by (cases "dir_entries (dw_dir w) fs") auto
  let ?fs = "fs\<lparr>fs_entries := outside (dw_dir w @ [k]) fs\<rparr>"
  have look: "lookup ?fs q = (if q \<noteq> [] \<and> prefix (dw_dir w @ [k]) q then None else lookup fs q)" for q by (rule lookup_outside)
  have "wal_removeOldest w fs = (Inr (), w, ?fs)"
    using r(2) faults files by (simp add: wal_removeOldest_def ReadDir_def RemoveAll_def outside_def)
  moreover have "outside (dw_dir w) ?fs = outside (dw_dir w) fs"
    using append_prefixD by (fastforce simp: outside_def intro!: filter_cong)
  moreover have "lookup ?fs q = Some Dir" if "prefix q (dw_dir w)" for q
    using r(2) that prefix_length_le [of "dw_dir w @ [k]" q] prefix_length_le [OF that] unfolding look by auto
  moreover have "lookup ?fs (dw_dir w @ [n]) \<noteq> Some Dir" for n using r(3) unfolding look by simp
  ultimately show ?thesis using r(1) faults by (simp add: log_ready_def wal_healthy_def healthy_def)
qed

section \<open>Flushing the oldest partition\<close>

lemma lookup_more:
  "fs_entries fs' = fs_entries fs @ es \<Longrightarrow>
   lookup fs' q = (case lookup fs q of Some e \<Rightarrow> Some e | None \<Rightarrow> map_of es q)"
  by (auto simp: lookup_def map_add_def split: option.splits)

lemma partition_dir_not_wal: "partition_dir m \<noteq> walDirName" "\<not> prefix (dataPath @ [walDirName]) (dataPath @ partition_dir m # q)"
  by (simp_all add: partition_dir_def walDirName_def)

text \<open>The three entries of a partition on disk, with their inodes from \<open>i\<close>.\<close>

definition partition_entries :: "path \<Rightarrow> nat \<Rightarrow> (path \<times> entry) list" where
  "partition_entries dir i = [(dir, Dir), (dir @ [dataFileName], File i), (dir @ [metaFileName], File (i + 1))]"

text \<open>A directory for the partition can be made beside the log.\<close>

definition room_for :: "memoryPartition \<Rightarrow> path \<Rightarrow> 'j filesys \<Rightarrow> bool" where
  "room_for m dataPath fs \<longleftrightarrow> lookup fs (dataPath @ [partition_dir m]) = None \<and>
     (\<forall>n. lookup fs (dataPath @ [partition_dir m, n]) = None)"

lemma room_can_create:
  assumes "log_ready w fs" "dw_dir w = dataPath @ [walDirName]" "room_for m dataPath fs"
  shows "can_create (dataPath @ [partition_dir m]) fs"
    "MkdirAll (dataPath @ [partition_dir m]) fs = (Inr (), set_entry (dataPath @ [partition_dir m]) Dir fs)"
proof -
  have dirs: "\<forall>q. prefix q dataPath \<longrightarrow> lookup fs q = Some Dir" "fs_faults fs = []"
    using assms(1,2) by (auto simp: log_ready_def wal_healthy_def healthy_def)
  show "can_create (dataPath @ [partition_dir m]) fs"
    using dirs assms(3) by (auto simp: can_create_def room_for_def)
  show "MkdirAll (dataPath @ [partition_dir m]) fs = (Inr (), set_entry (dataPath @ [partition_dir m]) Dir fs)"
    using mkdirs_snoc [of "[]" dataPath fs "partition_dir m"] dirs assms(3) by (simp add: MkdirAll_def room_for_def)
qed

lemma partition_written:
  assumes log: "log_ready w fs" "dw_dir w = dataPath @ [walDirName]" and room: "room_for m dataPath fs" and ok: "flushable R now m"
    and pts: "\<forall>(n, p) \<in># mp_points m. point_ok p \<and> dp_Timestamp p \<noteq> 0" "mp_points m \<noteq> {#}"
  defines "dir \<equiv> dataPath @ [partition_dir m]"
  shows "\<exists>m' fs'. storage_flush R now dir m fs = (Inr (), m', fs') \<and> fs_entries fs' = fs_entries fs @ partition_entries dir (fs_next fs) \<and>
    openDiskPartition dir ret fs' = (Inr (written_partition R now dir ret m), fs') \<and> log_ready w fs' \<and>
    fs_next fs' = fs_next fs + 2 \<and> fs_inodes fs' (fs_next fs) = Bytes (data_bytes R m) \<and>
    fs_inodes fs' (fs_next fs + 1) = Json (json_meta (disk_meta R now m))"
proof -
  note mk = room_can_create [OF log room, folded dir_def]
  have dir: "dir \<noteq> []" "lookup fs dir = None" "\<And>n. lookup fs (dir @ [n]) = None"
    using room by (simp_all add: dir_def room_for_def)
  obtain m' fs' where fl: "storage_flush R now dir m fs = (Inr (), m', fs')" "fs_faults fs' = []"
    "fs_entries fs' = fs_entries (set_entry dir Dir fs) @ [(dir @ [dataFileName], File (fs_next fs)), (dir @ [metaFileName], File (fs_next fs + 1))]"
    "fs_next fs' = fs_next fs + 2" "fs_inodes fs' (fs_next fs) = Bytes (data_bytes R m)"
    "fs_inodes fs' (fs_next fs + 1) = Json (json_meta (disk_meta R now m))"
    using storage_flush_writes [OF ok mk] by blast
  have ents: "fs_entries fs' = fs_entries fs @ partition_entries dir (fs_next fs)"
    using fl(3) set_entry_new [OF dir(1,2)] by (simp add: partition_entries_def)
  note look = lookup_more [OF ents]
  have neq: "dataFileName \<noteq> metaFileName" by (simp add: dataFileName_def metaFileName_def)
  have files: "lookup fs' dir = Some Dir" "lookup fs' (dir @ [dataFileName]) = Some (File (fs_next fs))"
    "lookup fs' (dir @ [metaFileName]) = Some (File (fs_next fs + 1))"
    unfolding look using dir(2,3) neq by (simp_all add: partition_entries_def)
  have "openDiskPartition dir ret fs' = (Inr (written_partition R now dir ret m), fs')"
    using openDiskPartition_written [OF fl(2) dir(1) files fl(5,6), of ret] data_bytes_nonempty [OF ok pts]
    by (simp add: written_partition_def)
  moreover have "log_ready w fs'"
    unfolding log_ready_def look using log fl(2) partition_dir_not_wal(1) [of m]
    by (auto simp: log_ready_def wal_healthy_def healthy_def partition_entries_def dir_def split: option.splits)
  ultimately show ?thesis using fl ents by blast
qed

lemma flush_partition_writes:
  assumes ok: "list_ok s (ys @ [(a, r)])" "\<forall>u \<in> snd ` set ys. ref_minT s u \<noteq> ref_minT s r" and m: "s_parts s r = MemP m"
    and w: "s_wal s = DiskWAL w" "log_ready w (s_fs s)" "dw_dir w = s_dataPath s @ [walDirName]" "lookup (s_fs s) (dw_dir w @ [n]) = Some e"
    and room: "room_for m (s_dataPath s) (s_fs s)" and fl: "flushable R now m"
    and pts: "\<forall>(n, p) \<in># mp_points m. point_ok p \<and> dp_Timestamp p \<noteq> 0" "mp_points m \<noteq> {#}"
  defines "dir \<equiv> s_dataPath s @ [partition_dir m]"
  shows "\<exists>s' c. flush_partition R now r m s = Some (Inr (), s') \<and> list_ok s' (ys @ [(c, s_nextRef s)]) \<and>
    s_parts s' (s_nextRef s) = DiskP (written_partition R now dir (s_retention s) m) \<and>
    (\<forall>u \<in> snd ` set ys. s_parts s' u = s_parts s u) \<and> s_wal s' = DiskWAL w \<and> log_ready w (s_fs s') \<and>
    seg (pl_nodes (s_partitionList s')) (getNext (s_partitionList s') a) [] None \<and>
    outside (dw_dir w) (s_fs s') = outside (dw_dir w) (s_fs s) @ partition_entries dir (fs_next (s_fs s)) \<and>
    fs_next (s_fs s') = fs_next (s_fs s) + 2 \<and> fs_inodes (s_fs s') (fs_next (s_fs s)) = Bytes (data_bytes R m) \<and>
    fs_inodes (s_fs s') (fs_next (s_fs s) + 1) = Json (json_meta (disk_meta R now m))"
proof -
  let ?i = "fs_next (s_fs s)" and ?d = "written_partition R now dir (s_retention s) m"
  obtain m1 fs1 where f1: "storage_flush R now dir m (s_fs s) = (Inr (), m1, fs1)"
    "fs_entries fs1 = fs_entries (s_fs s) @ partition_entries dir ?i"
    "openDiskPartition dir (s_retention s) fs1 = (Inr ?d, fs1)" "log_ready w fs1"
    "fs_next fs1 = ?i + 2" "fs_inodes fs1 ?i = Bytes (data_bytes R m)"
    "fs_inodes fs1 (?i + 1) = Json (json_meta (disk_meta R now m))"
    using partition_written [OF w(2,3) room fl pts, folded dir_def, of "s_retention s"] by blast
  have "mp_ok m" "runtime_ok R" using fl by (simp_all add: flushable_def)
  note keep = storage_flush_keeps [OF this(2,1) f1(1)]
  hence min: "mp_minT m1 = mp_minT m"
    by (metis memoryPartition.ext_inject memoryPartition.surjective memoryPartition.update_convs(4))
  let ?s = "s\<lparr>s_parts := (s_parts s)(r := MemP m1), s_fs := fs1\<rparr>"
  have ok': "list_ok ?s (ys @ (a, r) # [])" using ok(1) keep by (auto simp: list_ok_def)
  have refs: "ref_minT ?s u = ref_minT s u" for u using m min by (simp add: ref_minT_def)
  obtain us b v ws s1 c where at: "ys @ [(a, r)] = us @ (b, v) # ws" "ref_minT ?s v = ref_minT ?s r"
    "list_swap r (DiskP ?d) ?s = Some (Inr (), s1)" "list_ok s1 (us @ (c, s_nextRef ?s) # ws @ [])"
    "seg (pl_nodes (s_partitionList s1)) (getNext (s_partitionList s1) a) [] None"
    "s1 = ?s\<lparr>s_parts := (s_parts ?s)(s_nextRef ?s := DiskP ?d), s_nextRef := Suc (s_nextRef ?s),
            s_partitionList := s_partitionList s1\<rparr>"
    by (rule list_swap_at [OF ok', of "DiskP ?d"]) simp_all
  have "us = ys \<and> ws = [] \<and> v = r" using found_last [OF at(1,2)] ok(2) unfolding refs by blast
  hence ok1: "list_ok s1 (ys @ [(c, s_nextRef s)])" using at(4) by simp
  have s1: "s_parts s1 = (s_parts s)(r := MemP m1, s_nextRef s := DiskP ?d)" "s_wal s1 = DiskWAL w" "s_fs s1 = fs1"
    by (subst at(6), use w(1) in simp)+
  have "lookup fs1 (dw_dir w @ [n]) = Some e" using lookup_more [OF f1(2)] w(4) by simp
  then obtain fs2 where rm: "wal_removeOldest w fs1 = (Inr (), w, fs2)" "log_ready w fs2"
    "outside (dw_dir w) fs2 = outside (dw_dir w) fs1" "fs_inodes fs2 = fs_inodes fs1" "fs_next fs2 = fs_next fs1"
    using log_ready_removeOldest [OF f1(4)] by blast
  obtain s2 where s2: "on_wal wal_removeOldest s1 = (Inr (), s2)" "s_wal s2 = DiskWAL w" "s_fs s2 = fs2"
    using s1(2,3) rm(1) by (simp add: on_wal_def lift_wal_def)
  note keep2 = on_wal_list_ok [OF s2(1)]
  have "flush_partition R now r m s = Some (Inr (), s2)"
    using f1(1,3) at(3) s2(1) by (simp add: flush_partition_def dir_def [symmetric] Let_def wrapS_def thenS_def)
  moreover have "s_parts s2 u = s_parts s u" if "u \<in> snd ` set ys" for u
    using that ok(1) keep2(3) s1(1) by (auto simp: list_ok_def)
  moreover have "outside (dw_dir w) fs1 = outside (dw_dir w) (s_fs s) @ partition_entries dir ?i"
    using f1(2) partition_dir_not_wal by (simp add: outside_def partition_entries_def dir_def w(3))
  ultimately show ?thesis using ok1 keep2 s1(1) s2(2,3) rm(2-5) f1(5-7) at(5)
    by (intro exI [of _ s2] exI [of _ c]) simp
qed

section \<open>Closing\<close>

text \<open>The loop skips the two partitions at the head.\<close>

lemma flush_loop_skip:
  assumes "seg (pl_nodes (s_partitionList s)) (ahead (s_partitionList s) it) ((b, u) # zs) None" "i < writablePartitionsNum"
  shows "flush_loop (Suc fuel) R clock i it s = flush_loop fuel R clock (i + 1) (At (Some b)) s"
    "seg (pl_nodes (s_partitionList s)) (ahead (s_partitionList s) (At (Some b))) zs None"
  using seg_Cons_node [OF assms(1)] assms(2) by (simp_all add: iter_next_ahead)

lemma flushPartitions_oldest:
  assumes ok: "list_ok s [(c, v), (b, u), (a, r)]" and m: "s_parts s r = MemP m" and data: "s_dataPath s \<noteq> []"
    and fl: "flush_partition R (clock r) r m s = Some (Inr (), s')"
    and last: "seg (pl_nodes (s_partitionList s')) (getNext (s_partitionList s') a) [] None"
  shows "flushPartitions R clock s = Some (Inr (), s')"
proof -
  let ?l = "s_partitionList s"
  have rep: "represents ?l [(c, v), (b, u), (a, r)]" using ok by (simp add: list_ok_def)
  obtain k where fuel: "pl_fuel ?l = Suc (Suc (Suc (Suc k)))"
    using represents_length [OF rep] le_Suc_ex [of 4 "pl_fuel ?l"] by (auto simp: pl_fuel_def numeral_eq_Suc)
  have s0: "seg (pl_nodes ?l) (ahead ?l (newIterator ?l)) [(c, v), (b, u), (a, r)] None"
    using rep by (simp add: represents_def newIterator_def)
  have lt: "0 < writablePartitionsNum" "0 + 1 < writablePartitionsNum" by (simp_all add: writablePartitionsNum_def)
  note s1 = flush_loop_skip [OF s0 lt(1)]
  note s2 = flush_loop_skip [OF s1(2) lt(2)]
  have seg: "seg (pl_nodes ?l) (ahead ?l (At (Some b))) [(a, r)] None" by (rule s2(2))
  note node = seg_Cons_node [OF seg]
  have nx: "iter_next ?l (At (Some b)) = (True, At (Some a))" "iter_value ?l (At (Some a)) = Some r"
    using node(1,2) by (simp_all add: iter_next_ahead iter_value_def)
  have stop: "iter_next (s_partitionList s') (At (Some a)) = (False, it)" if "iter_next (s_partitionList s') (At (Some a)) = (q, it)" for q it
    using last that by (simp add: iter_next_ahead)
  obtain q it where q: "iter_next (s_partitionList s') (At (Some a)) = (q, it)" by fastforce
  have "flush_loop (Suc k) R clock 2 (At (Some a)) s' = Some (Inr (), s')" using stop [OF q] by simp
  hence "flush_loop (Suc (Suc k)) R clock 2 (At (Some b)) s = Some (Inr (), s')"
    using nx m data fl by (simp add: writablePartitionsNum_def inMemoryMode_def thenS_def)
  thus ?thesis
    using s1(1) s2(1) by (simp add: flushPartitions_def fuel writablePartitionsNum_def numeral_2_eq_2)
qed

text \<open>A new partition at the head, with a new segment of the log.\<close>

definition unchanged :: "storage \<Rightarrow> storage \<Rightarrow> bool" where
  "unchanged s s' \<longleftrightarrow> s_dataPath s' = s_dataPath s \<and> s_retention s' = s_retention s \<and>
     (\<forall>r < s_nextRef s. s_parts s' r = s_parts s r) \<and> s_nextRef s \<le> s_nextRef s'"

lemma unchanged_trans: "unchanged s s1 \<Longrightarrow> unchanged s1 s2 \<Longrightarrow> unchanged s s2"
  by (simp add: unchanged_def)

lemma new_head:
  assumes ok: "list_ok s avs" "few_partitions s" and w: "s_wal s = DiskWAL w" "log_ready w (s_fs s)"
  shows "\<exists>s' b w'. newPartition None True s = (Inr (), s') \<and> list_ok s' ((b, s_nextRef s) # avs) \<and>
    s_nextRef s' = Suc (s_nextRef s) \<and> ref_minT s' (s_nextRef s) = 0 \<and> in_memory (s_parts s' (s_nextRef s)) \<and> unchanged s s' \<and>
    s_wal s' = DiskWAL w' \<and> log_ready w' (s_fs s') \<and> dw_dir w' = dw_dir w \<and>
    outside (dw_dir w) (s_fs s') = outside (dw_dir w) (s_fs s) \<and>
    (\<exists>n i. lookup (s_fs s') (dw_dir w @ [n]) = Some (File i))"
proof -
  obtain w1 fs1 where pu: "wal_punctuate w (s_fs s) = (Inr (), w1, fs1)" "log_ready w1 fs1" "dw_dir w1 = dw_dir w"
    "outside (dw_dir w) fs1 = outside (dw_dir w) (s_fs s)" "\<exists>n i. lookup fs1 (dw_dir w @ [n]) = Some (File i)"
    using log_ready_punctuate [OF w(2)] by blast
  obtain res s' where np: "newPartition None True s = (res, s')" by fastforce
  note new = newPartition_ok [OF np ok]
  have fields: "res = Inr ()" "s_wal s' = DiskWAL w1" "s_fs s' = fs1" "s_retention s' = s_retention s"
    using np w(1) pu(1) by (auto simp: newPartition_def new_ref_def on_wal_def lift_wal_def Let_def)
  have "unchanged s s'" using new fields(4) by (simp add: unchanged_def)
  moreover have "ref_minT s' (s_nextRef s) = 0" "in_memory (s_parts s' (s_nextRef s))"
    using new by (simp_all add: ref_minT_def mp_minT_new)
  ultimately show ?thesis using np new fields pu(2-5)
    by (intro exI [of _ s'] exI [of _ "pl_fresh (s_partitionList s)"] exI [of _ w1]) simp
qed

lemma outside_lookup:
  assumes "outside d fs' = outside d fs" "\<not> prefix d q"
  shows "lookup fs' q = lookup fs q"
  using lookup_outside [of d fs q] lookup_outside [of d fs' q] assms by (cases "q = []") (simp_all add: lookup_def)

lemma outside_room:
  assumes "outside (dataPath @ [walDirName]) fs' = outside (dataPath @ [walDirName]) fs" "room_for m dataPath fs"
  shows "room_for m dataPath fs'"
  using assms(2) outside_lookup [OF assms(1) partition_dir_not_wal(2)] by (simp add: room_for_def)

lemma close_heads_ready:
  assumes ok: "list_ok s [(a, r)]" "s_nextRef s < 2 ^ 60" and w: "s_wal s = DiskWAL w" "log_ready w (s_fs s)"
  shows "\<exists>s' b c u v w'. close_heads writablePartitionsNum s = (Inr (), s') \<and> list_ok s' [(c, v), (b, u), (a, r)] \<and>
    ref_minT s' u = 0 \<and> ref_minT s' v = 0 \<and> in_memory (s_parts s' u) \<and> in_memory (s_parts s' v) \<and> unchanged s s' \<and>
    s_nextRef s' < 2 ^ 61 \<and> s_wal s' = DiskWAL w' \<and> log_ready w' (s_fs s') \<and> dw_dir w' = dw_dir w \<and>
    outside (dw_dir w) (s_fs s') = outside (dw_dir w) (s_fs s) \<and>
    (\<exists>n i. lookup (s_fs s') (dw_dir w @ [n]) = Some (File i))"
proof -
  have few: "few_partitions s" using ok(2) by simp
  obtain s1 b w1 where s1: "newPartition None True s = (Inr (), s1)" "list_ok s1 [(b, s_nextRef s), (a, r)]"
    "s_nextRef s1 = Suc (s_nextRef s)" "ref_minT s1 (s_nextRef s) = 0" "in_memory (s_parts s1 (s_nextRef s))" "unchanged s s1"
    "s_wal s1 = DiskWAL w1" "log_ready w1 (s_fs s1)" "dw_dir w1 = dw_dir w"
    "outside (dw_dir w) (s_fs s1) = outside (dw_dir w) (s_fs s)"
    using new_head [OF ok(1) few w] by blast
  have few1: "few_partitions s1" using ok(2) s1(3) by simp
  obtain s2 c w2 where s2: "newPartition None True s1 = (Inr (), s2)" "list_ok s2 [(c, s_nextRef s1), (b, s_nextRef s), (a, r)]"
    "s_nextRef s2 = Suc (s_nextRef s1)" "ref_minT s2 (s_nextRef s1) = 0" "in_memory (s_parts s2 (s_nextRef s1))" "unchanged s1 s2"
    "s_wal s2 = DiskWAL w2" "log_ready w2 (s_fs s2)" "dw_dir w2 = dw_dir w"
    "outside (dw_dir w) (s_fs s2) = outside (dw_dir w) (s_fs s1)" "\<exists>n i. lookup (s_fs s2) (dw_dir w @ [n]) = Some (File i)"
    using new_head [OF s1(2) few1 s1(7,8), unfolded s1(9)] by blast
  have "close_heads writablePartitionsNum s = (Inr (), s2)"
    using s1(1) s2(1) by (simp add: writablePartitionsNum_def numeral_2_eq_2)
  moreover have "s_parts s2 (s_nextRef s) = s_parts s1 (s_nextRef s)" using s2(6) s1(3) by (simp add: unchanged_def)
  hence "ref_minT s2 (s_nextRef s) = 0" "in_memory (s_parts s2 (s_nextRef s))" using s1(4,5) by (simp_all add: ref_minT_def)
  moreover have "s_nextRef s2 < 2 ^ 61" using ok(2) s1(3) s2(3) by simp
  ultimately show ?thesis using s2(2,4,5,7-11) unchanged_trans [OF s1(6) s2(6)] s1(10)
    by (intro exI [of _ s2] exI [of _ b] exI [of _ c] exI [of _ "s_nextRef s"] exI [of _ "s_nextRef s1"] exI [of _ w2]) simp
qed

text \<open>The disk after a close: the entries \<open>es\<close> of before, the partition, and the empty directory of the log.\<close>

definition closed_disk ::
  "Runtime \<Rightarrow> Time \<Rightarrow> memoryPartition \<Rightarrow> path \<Rightarrow> (path \<times> entry) list \<Rightarrow> nat \<Rightarrow> meta filesys \<Rightarrow> bool" where
  "closed_disk R now m dataPath es i fs \<longleftrightarrow> fs_faults fs = [] \<and>
     fs_entries fs = es @ partition_entries (dataPath @ [partition_dir m]) i @ [(dataPath @ [walDirName], Dir)] \<and>
     i + 2 \<le> fs_next fs \<and> fs_inodes fs i = Bytes (data_bytes R m) \<and>
     fs_inodes fs (i + 1) = Json (json_meta (disk_meta R now m))"

lemma removeExpiredPartitions_none:
  assumes "list_ok s avs" "\<forall>r \<in> snd ` set avs. \<not> expired (clock r) (s_parts s r)"
  shows "removeExpiredPartitions clock s = Some (Inr (), s)"
proof -
  have "filter (\<lambda>r. expired (clock r) (s_parts s r)) (map snd avs) = []" using assms(2) by (simp add: filter_empty_conv)
  thus ?thesis using list_ok_values [OF assms(1)] by (simp add: removeExpiredPartitions_def)
qed

lemma memory_not_expired: "in_memory p \<Longrightarrow> \<not> expired t p"
  by (cases p) (simp_all add: mem_expired_def)

lemma Close_writes:
  assumes ok: "list_ok s [(a, r)]" "s_nextRef s < 2 ^ 60" "\<not> s_done s" and m: "s_parts s r = MemP m" "mp_minT m \<noteq> 0"
    and w: "s_wal s = DiskWAL w" "log_ready w (s_fs s)" "dw_dir w = s_dataPath s @ [walDirName]" "s_dataPath s \<noteq> []"
    and room: "room_for m (s_dataPath s) (s_fs s)" and fl: "flushable R (clock r) m"
    and pts: "\<forall>(n, p) \<in># mp_points m. point_ok p \<and> dp_Timestamp p \<noteq> 0" "mp_points m \<noteq> {#}"
    and fresh: "\<forall>u. time_Since (clock u) (clock r) \<le> s_retention s"
  shows "\<exists>s' i. Close R clock s = Some (Inr (), s') \<and>
    closed_disk R (clock r) m (s_dataPath s) (outside (dw_dir w) (s_fs s)) i (s_fs s')"
proof -
  let ?wd = "s_dataPath s @ [walDirName]" and ?dir = "s_dataPath s @ [partition_dir m]"
  obtain res w1 fs1 where flw: "wal_flush w (s_fs s) = (res, w1, fs1)" by (metis prod.exhaust)
  have adv: "res = Inr ()" "bw_err (dw_w w1) = None" "same_files (s_fs s) fs1" "dw_dir w1 = dw_dir w" "dw_open w1 = dw_open w"
    using wal_flush_healthy [of w "s_fs s"] flw w(2) by (simp_all add: log_ready_def wal_advances_def)
  let ?s1 = "s\<lparr>s_done := True, s_wal := DiskWAL w1, s_fs := fs1\<rparr>"
  have s1: "on_wal wal_flush (s\<lparr>s_done := True\<rparr>) = (Inr (), ?s1)"
    using flw adv(1) w(1) by (simp add: on_wal_def lift_wal_def)
  have ok1: "list_ok ?s1 [(a, r)]" "s_nextRef ?s1 < 2 ^ 60" "s_wal ?s1 = DiskWAL w1" "log_ready w1 (s_fs ?s1)"
    using ok log_ready_same_files [OF w(2) adv(3,2,4,5)] by (simp_all add: list_ok_def)
  obtain s2 b c u v w2 n i where s2: "close_heads writablePartitionsNum ?s1 = (Inr (), s2)" "list_ok s2 [(c, v), (b, u), (a, r)]"
    "ref_minT s2 u = 0" "ref_minT s2 v = 0" "in_memory (s_parts s2 u)" "in_memory (s_parts s2 v)" "unchanged ?s1 s2"
    "s_wal s2 = DiskWAL w2" "log_ready w2 (s_fs s2)" "dw_dir w2 = ?wd" "outside ?wd (s_fs s2) = outside ?wd fs1"
    "lookup (s_fs s2) (?wd @ [n]) = Some (File i)"
    using close_heads_ready [OF ok1, unfolded adv(4) w(3)] by auto
  have out: "outside ?wd (s_fs s2) = outside ?wd (s_fs s)" using s2(11) same_files_outside [OF adv(3), of ?wd] by simp
  have data2: "s_dataPath s2 = s_dataPath s" "s_retention s2 = s_retention s" "s_parts s2 r = MemP m"
    using s2(7) m(1) ok(1) by (simp_all add: unchanged_def list_ok_def)
  have sep: "\<forall>x \<in> snd ` set [(c, v), (b, u)]. ref_minT s2 x \<noteq> ref_minT s2 r"
    using s2(3,4) m(2) data2(3) by (simp add: ref_minT_def)
  have ok2: "list_ok s2 ([(c, v), (b, u)] @ [(a, r)])" using s2(2) by simp
  have at2: "dw_dir w2 = s_dataPath s2 @ [walDirName]" "lookup (s_fs s2) (dw_dir w2 @ [n]) = Some (File i)"
    "room_for m (s_dataPath s2) (s_fs s2)" using s2(10,12) outside_room [OF out room] data2(1) by simp_all
  obtain s3 d where s3: "flush_partition R (clock r) r m s2 = Some (Inr (), s3)"
    "list_ok s3 ([(c, v), (b, u)] @ [(d, s_nextRef s2)])"
    "s_parts s3 (s_nextRef s2) = DiskP (written_partition R (clock r) ?dir (s_retention s) m)"
    "\<forall>x \<in> snd ` set [(c, v), (b, u)]. s_parts s3 x = s_parts s2 x" "s_wal s3 = DiskWAL w2" "log_ready w2 (s_fs s3)"
    "seg (pl_nodes (s_partitionList s3)) (getNext (s_partitionList s3) a) [] None"
    "outside ?wd (s_fs s3) = outside ?wd (s_fs s) @ partition_entries ?dir (fs_next (s_fs s2))"
    "fs_next (s_fs s3) = fs_next (s_fs s2) + 2" "fs_inodes (s_fs s3) (fs_next (s_fs s2)) = Bytes (data_bytes R m)"
    "fs_inodes (s_fs s3) (fs_next (s_fs s2) + 1) = Json (json_meta (disk_meta R (clock r) m))"
    using flush_partition_writes [OF ok2 sep data2(3) s2(8,9) at2 fl pts, unfolded data2(1,2) s2(10) out] by blast
  have "s_dataPath s2 \<noteq> []" using data2(1) w(4) by simp
  from flushPartitions_oldest [where clock = clock, OF s2(2) data2(3) this s3(1,7)] have fp: "flushPartitions R clock s2 = Some (Inr (), s3)" .
  have "\<forall>x \<in> snd ` set ([(c, v), (b, u)] @ [(d, s_nextRef s2)]). \<not> expired (clock x) (s_parts s3 x)"
    using s3(3,4) s2(5,6) fresh memory_not_expired by (auto simp: not_less)
  note re = removeExpiredPartitions_none [OF s3(2) this]
  let ?fs = "(s_fs s3)\<lparr>fs_entries := outside ?wd (s_fs s3) @ [(?wd, Dir)]\<rparr>"
  have "wal_healthy w2 (s_fs s3)" "\<forall>q. prefix q (dw_dir w2) \<longrightarrow> lookup (s_fs s3) q = Some Dir"
    using s3(6) by (simp_all add: log_ready_def)
  from wal_removeAll_healthy [OF this(1) s2(10) this(2)] have rm: "on_wal wal_removeAll s3 = (Inr (), s3\<lparr>s_wal := DiskWAL (w2\<lparr>dw_open := False\<rparr>), s_fs := ?fs\<rparr>)"
    using s3(5) s2(10) by (simp add: on_wal_def lift_wal_def)
  have "Close R clock s = Some (Inr (), s3\<lparr>s_wal := DiskWAL (w2\<lparr>dw_open := False\<rparr>), s_fs := ?fs\<rparr>)"
    using ok(3) s1 s2(1) fp re rm by (simp add: Close_def wrapS_def thenS_def)
  moreover have "fs_faults (s_fs s3) = []" using s3(6) by (simp add: log_ready_def wal_healthy_def healthy_def)
  hence "closed_disk R (clock r) m (s_dataPath s) (outside (dw_dir w) (s_fs s)) (fs_next (s_fs s2)) ?fs"
    using s3(8-11) w(3) by (simp add: closed_disk_def)
  ultimately show ?thesis
    by (intro exI [of _ "s3\<lparr>s_wal := DiskWAL (w2\<lparr>dw_open := False\<rparr>), s_fs := ?fs\<rparr>"] exI [of _ "fs_next (s_fs s2)"]) simp
qed

section \<open>Starting again\<close>

lemma partition_dir_names:
  "isPartitionDir (partition_dir m, Dir)" "\<not> isPartitionDir (walDirName, Dir)" "partition_dir m < walDirName"
proof -
  obtain c cs where "itoa_int (mp_minT m) = c # cs" "c = CHR ''-'' \<or> is_digit c"
    using itoa_digits [of "nat (mp_minT m)"] itoa_chars
    by (cases "itoa_int (mp_minT m)") (auto simp: itoa_int_def split: if_splits)
  thus "isPartitionDir (partition_dir m, Dir)" by (auto simp: isPartitionDir_def partition_dir_def)
  show "\<not> isPartitionDir (walDirName, Dir)" by (simp add: isPartitionDir_def walDirName_def)
  show "partition_dir m < walDirName" by (simp add: partition_dir_def walDirName_def less_char_def)
qed

text \<open>The disk once the log has its first segment: the directories, and the files with their inodes.\<close>

lemma newDiskWAL_closed:
  assumes c: "closed_disk R now m [d] [([d], Dir)] i fs"
  shows "\<exists>w fs'. newDiskWAL [d, walDirName] sz fs = (Inr w, fs') \<and> fs_faults fs' = [] \<and>
    fs_entries fs' = fs_entries fs @ [([d, walDirName, ''0''], File (fs_next fs))] \<and>
    file_bytes fs' (fs_next fs) = [] \<and> fs_inodes fs' i = Bytes (data_bytes R m) \<and>
    fs_inodes fs' (i + 1) = Json (json_meta (disk_meta R now m))"
proof -
  have fs: "fs_faults fs = []" "fs_inodes fs i = Bytes (data_bytes R m)" "fs_inodes fs (i + 1) = Json (json_meta (disk_meta R now m))"
    "i + 2 \<le> fs_next fs" and ents: "fs_entries fs = ([d], Dir) # partition_entries [d, partition_dir m] i @ [([d, walDirName], Dir)]"
    using c by (simp_all add: closed_disk_def)
  have dirs: "\<forall>q. prefix q [d, walDirName] \<longrightarrow> lookup fs q = Some Dir" and seg: "lookup fs [d, walDirName, ''0''] = None"
    using partition_dir_not_wal(1) [of m] by (auto simp: lookup_def ents partition_entries_def prefix_Cons)
  let ?fs = "(set_entry [d, walDirName, ''0''] (File (fs_next fs)) fs)
    \<lparr>fs_inodes := (fs_inodes fs)(fs_next fs := Bytes []), fs_next := fs_next fs + 1\<rparr>"
  have "OpenAppend [d, walDirName, ''0''] fs = (Inr (fs_next fs), ?fs)"
    unfolding OpenAppend_def using open_new [of fs "[d, walDirName]" "''0''" False] fs(1) dirs seg by simp
  moreover have "MkdirAll [d, walDirName] fs = (Inr (), fs)"
    using mkdirs_exists [of "[]" "[d, walDirName]" fs] fs(1) dirs by (simp add: MkdirAll_def)
  ultimately have "\<exists>w. newDiskWAL [d, walDirName] sz fs = (Inr w, ?fs)"
    by (simp add: newDiskWAL_def startSegment_def createSegmentFile_def itoa_0)
  thus ?thesis using fs set_entry_new [OF _ seg] by (auto simp: file_bytes_def)
qed

lemma open_storage_closed:
  assumes c: "closed_disk R now m [d] [([d], Dir)] i fs" and ne: "data_bytes R m \<noteq> []" and srt: "slice_sort dk_minTimestamp srt"
    and o: "s_dataPath (foldl apply_option (default_storage n fs) opts) = [d]"
      "0 \<le> s_walBufferedSize (foldl apply_option (default_storage n fs) opts)"
  defines "opt \<equiv> foldl apply_option (default_storage n fs) opts"
  shows "\<exists>w fs'. open_storage srt n opts fs = (Inr (snd (newPartition
      (Some (DiskP (written_partition R now [d, partition_dir m] (s_retention opt) m))) False (opt\<lparr>s_wal := DiskWAL w, s_fs := fs'\<rparr>)), True), fs') \<and>
    fs_faults fs' = [] \<and> lookup fs' [d, walDirName] = Some Dir \<and> dir_entries [d, walDirName] fs' = [(''0'', File (fs_next fs))] \<and>
    lookup fs' [d, walDirName, ''0''] = Some (File (fs_next fs)) \<and> file_bytes fs' (fs_next fs) = []"
proof -
  let ?p = "written_partition R now [d, partition_dir m] (s_retention opt) m"
  obtain w fs1 where w: "newDiskWAL [d, walDirName] (s_walBufferedSize opt) fs = (Inr w, fs1)" and fs1: "fs_faults fs1 = []"
    "fs_entries fs1 = fs_entries fs @ [([d, walDirName, ''0''], File (fs_next fs))]"
    "file_bytes fs1 (fs_next fs) = []" "fs_inodes fs1 i = Bytes (data_bytes R m)"
    "fs_inodes fs1 (i + 1) = Json (json_meta (disk_meta R now m))"
    using newDiskWAL_closed [OF c] by blast
  have ents: "fs_entries fs = ([d], Dir) # partition_entries [d, partition_dir m] i @ [([d, walDirName], Dir)]" "fs_faults fs = []"
    using c by (simp_all add: closed_disk_def)
  have ents1: "fs_entries fs1 = [([d], Dir), ([d, partition_dir m], Dir), ([d, partition_dir m, dataFileName], File i),
     ([d, partition_dir m, metaFileName], File (i + 1)), ([d, walDirName], Dir), ([d, walDirName, ''0''], File (fs_next fs))]"
    using fs1(2) ents(1) by (simp add: partition_entries_def)
  have neq: "dataFileName \<noteq> metaFileName" "partition_dir m \<noteq> walDirName"
    using partition_dir_not_wal(1) by (simp_all add: dataFileName_def metaFileName_def)
  have look: "lookup fs1 [d] = Some Dir" "lookup fs1 [d, walDirName] = Some Dir" "lookup fs1 [d, partition_dir m] = Some Dir"
    "lookup fs1 [d, partition_dir m, dataFileName] = Some (File i)" "lookup fs1 [d, partition_dir m, metaFileName] = Some (File (i + 1))"
    "lookup fs1 [d, walDirName, ''0''] = Some (File (fs_next fs))"
    using neq by (simp_all add: lookup_def ents1)
  have rd: "dir_entries [d] fs1 = [(partition_dir m, Dir), (walDirName, Dir)]" "dir_entries [d, walDirName] fs1 = [(''0'', File (fs_next fs))]"
    using neq(2) partition_dir_names(3) [of m] by (simp_all add: dir_entries_def ents1)
  have "openDiskPartition [d, partition_dir m] (s_retention opt) fs1 = (Inr ?p, fs1)"
    using openDiskPartition_written [OF fs1(1), of "[d, partition_dir m]" i "i + 1"] look fs1(4,5) ne by (simp add: written_partition_def)
  hence parts: "open_partitions [d] (s_retention opt) [(partition_dir m, Dir), (walDirName, Dir)] fs1 = (Inr [?p], fs1)"
    using partition_dir_names(1,2) by simp
  have one: "srt [?p] = [?p]" using slice_sort.mset_srt [OF srt, of "[?p]"] by simp
  have mk: "MkdirAll [d] fs = (Inr (), fs)" using ents by (simp add: MkdirAll_def lookup_def)
  have "s_fs opt = fs" by (simp add: opt_def default_storage_def)
  hence "open_storage srt n opts fs = (Inr (snd (newPartition (Some (DiskP ?p)) False (opt\<lparr>s_wal := DiskWAL w, s_fs := fs1\<rparr>)), True), fs1)"
    using o mk w rd(1) look(1) fs1(1) parts one
    by (simp add: open_storage_def opt_def [symmetric] inMemoryMode_def open_wal_def ReadDir_def Let_def)
  thus ?thesis using fs1(1,3) look(2,6) rd(2) by blast
qed

lemma NewStorage_closed:
  assumes c: "closed_disk R now m [d] [([d], Dir)] i fs" and ne: "data_bytes R m \<noteq> []" and srt: "slice_sort dk_minTimestamp srt"
    and o: "s_dataPath (foldl apply_option (default_storage n fs) opts) = [d]"
      "0 \<le> s_walBufferedSize (foldl apply_option (default_storage n fs) opts)"
  defines "opt \<equiv> foldl apply_option (default_storage n fs) opts"
  shows "\<exists>s fs' a b. NewStorage R srt clock n opts fs = (Inr s, fs') \<and> list_ok s [(b, 1), (a, 0)] \<and> all_new s {1} \<and>
    s_parts s 0 = DiskP (written_partition R now [d, partition_dir m] (s_retention opt) m)"
proof -
  let ?p = "DiskP (written_partition R now [d, partition_dir m] (s_retention opt) m)"
  obtain w fs1 where op: "open_storage srt n opts fs =
      (Inr (snd (newPartition (Some ?p) False (opt\<lparr>s_wal := DiskWAL w, s_fs := fs1\<rparr>)), True), fs1)"
    and fs1: "fs_faults fs1 = []" "lookup fs1 [d, walDirName] = Some Dir" "dir_entries [d, walDirName] fs1 = [(''0'', File (fs_next fs))]"
      "lookup fs1 [d, walDirName, ''0''] = Some (File (fs_next fs))" "file_bytes fs1 (fs_next fs) = []"
    using open_storage_closed [OF c ne srt o, folded opt_def] by blast
  let ?s0 = "opt\<lparr>s_wal := DiskWAL w, s_fs := fs1\<rparr>"
  have s0: "list_ok ?s0 []" "s_nextRef ?s0 = 0" using list_ok_default(1,2) [of n fs opts] by (simp_all add: list_ok_def opt_def)
  obtain r1 s1 where np1: "newPartition (Some ?p) False ?s0 = (r1, s1)" by fastforce
  have s1: "list_ok s1 [(pl_fresh (s_partitionList ?s0), 0)]" "s_nextRef s1 = 1" "s_parts s1 0 = ?p" "s_dataPath s1 = [d]"
    using newPartition_ok [OF np1 s0(1)] s0(2) o(1) by (simp_all add: opt_def)
  have fs: "s_fs s1 = fs1" using np1 by (auto simp: newPartition_def new_ref_def)
  have "readAll [d, walDirName] [(''0'', File (fs_next fs))] [] fs1 = (Inr [], fs1)"
    by (rule readAll_empty [OF fs1(1,2)]) (use fs1(4,5) in simp)
  moreover have "s1\<lparr>s_fs := fs1\<rparr> = s1" using fs by simp
  ultimately have rec: "recoverWAL R clock [d, walDirName] s1 = (Inr (), s1)"
    using fs fs1(1-3) by (simp add: recoverWAL_def newDiskWALReader_def ReadDir_def)
  obtain r2 s2 where np2: "newPartition None False s1 = (r2, s2)" by fastforce
  note s2 = newPartition_ok [OF np2 s1(1)]
  let ?u = "s2\<lparr>s_ticker := True\<rparr>"
  have "NewStorage R srt clock n opts fs = (Inr ?u, s_fs ?u)"
    using op np1 rec np2 s1(4) by (simp add: NewStorage_def)
  moreover have "list_ok ?u [(pl_fresh (s_partitionList s1), 1), (pl_fresh (s_partitionList ?s0), 0)]" "all_new ?u {1}" "s_parts ?u 0 = ?p"
    using s2 s1(2,3) by (auto simp: list_ok_def all_new_def)
  ultimately show ?thesis by blast
qed

section \<open>From end to end\<close>

lemma new_log_ready: "log_ready (new_wal d sz) (new_dir_fs d)"
  by (auto simp: log_ready_def wal_healthy_def healthy_def new_wal_def new_dir_fs_def NewWriterSize_def lookup_def prefix_Cons)

text \<open>The partition that a first batch has filled can be flushed.\<close>

definition storable :: "Runtime \<Rightarrow> Row \<Rightarrow> bool" where
  "storable R r \<longleftrightarrow> point_ok (row_DataPoint r) \<and> row_Timestamp r \<noteq> 0 \<and> valid_utf8 (row_name R r)"

lemma first_batch_flushable:
  assumes R: "runtime_ok R" and rows: "rows \<noteq> []" "\<forall>r \<in> set rows. storable R r" "int (length rows) < 2 ^ 45"
    and wal: "app rows w = (Inr (), w')" and clk: "clock_ok clock" "0 \<le> now" "now < 2 ^ 63"
    and ins: "mem_insertRows R clock app rows w (newMemoryPartition d prec) = (Inr [], w', m)"
  shows "flushable R now m \<and> mp_minT m \<noteq> 0 \<and> (\<forall>n \<in> fst ` set (mp_metrics m). valid_utf8 n) \<and>
    (\<forall>(n, p) \<in># mp_points m. point_ok p \<and> dp_Timestamp p \<noteq> 0) \<and> mp_points m \<noteq> {#} \<and>
    metric_points (metric_at (mp_metrics m) (metricName (sortLabels R) metric labels)) = mset (series_of R metric labels rows)"
proof -
  have "\<forall>r \<in> set rows. row_Timestamp r \<noteq> 0" "int (length rows) < 2 ^ 63" using rows(2,3) by (auto simp: storable_def)
  from mem_first_batch [where wal_append = app, OF rows(1) this wal, of R clock d prec]
  have m: "mp_ok m" "mp_minT m \<noteq> 0" "mp_points m = mset (map (\<lambda>r. (row_name R r, row_DataPoint r)) rows)"
    using ins clk(1) by auto
  have "(\<forall>(n, p) \<in># mp_points m. point_ok p \<and> dp_Timestamp p \<noteq> 0)"
    using rows(2) unfolding m(3) by (auto simp: storable_def)
  moreover have "\<forall>n \<in> fst ` set (mp_metrics m). valid_utf8 n"
    using mem_insertRows_names [OF ins] rows(2) by (fastforce simp: storable_def row_name_def)
  moreover have "flushable R now m" using R m(1,3) rows(3) clk(2,3) by (simp add: flushable_def)
  moreover have "metric_points (metric_at (mp_metrics m) (metricName (sortLabels R) metric labels)) = mset (series_of R metric labels rows)"
    using m(1) unfolding series_of_def
    by (subst metric_points_named) (simp_all add: mp_ok_def metrics_ok_def m(3) filter_mset_image_mset image_mset.compositionality comp_def)
  ultimately show ?thesis using m(2,3) rows(1) by simp
qed

text \<open>What is known of the partition that is written.\<close>

definition first_partition :: "Runtime \<Rightarrow> Time \<Rightarrow> Row list \<Rightarrow> memoryPartition \<Rightarrow> bool" where
  "first_partition R now rows m \<longleftrightarrow> flushable R now m \<and> mp_minT m \<noteq> 0 \<and> (\<forall>n \<in> fst ` set (mp_metrics m). valid_utf8 n) \<and>
     (\<forall>(n, p) \<in># mp_points m. point_ok p \<and> dp_Timestamp p \<noteq> 0) \<and> mp_points m \<noteq> {#} \<and>
     (\<forall>metric labels. metric_points (metric_at (mp_metrics m) (metricName (sortLabels R) metric labels)) =
        mset (series_of R metric labels rows))"

lemma insert_then_close:
  assumes s: "list_ok s [(a, 0)]" "s_nextRef s = 1" "s_parts s 0 = MemP (newMemoryPartition dur prec)" "s_wal s = DiskWAL (new_wal d sz)"
      "s_fs s = new_dir_fs d" "s_workers s < s_workersLimit s" "\<not> s_done s" "s_dataPath s = [d]"
    and head: "mem_active (newMemoryPartition dur prec)" and R: "runtime_ok R"
    and rows: "rows \<noteq> []" "\<forall>r \<in> set rows. storable R r" "int (length rows) < 2 ^ 45"
    and clock: "clock_ok (clock 0)" "0 \<le> closing 0" "closing 0 < 2 ^ 63" "\<forall>r. time_Since (closing r) (closing 0) \<le> s_retention s"
  shows "\<exists>s2 s3 m i. InsertRows R clock freed rows s = (Inr (), s2) \<and> Close R closing s2 = Some (Inr (), s3) \<and>
    first_partition R (closing 0) rows m \<and> closed_disk R (closing 0) m [d] [([d], Dir)] i (s_fs s3)"
proof -
  have ts: "\<forall>r \<in> set rows. row_Timestamp r \<noteq> 0" "int (length rows) < 2 ^ 63" using rows(2,3) by (auto simp: storable_def)
  obtain w fs m where ap: "wal_append R operationInsert rows (new_wal d sz) (new_dir_fs d) = (Inr (), w, fs)"
    and adv: "wal_advances (new_wal d sz, new_dir_fs d) (Inr (), w, fs)"
    and mem: "mem_insertRows R (clock 0) (any_append R) rows (DiskWAL (new_wal d sz), new_dir_fs d) (newMemoryPartition dur prec) =
      (Inr [], (DiskWAL w, fs), m)"
    and ins: "InsertRows R clock freed rows s = (Inr (), s\<lparr>s_wal := DiskWAL w, s_fs := fs, s_parts := (s_parts s)(0 := MemP m)\<rparr>)"
    using first_batch_new [where clock = clock and freed = freed and R = R, OF s(1,3-6) head rows(1) ts] by blast
  let ?s2 = "s\<lparr>s_wal := DiskWAL w, s_fs := fs, s_parts := (s_parts s)(0 := MemP m)\<rparr>"
  have "any_append R rows (DiskWAL (new_wal d sz), new_dir_fs d) = (Inr (), DiskWAL w, fs)"
    using ap by (simp add: any_append_def lift_wal_def)
  from first_batch_flushable [OF R rows this clock(1-3) mem] have first: "first_partition R (closing 0) rows m"
    by (simp add: first_partition_def)
  hence m: "flushable R (closing 0) m" "mp_minT m \<noteq> 0" "\<forall>(n, p) \<in># mp_points m. point_ok p \<and> dp_Timestamp p \<noteq> 0" "mp_points m \<noteq> {#}"
    by (simp_all add: first_partition_def)
  have log: "log_ready w fs" "dw_dir w = [d, walDirName]" "fs_entries fs = [([d], Dir), ([d, walDirName], Dir), ([d, walDirName, ''0''], File 0)]"
    using log_ready_same_files [OF new_log_ready, of d fs w] adv by (simp_all add: wal_advances_def new_wal_def same_files_def new_dir_fs_def)
  have room: "room_for m [d] fs" and out: "outside [d, walDirName] fs = [([d], Dir)]"
    using partition_dir_not_wal(1) [of m] by (simp_all add: room_for_def lookup_def log(3) outside_def)
  have ok: "list_ok ?s2 [(a, 0)]" using s(1) m(1) by (simp add: list_ok_def flushable_def)
  have "\<exists>s' i. Close R closing ?s2 = Some (Inr (), s') \<and>
    closed_disk R (closing 0) m (s_dataPath ?s2) (outside (dw_dir w) (s_fs ?s2)) i (s_fs s')"
    by (rule Close_writes [OF ok]) (use s m log(1,2) room clock(4) in simp_all)
  thus ?thesis using ins first s(8) log(2) out by auto
qed

lemma closed_select:
  assumes first: "first_partition R now rows m" and c: "closed_disk R now m [d] [([d], Dir)] i fs"
    and R: "runtime_ok R" "slice_sort dk_minTimestamp srt"
    and o: "s_dataPath (foldl apply_option (default_storage n fs) opts) = [d]"
      "0 \<le> s_walBufferedSize (foldl apply_option (default_storage n fs) opts)"
      "time_Since (time 0) now \<le> s_retention (foldl apply_option (default_storage n fs) opts)"
    and sel: "metric \<noteq> ''''" "start < end" "\<forall>q \<in> set (series_of R metric labels rows). dp_Timestamp q \<noteq> end"
  shows "\<exists>s fs' s' qs. NewStorage R srt clock n opts fs = (Inr s, fs') \<and>
    Select R time metric labels start end s = Some (if qs = [] then Inl ErrNoDataPoints else Inr qs, s') \<and>
    sorted (map dp_Timestamp qs) \<and> mset qs = mset (filter (within start end) (series_of R metric labels rows))"
proof -
  have m: "flushable R now m" "mp_minT m \<noteq> 0" "\<forall>n \<in> fst ` set (mp_metrics m). valid_utf8 n"
    "\<forall>(n, p) \<in># mp_points m. point_ok p \<and> dp_Timestamp p \<noteq> 0" "mp_points m \<noteq> {#}"
    "metric_points (metric_at (mp_metrics m) (metricName (sortLabels R) metric labels)) = mset (series_of R metric labels rows)"
    using first by (simp_all add: first_partition_def)
  obtain s fs' a b where s: "NewStorage R srt clock n opts fs = (Inr s, fs')" "list_ok s [(b, 1), (a, 0)]" "all_new s {1}"
    "s_parts s 0 = DiskP (written_partition R now [d, partition_dir m] (s_retention (foldl apply_option (default_storage n fs) opts)) m)"
    using NewStorage_closed [where clock = clock, OF c data_bytes_nonempty [OF m(1,4,5)] R(2) o(1,2)] by blast
  let ?ps = "metric_series (sortPoints R) (metric_at (mp_metrics m) (metricName (sortLabels R) metric labels))"
  have ps: "mset ?ps = mset (series_of R metric labels rows)" "sorted (map dp_Timestamp ?ps)"
    using R(1) m(1,6) metric_ok_metric_at sorted_metric_series by (simp_all add: runtime_ok_def mp_ok_def flushable_def)
  have "answers (time 0, s_parts s 0)" "minTimestamp (s_parts s 0) \<noteq> 0" "part_series R metric labels (time 0, s_parts s 0) = ?ps"
    using s(4) disk_ok_written [OF m(1,3,4)] m(2) part_series_written [OF m(1,3,4) o(3)] by simp_all
  moreover have "\<forall>q \<in> set ?ps. dp_Timestamp q \<noteq> end" using sel(3) mset_eq_setD [OF ps(1)] by blast
  ultimately obtain s' where "Select R time metric labels start end s =
      Some (let qs = filter (within start end) ?ps in if qs = [] then Inl ErrNoDataPoints else Inr qs, s')"
    using Select_behind_head [where time = time and R = R and labels = labels, OF s(2,3) _ _ _ sel(1,2)] by blast
  moreover have "sorted (map dp_Timestamp (filter (within start end) ?ps))" using ps(2) by (rule sorted_filter)
  moreover have "mset (filter (within start end) ?ps) = mset (filter (within start end) (series_of R metric labels rows))"
    using ps(1) by (metis mset_filter)
  ultimately show ?thesis using s(1) unfolding Let_def by blast
qed

section \<open>Properties\<close>

text \<open>
  C3: Closing a storage loses nothing of its first batch. A storage is started on an empty disk, with any buffer
  size of its log, a first batch is inserted and the storage is closed; every step reports success.
  A storage started again on the same disk then returns, for every series and range, exactly
  the points of the rows in the range, in order of time, also those that the batch did not
  give in order of time. (The partition duration is more than one unit of time, the names of the series are valid UTF-8, no row has the timestamp 0, the
  retention has not passed, and no point is at the end of the range.)
\<close>

theorem close_then_reopen:
  fixes n opts
  defines "opt \<equiv> foldl apply_option (default_storage n empty_fs) opts"
  assumes opt: "s_dataPath opt = [d]" "0 \<le> s_walBufferedSize opt" "0 < n"
      "mem_active (newMemoryPartition (s_partitionDuration opt) (s_timestampPrecision opt))"
    and R: "runtime_ok R" "slice_sort dk_minTimestamp srt"
    and rows: "rows \<noteq> []" "\<forall>r \<in> set rows. storable R r" "int (length rows) < 2 ^ 45"
    and clock: "clock_ok (clock 0)" "0 \<le> closing 0" "closing 0 < 2 ^ 63"
      "\<forall>r. time_Since (closing r) (closing 0) \<le> s_retention opt" "time_Since (time 0) (closing 0) \<le> s_retention opt"
    and sel: "metric \<noteq> ''''" "start < end" "\<forall>q \<in> set (series_of R metric labels rows). dp_Timestamp q \<noteq> end"
  shows "\<exists>s1 fs1 s2 s3 s4 fs4 s5 qs. NewStorage R srt clock n opts empty_fs = (Inr s1, fs1) \<and>
    InsertRows R clock freed rows s1 = (Inr (), s2) \<and> Close R closing s2 = Some (Inr (), s3) \<and>
    NewStorage R srt clock n opts (s_fs s3) = (Inr s4, fs4) \<and>
    Select R time metric labels start end s4 = Some (if qs = [] then Inl ErrNoDataPoints else Inr qs, s5) \<and>
    sorted (map dp_Timestamp qs) \<and>
    mset qs = mset (filter (\<lambda>p. start \<le> dp_Timestamp p \<and> dp_Timestamp p < end) (series_of R metric labels rows))"
proof -
  have empty: "srt [] = []" using slice_sort.srt_eq_Nil [OF R(2)] by simp
  obtain s1 a where s1: "NewStorage R srt clock n opts empty_fs = (Inr s1, new_dir_fs d)" "list_ok s1 [(a, 0)]" "s_nextRef s1 = 1"
    "s_parts s1 0 = MemP (newMemoryPartition (s_partitionDuration opt) (s_timestampPrecision opt))"
    "s_wal s1 = DiskWAL (new_wal d (s_walBufferedSize opt))" "s_fs s1 = new_dir_fs d" "s_workers s1 = 0" "s_workersLimit s1 = n"
    "\<not> s_done s1" "s_retention s1 = s_retention opt" "s_dataPath s1 = [d]"
    using NewStorage_new [where n = n and opts = opts and d = d and srt = srt and R = R and clock = clock, folded opt_def, OF opt(1) empty refl opt(2)]
    by blast
  have s1': "s_workers s1 < s_workersLimit s1" "\<forall>r. time_Since (closing r) (closing 0) \<le> s_retention s1"
    using s1(7,8,10) opt(3) clock(4) by simp_all
  obtain s2 s3 m i where s3: "InsertRows R clock freed rows s1 = (Inr (), s2)" "Close R closing s2 = Some (Inr (), s3)"
    "first_partition R (closing 0) rows m" "closed_disk R (closing 0) m [d] [([d], Dir)] i (s_fs s3)"
    using insert_then_close [where clock = clock and closing = closing and freed = freed,
      OF s1(2-6) s1'(1) s1(9,11) opt(4) R(1) rows clock(1-3) s1'(2)] by blast
  have o: "s_dataPath (foldl apply_option (default_storage n (s_fs s3)) opts) = [d]"
    "0 \<le> s_walBufferedSize (foldl apply_option (default_storage n (s_fs s3)) opts)"
    "time_Since (time 0) (closing 0) \<le> s_retention (foldl apply_option (default_storage n (s_fs s3)) opts)"
    using options_other_fs [of n "s_fs s3" opts empty_fs] opt(1,2) clock(5) by (simp_all add: opt_def)
  from closed_select [where clock = clock and time = time, OF s3(3,4) R o sel] s1(1) s3(1,2) show ?thesis by blast
qed

definition late_rows :: "Row list" where
  "late_rows = [row ''a'' 9 3, row ''b'' 3 2, row ''a'' 7 1]"

definition late_opts :: "Option list" where
  "late_opts = [WithDataPath [''d''], WithTimestampPrecision Seconds]"

lemma late_opts_fields:
  "s_dataPath (foldl apply_option (default_storage n fs) late_opts) = [''d'']"
  "s_walBufferedSize (foldl apply_option (default_storage n fs) late_opts) = 4096"
  "s_partitionDuration (foldl apply_option (default_storage n fs) late_opts) = 1 * Hour"
  "s_timestampPrecision (foldl apply_option (default_storage n fs) late_opts) = Seconds"
  "s_retention (foldl apply_option (default_storage n fs) late_opts) = 336 * Hour"
  by (simp_all add: late_opts_def default_storage_def)

lemma late_rows_ok: "\<forall>r \<in> set late_rows. storable stable_runtime r"
  "series_of stable_runtime ''a'' [] late_rows = [point 9 3, point 7 1]"
proof -
  have "row_name stable_runtime (row ''a'' t v) = ''a''" "row_name stable_runtime (row ''b'' t v) = ''b''" for t v
    by (simp_all add: row_name_def)
  thus "\<forall>r \<in> set late_rows. storable stable_runtime r" "series_of stable_runtime ''a'' [] late_rows = [point 9 3, point 7 1]"
    by (simp_all add: late_rows_def storable_def point_ok_def int64_range_def valid_utf8_ascii series_of_def)
qed

lemma sorted_pair:
  assumes "sorted (map dp_Timestamp qs)" "mset qs = {#p, q#}" "dp_Timestamp p < dp_Timestamp q"
  shows "qs = [p, q]"
proof -
  have "length qs = 2" using arg_cong [OF assms(2), of size] by simp
  then obtain a b where "qs = [a, b]" by (auto simp: numeral_2_eq_2 length_Suc_conv)
  thus ?thesis using assms by (auto simp: add_eq_conv_ex)
qed

theorem close_then_reopen_witness:
  "\<exists>s1 fs1 s2 s3 s4 fs4 s5. NewStorage stable_runtime (sort_key dk_minTimestamp) (\<lambda>_ _. 5) 1 late_opts empty_fs = (Inr s1, fs1) \<and>
    InsertRows stable_runtime (\<lambda>_ _. 5) True late_rows s1 = (Inr (), s2) \<and> Close stable_runtime (\<lambda>_. 50) s2 = Some (Inr (), s3) \<and>
    NewStorage stable_runtime (sort_key dk_minTimestamp) (\<lambda>_ _. 5) 1 late_opts (s_fs s3) = (Inr s4, fs4) \<and>
    Select stable_runtime (\<lambda>_. 90) ''a'' [] 1 20 s4 = Some (Inr [point 7 1, point 9 3], s5)"
proof -
  have active: "mem_active (newMemoryPartition (1 * Hour) Seconds)" by code_simp
  have srt: "slice_sort dk_minTimestamp (sort_key dk_minTimestamp)" by (rule stable_sort.slice_sort_axioms)
  have "time_Since 50 50 \<le> 336 * Hour" "time_Since 90 50 \<le> 336 * Hour" by code_simp+
  hence times: "\<forall>r :: nat. time_Since 50 50 \<le> 336 * Hour" "time_Since 90 50 \<le> 336 * Hour" by simp_all
  have clock: "clock_ok (\<lambda>_. 5)" "(0 :: int) \<le> 50" "(50 :: int) < 2 ^ 63" by (simp_all add: clock_ok_def)
  have sel: "''a'' \<noteq> ''''" "(1 :: int) < 20" "\<forall>q \<in> set [point 9 3, point 7 1]. dp_Timestamp q \<noteq> 20" by simp_all
  have rows: "late_rows \<noteq> []" "int (length late_rows) < 2 ^ 45" by (simp_all add: late_rows_def)
  obtain s1 fs1 s2 s3 s4 fs4 s5 qs where run:
    "NewStorage stable_runtime (sort_key dk_minTimestamp) (\<lambda>_ _. 5) 1 late_opts empty_fs = (Inr s1, fs1)"
    "InsertRows stable_runtime (\<lambda>_ _. 5) True late_rows s1 = (Inr (), s2)" "Close stable_runtime (\<lambda>_. 50) s2 = Some (Inr (), s3)"
    "NewStorage stable_runtime (sort_key dk_minTimestamp) (\<lambda>_ _. 5) 1 late_opts (s_fs s3) = (Inr s4, fs4)"
    "Select stable_runtime (\<lambda>_. 90) ''a'' [] 1 20 s4 = Some (if qs = [] then Inl ErrNoDataPoints else Inr qs, s5)"
    "sorted (map dp_Timestamp qs)" "mset qs = mset (filter (\<lambda>p. 1 \<le> dp_Timestamp p \<and> dp_Timestamp p < 20) [point 9 3, point 7 1])"
    using close_then_reopen [where n = 1 and opts = late_opts and d = "''d''" and srt = "sort_key dk_minTimestamp" and R = stable_runtime
        and rows = late_rows and clock = "\<lambda>_ _. 5" and closing = "\<lambda>_. 50" and time = "\<lambda>_. 90" and metric = "''a''" and labels = "[]" and freed = True,
        unfolded late_opts_fields late_rows_ok(2), OF refl _ _ active runtime_ok_stable srt rows(1) late_rows_ok(1) rows(2) clock times sel]
    by auto
  have "qs = [point 7 1, point 9 3]" by (rule sorted_pair [OF run(6)]) (use run(7) in simp_all)
  thus ?thesis using run(1-5) by auto
qed

end
