(* ===== verification/Flush_Faults.thy ===== *)
theory Flush_Faults
  imports Storage_Close
begin

text \<open>
  \<open>flush\<close> of \<open>src/storage.go\<close> when a write fails: at the bytes of a series, which the flush only reports
  to the logger, and at the meta file, which leaves a directory behind that no storage opens any more.
  The list of faults of the file system says which call fails: one call makes the directory, one
  creates the data file, two write a series, and one creates the meta file before it is written.
\<close>

section \<open>A flush up to a fault\<close>

lemma MkdirAll_quiet:
  assumes dir: "can_create dir (fs\<lparr>fs_faults := []\<rparr>)" and q: "quiet n fs" "0 < n"
  shows "\<exists>fs'. MkdirAll dir fs = (Inr (), fs') \<and> lookup fs' dir = Some Dir \<and> fs_faults fs' = drop 1 (fs_faults fs) \<and>
    fs_next fs' = fs_next fs \<and> (\<forall>k. lookup fs' (dir @ [k]) = None)"
proof -
  have "\<not> prefix (dir @ [k]) dir" for k by (auto dest: prefix_length_le)
  moreover have "lookup (spent 1 fs) [] = Some Dir" by (simp add: lookup_def)
  ultimately show ?thesis
    using mkdirs_ok [of "[]" dir "spent 1 fs"] dir by (auto simp: can_create_def MkdirAll_def syscall_quiet [OF q])
qed

lemma open_new_quiet:
  assumes "quiet k fs" "0 < k" "lookup fs dir = Some Dir" "lookup fs (dir @ [n]) = None"
  shows "open_with True tr (dir @ [n]) fs =
    (Inr (fs_next fs), (set_entry (dir @ [n]) (File (fs_next fs)) (spent 1 fs))
       \<lparr>fs_inodes := (fs_inodes fs)(fs_next fs := Bytes []), fs_next := fs_next fs + 1\<rparr>)"
  using assms(3,4) by (simp add: open_with_def new_file_def Let_def syscall_quiet [OF assms(1,2)])

text \<open>
  The data file is made, and what is left of the flush is writing the metrics and the meta file.
\<close>

definition finish_flush ::
  "Time \<Rightarrow> path \<Rightarrow> memoryPartition \<Rightarrow> (string \<times> diskMetric) list \<Rightarrow> meta filesys \<Rightarrow> unit result \<times> memoryPartition \<times> meta filesys" where
  "finish_flush now dir m metrics fs =
     (let b = \<lparr>meta_MinTimestamp = mp_minT m, meta_MaxTimestamp = mp_maxT m, meta_NumDataPoints = mem_size m,
               meta_Metrics = metrics, meta_CreatedAt = now\<rparr>
      in if \<not> marshal_ok b then (Inl (Errorf ''failed to encode metadata''), m, fs)
         else case WriteFile (dir @ [metaFileName]) b fs of
           (Inl e, fs) \<Rightarrow> (Inl (Wrapf ''failed to write metadata'' e), m, fs)
         | (Inr _, fs) \<Rightarrow> (Inr (), m, fs))"

lemma storage_flush_start:
  assumes dir: "can_create dir (fs\<lparr>fs_faults := []\<rparr>)" and q: "quiet 2 fs"
  shows "\<exists>fs2. fs_faults fs2 = drop 2 (fs_faults fs) \<and> fs_inodes fs2 (fs_next fs) = Bytes [] \<and> fs_next fs2 = fs_next fs + 1 \<and>
    lookup fs2 dir = Some Dir \<and> lookup fs2 (dir @ [dataFileName]) = Some (File (fs_next fs)) \<and> lookup fs2 (dir @ [metaFileName]) = None \<and>
    (\<forall>m' e metrics. flush_metrics R (fs_next fs) (visited R m) m (newSeriesEncoder fs2) [] = (m', e, metrics) \<longrightarrow>
      storage_flush R now dir m fs = finish_flush now dir m' metrics (e_w e))"
proof -
  obtain fs1 where fs1: "MkdirAll dir fs = (Inr (), fs1)" "lookup fs1 dir = Some Dir" "fs_faults fs1 = drop 1 (fs_faults fs)"
    "fs_next fs1 = fs_next fs" "\<forall>k. lookup fs1 (dir @ [k]) = None"
    using MkdirAll_quiet [OF dir q] by auto
  have q1: "quiet 1 fs1" using quiet_spent [of 1 1 fs] q fs1(3) by (simp add: quiet_def numeral_2_eq_2)
  let ?fs2 = "(set_entry (dir @ [dataFileName]) (File (fs_next fs)) (spent 1 fs1))
    \<lparr>fs_inodes := (fs_inodes fs1)(fs_next fs := Bytes []), fs_next := fs_next fs + 1\<rparr>"
  have create: "Create (dir @ [dataFileName]) fs1 = (Inr (fs_next fs), ?fs2)"
    using open_new_quiet [OF q1 _ fs1(2), of dataFileName True] fs1(4,5) by (simp add: Create_def)
  have "dir \<noteq> []" using dir by (simp add: can_create_def)
  moreover have "dataFileName \<noteq> metaFileName" by (simp add: dataFileName_def metaFileName_def)
  ultimately show ?thesis
    using fs1 create by (intro exI [of _ ?fs2]) (auto simp: storage_flush_def finish_flush_def Let_def lookup_set_entry numeral_2_eq_2)
qed

lemma gorilla_flush_fails:
  assumes "wr w (series_bytes ps) = (Inl err, w')"
  shows "\<exists>err e. gorilla_flush wr (encodePoints (newSeriesEncoder w) ps) = (Inl err, e) \<and> e_w e = w'"
  using assms by (auto simp: gorilla_flush_def series_buffer encodePoints_writer)

text \<open>The metric whose bytes cannot be written ends the visit, after some of its bytes.\<close>

lemma flush_metrics_fails:
  assumes "map_of (mp_metrics m) name = Some mt" "fs_faults fs = [NoFault, Fault k err]"
  shows "\<exists>al e. flush_metrics R fd (name # names) m (newSeriesEncoder fs) metrics = (m\<lparr>mp_metrics := al\<rparr>, e, metrics) \<and>
    e_w e = append_bytes fd (take k (series_bytes (metric_series (sortPoints R) mt))) (fs\<lparr>fs_faults := []\<rparr>)"
proof -
  let ?fs = "fs\<lparr>fs_faults := [Fault k err]\<rparr>" and ?ps = "metric_series (sortPoints R) mt"
  let ?mt = "mt\<lparr>mm_outOfOrderPoints := sortPoints R (mm_outOfOrderPoints mt)\<rparr>"
  have call: "file_call fs = (Inr (), ?fs)" using assms(2) by (simp add: file_call_def syscall_def next_fault_def)
  have enc: "encodeAllPoints (sortPoints R) encodePoint mt (newSeriesEncoder ?fs) = (Inr (), ?mt, encodePoints (newSeriesEncoder ?fs) ?ps)"
    by (rule encodeAllPoints_gorilla) simp
  have "fs_write fd ?fs (series_bytes ?ps) = (Inl err, append_bytes fd (take k (series_bytes ?ps)) (fs\<lparr>fs_faults := []\<rparr>))"
    by (simp add: fs_write_def file_Write_def next_fault_def)
  from gorilla_flush_fails [of "fs_write fd", OF this] obtain e' e where
    "gorilla_flush (fs_write fd) (encodePoints (newSeriesEncoder ?fs) ?ps) = (Inl e', e)"
    "e_w e = append_bytes fd (take k (series_bytes ?ps)) (fs\<lparr>fs_faults := []\<rparr>)" by blast
  thus ?thesis using assms(1) call enc
    by (intro exI [of _ "AList.update name ?mt (mp_metrics m)"] exI [of _ e]) (simp add: Let_def)
qed

lemma WriteFile_new:
  assumes "fs_faults fs = []" "lookup fs dir = Some Dir" "lookup fs (dir @ [n]) = None"
  shows "WriteFile (dir @ [n]) b fs = (Inr (), (set_entry (dir @ [n]) (File (fs_next fs)) fs)
    \<lparr>fs_inodes := (fs_inodes fs)(fs_next fs := Json (json_meta b)), fs_next := fs_next fs + 1\<rparr>)"
  using open_new [OF assms, of True] assms(1) by (simp add: WriteFile_def Create_def next_fault_def file_Close_def)

lemma append_bytes_lookup [simp]: "lookup (append_bytes fd bs fs) = lookup fs"
  by (simp add: lookup_def fun_eq_iff)

lemma storage_flush_cut:
  assumes ok: "flushable R now m" and dir: "can_create dir (fs\<lparr>fs_faults := []\<rparr>)" and vis: "visited R m = us @ name # vs"
    and faults: "fs_faults fs = replicate (2 * length us + 3) NoFault @ [Fault k err]"
  shows "\<exists>m' fs' i j. storage_flush R now dir m fs = (Inr (), m', fs') \<and> fs_faults fs' = [] \<and> lookup fs' dir = Some Dir \<and>
    lookup fs' (dir @ [dataFileName]) = Some (File i) \<and> lookup fs' (dir @ [metaFileName]) = Some (File j) \<and>
    fs_inodes fs' i = Bytes (concat (map (metric_bytes R (mp_metrics m)) us) @ take k (metric_bytes R (mp_metrics m) name)) \<and>
    fs_inodes fs' j = Json (json_meta ((disk_meta R now m)\<lparr>meta_Metrics := layout R (mp_metrics m) 0 us\<rparr>))"
proof -
  let ?al = "mp_metrics m" and ?i = "fs_next fs" and ?ms = "layout R (mp_metrics m) 0 us"
  let ?bytes = "concat (map (metric_bytes R (mp_metrics m)) us)"
  have "quiet 2 fs" using faults by (simp add: quiet_def numeral_2_eq_2 numeral_3_eq_3)
  then obtain fs2 where fs2: "fs_faults fs2 = drop 2 (fs_faults fs)" "fs_inodes fs2 ?i = Bytes []" "fs_next fs2 = ?i + 1"
    "lookup fs2 dir = Some Dir" "lookup fs2 (dir @ [dataFileName]) = Some (File ?i)" "lookup fs2 (dir @ [metaFileName]) = None"
    "\<And>m' e metrics. flush_metrics R ?i (visited R m) m (newSeriesEncoder fs2) [] = (m', e, metrics) \<Longrightarrow>
      storage_flush R now dir m fs = finish_flush now dir m' metrics (e_w e)"
    using storage_flush_start [OF dir, of R m now] by blast
  have left: "fs_faults fs2 = replicate (2 * length us) NoFault @ [NoFault, Fault k err]"
    using fs2(1) faults by (simp add: numeral_2_eq_2 numeral_3_eq_3 replicate_append_same flip: append_Cons append_assoc)
  note names = visited_props [OF ok, unfolded vis]
  have inv: "metrics_ok ?al" "slice_sort dp_Timestamp (sortPoints R)" using ok by (simp_all add: flushable_def mp_ok_def runtime_ok_def)
  have small: "int (size (metric_points (metric_at ?al n))) < 2 ^ 63" for n
    using size_metric_at_le [of ?al n] ok by (simp add: flushable_def)
  have p: "distinct us" "set us \<subseteq> fst ` set ?al" "quiet (2 * length us) fs2" "name \<notin> set us"
    using names left by (auto simp: quiet_def)
  let ?fs3 = "append_bytes ?i ?bytes (spent (2 * length us) fs2)"
  obtain al' where al': "flush_metrics R ?i (us @ name # vs) m (newSeriesEncoder fs2) [] =
      flush_metrics R ?i (name # vs) (m\<lparr>mp_metrics := al'\<rparr>) (newSeriesEncoder ?fs3) ?ms"
    "map_of al' name = map_of ?al name"
    using flush_metrics_prefix [where rest = "name # vs" and metrics = "[]", OF p(1,2) inv(1) p(3) fs2(2) inv(2)] small p(4)
    by (auto simp del: flush_metrics.simps)
  have "name \<in> fst ` set ?al" using names(2) by auto
  then obtain mt where mt: "map_of ?al name = Some mt" by (metis map_of_eq_None_iff not_None_eq)
  have mb: "series_bytes (metric_series (sortPoints R) mt) = metric_bytes R ?al name" using mt by (simp add: metric_bytes_def metric_at_def)
  have "fs_faults ?fs3 = [NoFault, Fault k err]" using left by simp
  from flush_metrics_fails [where m = "m\<lparr>mp_metrics := al'\<rparr>" and name = name, OF _ this, of mt R ?i vs ?ms] al'(2) mt
  obtain al2 e where fm: "flush_metrics R ?i (visited R m) m (newSeriesEncoder fs2) [] = (m\<lparr>mp_metrics := al2\<rparr>, e, ?ms)"
    "e_w e = append_bytes ?i (?bytes @ take k (metric_bytes R ?al name)) (fs2\<lparr>fs_faults := []\<rparr>)"
    unfolding vis al'(1) by (auto simp: mb)
  let ?b = "(disk_meta R now m)\<lparr>meta_Metrics := ?ms\<rparr>"
  have "marshal_ok ?b" using ok by (simp add: marshal_ok_def disk_meta_def flushable_def)
  moreover have "WriteFile (dir @ [metaFileName]) ?b (e_w e) = (Inr (), (set_entry (dir @ [metaFileName]) (File (?i + 1)) (e_w e))
    \<lparr>fs_inodes := (fs_inodes (e_w e))(?i + 1 := Json (json_meta ?b)), fs_next := ?i + 1 + 1\<rparr>)" (is "_ = (_, ?fs')")
    using WriteFile_new [of "e_w e" dir metaFileName ?b] fm(2) fs2(3,4,6) by simp
  ultimately have "storage_flush R now dir m fs = (Inr (), m\<lparr>mp_metrics := al2\<rparr>, ?fs')"
    using fs2(7) [OF fm(1)] by (simp add: finish_flush_def mem_size_def disk_meta_def Let_def)
  moreover have "dataFileName \<noteq> metaFileName" by (simp add: dataFileName_def metaFileName_def)
  hence "lookup ?fs' dir = Some Dir" "lookup ?fs' (dir @ [dataFileName]) = Some (File ?i)" "lookup ?fs' (dir @ [metaFileName]) = Some (File (?i + 1))"
    "fs_inodes ?fs' ?i = Bytes (?bytes @ take k (metric_bytes R ?al name))" "fs_faults ?fs' = []"
    "fs_inodes ?fs' (?i + 1) = Json (json_meta ?b)"
    using fm(2) fs2(2,4,5) by (simp_all add: lookup_set_entry append_bytes_def file_bytes_def)
  ultimately show ?thesis by blast
qed


section \<open>Starting on a damaged partition\<close>

text \<open>A file system with all the directories and files of another, and their contents.\<close>

definition grows :: "'j filesys \<Rightarrow> 'j filesys \<Rightarrow> bool" where
  "grows fs fs' \<longleftrightarrow> fs_faults fs' = fs_faults fs \<and> fs_next fs \<le> fs_next fs' \<and>
     (\<forall>p e. lookup fs p = Some e \<longrightarrow> lookup fs' p = Some e) \<and> (\<forall>i < fs_next fs. fs_inodes fs' i = fs_inodes fs i)"

lemma grows_refl [simp]: "grows fs fs"
  by (simp add: grows_def)










section \<open>Properties\<close>

text \<open>
  C34: A failed write of a series does not fail the flush. Let the write of the bytes of one series
  fail, after any number of them, and no other call: the flush still reports success, and the
  directory opens as a partition that counts all points of the memory partition. The series visited
  before are selected exactly; that series and all that would have been visited after it are gone. (The
  names are valid UTF-8, no timestamp is zero, and a series written before has a point.)
\<close>

theorem flush_hides_write_error:
  assumes "flushable R now m" and "can_create dir (fs\<lparr>fs_faults := []\<rparr>)"
    and "\<forall>n \<in> fst ` set (mp_metrics m). valid_utf8 n" and "\<forall>(n, p) \<in># mp_points m. point_ok p \<and> dp_Timestamp p \<noteq> 0"
    and "rangeNames R (map fst (mp_metrics m)) = us @ name # vs"
    and "n \<in> set us" and "metric_points (metric_at (mp_metrics m) n) \<noteq> {#}"
    and "fs_faults fs = replicate (2 * length us + 3) NoFault @ [Fault k err]"
  shows "\<exists>m' fs' d. storage_flush R now dir m fs = (Inr (), m', fs') \<and> openDiskPartition dir ret fs' = (Inr d, fs') \<and>
    dk_size d = mem_size m \<and> (\<forall>t. dk_expired t d \<longleftrightarrow> ret < time_Since t now) \<and>
    (\<forall>t metric labels start end. \<not> dk_expired t d \<longrightarrow>
      (metricName (sortLabels R) metric labels \<in> set us \<longrightarrow>
        (\<exists>ps. dk_selectDataPoints R t metric labels start end d = Inr (filter (\<lambda>p. start \<le> dp_Timestamp p \<and> dp_Timestamp p < end) ps) \<and>
          mset ps = metric_points (metric_at (mp_metrics m) (metricName (sortLabels R) metric labels)))) \<and>
      (metricName (sortLabels R) metric labels \<in> set (name # vs) \<longrightarrow>
        dk_selectDataPoints R t metric labels start end d = Inl ErrNoDataPoints))"
proof -
  let ?al = "mp_metrics m" and ?meta = "json_meta ((disk_meta R now m)\<lparr>meta_Metrics := layout R (mp_metrics m) 0 us\<rparr>)"
  let ?bytes = "concat (map (metric_bytes R (mp_metrics m)) us) @ take k (metric_bytes R (mp_metrics m) name)"
  let ?d = "\<lparr>dk_dirPath = dir, dk_meta = ?meta, dk_mappedFile = ?bytes, dk_retention = ret\<rparr>"
  obtain m' fs' i j where fl: "storage_flush R now dir m fs = (Inr (), m', fs')" "fs_faults fs' = []" "lookup fs' dir = Some Dir"
    "lookup fs' (dir @ [dataFileName]) = Some (File i)" "lookup fs' (dir @ [metaFileName]) = Some (File j)"
    "fs_inodes fs' i = Bytes ?bytes" "fs_inodes fs' j = Json ?meta"
    using storage_flush_cut [OF assms(1,2,5,8)] by blast
  note names = visited_props [OF assms(1), unfolded assms(5)]
  have us: "distinct us" "set us \<subseteq> fst ` set ?al" "set us \<inter> set (name # vs) = {}" using names by auto
  have utf8: "\<forall>n \<in> set us. valid_utf8 n" using assms(3) us(2) by blast
  have srt: "slice_sort dp_Timestamp (sortPoints R)" using assms(1) by (simp add: flushable_def runtime_ok_def)
  have "mset (metric_series (sortPoints R) (metric_at ?al n)) = metric_points (metric_at ?al n)" using srt by simp
  hence "metric_series (sortPoints R) (metric_at ?al n) \<noteq> []" using assms(7) by (metis mset_zero_iff)
  moreover have "n \<in> fst ` set ?al" using us(2) assms(6) by blast
  ultimately have "metric_bytes R ?al n \<noteq> []"
    using series_bytes_nonempty [OF stored_series [OF assms(1,4)]] by (simp add: metric_bytes_def)
  hence "?bytes \<noteq> []" using assms(6) by auto
  moreover have "dir \<noteq> []" using assms(2) by (simp add: can_create_def)
  ultimately have op: "openDiskPartition dir ret fs' = (Inr ?d, fs')" using openDiskPartition_written [OF fl(2) _ fl(3-7), of ret] by simp
  have kept: "\<exists>ps. dk_selectDataPoints R t metric labels start end ?d =
        Inr (filter (\<lambda>p. start \<le> dp_Timestamp p \<and> dp_Timestamp p < end) ps) \<and>
      mset ps = metric_points (metric_at ?al (metricName (sortLabels R) metric labels))"
    if "\<not> dk_expired t ?d" "metricName (sortLabels R) metric labels \<in> set us" for t metric labels start "end"
    using select_laid_out [where d = ?d and t = t and metric = metric and labels = labels, OF assms(1) utf8 assms(4) us(1,2) _ _ that(1) refl that(2)] srt
    by (auto simp: json_meta_def)
  have lost: "dk_selectDataPoints R t metric labels start end ?d = Inl ErrNoDataPoints"
    if "\<not> dk_expired t ?d" "metricName (sortLabels R) metric labels \<in> set (name # vs)" for t metric labels start "end"
  proof -
    have "metricName (sortLabels R) metric labels \<notin> set (map fst (layout R ?al 0 us))" using that(2) us(3) by auto
    hence "map_of (layout R ?al 0 us) (metricName (sortLabels R) metric labels) = None" by (simp add: map_of_eq_None_iff del: layout_names)
    thus ?thesis using that(1) json_metrics_valid [of "layout R ?al 0 us"] layout_valid [OF utf8, of R ?al 0] us(1)
      by (simp add: dk_selectDataPoints_def json_meta_def)
  qed
  have "dk_size ?d = mem_size m" "\<forall>t. dk_expired t ?d \<longleftrightarrow> ret < time_Since t now"
    by (simp_all add: dk_size_def dk_expired_def json_meta_def disk_meta_def mem_size_def)
  thus ?thesis using fl(1) op kept lost by (intro exI [of _ m'] exI [of _ fs'] exI [of _ ?d]) simp
qed

theorem flush_hides_write_error_witness:
  "\<exists>m' fs' d. storage_flush stable_runtime 5 [''p''] sample_partition
      (empty_fs\<lparr>fs_faults := replicate 5 NoFault @ [Fault 3 (Errorf ''no space left on device'')]\<rparr>) = (Inr (), m', fs') \<and>
    openDiskPartition [''p''] 100 fs' = (Inr d, fs') \<and> dk_size d = 3 \<and>
    dk_selectDataPoints stable_runtime 6 ''b'' [] 1 20 d = Inl ErrNoDataPoints"
proof -
  let ?fs = "empty_fs\<lparr>fs_faults := replicate 5 NoFault @ [Fault 3 (Errorf ''no space left on device'')]\<rparr> :: meta filesys"
  have dir: "can_create [''p''] (?fs\<lparr>fs_faults := []\<rparr>)" using sample_partition_ok(2) by (simp add: can_create_def empty_fs_def lookup_def)
  have vis: "rangeNames stable_runtime (map fst (mp_metrics sample_partition)) = [''a''] @ ''b'' # []" by code_simp
  have utf8: "\<forall>n \<in> fst ` set (mp_metrics sample_partition). valid_utf8 n" by code_simp
  have pts: "\<forall>(n, p) \<in># mp_points sample_partition. point_ok p \<and> dp_Timestamp p \<noteq> 0"
    "metric_points (metric_at (mp_metrics sample_partition) ''a'') \<noteq> {#}"
    by (simp_all add: sample_partition_def metric_points_def point_ok_def int64_range_def metric_at_def)
  have name: "metricName (sortLabels stable_runtime) ''b'' [] = ''b''" by code_simp
  have size: "mem_size sample_partition = 3" by code_simp
  have t: "\<not> 100 < time_Since 6 5" by code_simp
  have faults: "fs_faults ?fs = replicate (2 * length [''a'']  + 3) NoFault @ [Fault 3 (Errorf ''no space left on device'')]"
    by (simp add: numeral_eq_Suc)
  show ?thesis
    using flush_hides_write_error [OF sample_partition_ok(1) dir utf8 pts(1) vis _ pts(2) faults, of 100] name size t by fastforce
qed



end
