(* ===== verification/Storage_Insert.thy ===== *)
theory Storage_Insert
  imports Storage_Recovery
begin

text \<open>
  How \<open>InsertRows\<close> distributes a batch over the partitions: rows that are older than the head
  partition go to the partition behind it, and rows older than both are dropped. The log is any that
  works: none, or one on a disk without faults.
\<close>

section \<open>A log that works\<close>

fun wal_works :: "wal \<times> meta filesys \<Rightarrow> bool" where
  "wal_works (NopWAL, fs) = True"
| "wal_works (DiskWAL w, fs) = wal_healthy w fs"

lemma any_append_works:
  assumes "wal_works st"
  shows "\<exists>st'. any_append R rows st = (Inr (), st') \<and> wal_works st'"
proof (cases st rule: wal_works.cases)
  case (2 w fs)
  obtain r w' fs' where ap: "wal_append R operationInsert rows w fs = (r, w', fs')" by (rule prod_cases3)
  have h: "wal_healthy w fs" using assms 2 by simp
  from wal_append_healthy [OF this, of R rows] ap have "r = Inr ()" "wal_healthy w' fs'"
    using h by (simp_all add: wal_advances_def wal_healthy_def healthy_def same_files_def)
  thus ?thesis using 2 ap by (simp add: any_append_def lift_wal_def)
qed simp

section \<open>One partition\<close>

lemma insert_loop_step:
  assumes "seg (pl_nodes (s_partitionList s)) (ahead (s_partitionList s) it) ((a, r) # zs) None"
    "any_insertRows R (clock r) rows (s_wal s, s_fs s) (s_parts s r) = (res, w, p)" "rows \<noteq> []"
  defines "s' \<equiv> s\<lparr>s_wal := fst w, s_fs := snd w, s_parts := (s_parts s)(r := p)\<rparr>"
  shows "insert_loop R clock (Suc n) it rows s =
      (case res of Inl e \<Rightarrow> (Inl (wrap ''failed to insert rows'' e), s') | Inr out \<Rightarrow> insert_loop R clock n (At (Some a)) out s')"
    "seg (pl_nodes (s_partitionList s')) (ahead (s_partitionList s') (At (Some a))) zs None"
  unfolding s'_def using seg_Cons_node [OF assms(1)] assms(2,3)
  by (simp_all add: iter_next_ahead iter_value_def Let_def)

lemma insert_loop_done: "insert_loop R clock n it [] s = (Inr (), s)"
  by (cases n) simp_all

text \<open>What a partition that has taken rows before gets of a batch.\<close>

abbreviation taken :: "Runtime \<Rightarrow> (nat \<Rightarrow> Time) \<Rightarrow> memoryPartition \<Rightarrow> Row list \<Rightarrow> (string \<times> DataPoint) multiset" where
  "taken R clock m rows \<equiv> mset (accepted R clock (mp_timestampPrecision m) (mp_minT m) 0 rows)"

abbreviation outdated :: "memoryPartition \<Rightarrow> Row list \<Rightarrow> Row list" where
  "outdated m rows \<equiv> filter (\<lambda>r. row_Timestamp r < mp_minT m) rows"

lemma any_insertRows_mem:
  assumes "mp_ok m" "mp_once m" "rows \<noteq> []" "clock_ok clock" "wal_works st" "int (size (mp_points m) + length rows) < 2 ^ 63"
  shows "\<exists>st' m'. any_insertRows R clock rows st (MemP m) = (Inr (outdated m rows), st', MemP m') \<and> wal_works st' \<and>
    any_append R rows st = (Inr (), st') \<and> mp_ok m' \<and> mp_points m' = mp_points m + taken R clock m rows"
proof -
  obtain st' where ap: "any_append R rows st = (Inr (), st')" "wal_works st'" using any_append_works [OF assms(5)] by blast
  from mem_insertRows_spec [where wal_append = "any_append R" and R = R, OF assms(1,3,4) ap(1) assms(6)] assms(2) ap
  show ?thesis by (cases st') auto
qed

section \<open>Two partitions\<close>

lemma insert_loop_start:
  assumes "list_ok s ((a, r1) # (b, r2) # zs)"
  shows "seg (pl_nodes (s_partitionList s)) (ahead (s_partitionList s) (newIterator (s_partitionList s))) ((a, r1) # (b, r2) # zs) None"
    "min (nat (pl_size (s_partitionList s))) writablePartitionsNum = Suc (Suc 0)"
proof -
  have rep: "represents (s_partitionList s) ((a, r1) # (b, r2) # zs)" using assms by (simp add: list_ok_def)
  show "seg (pl_nodes (s_partitionList s)) (ahead (s_partitionList s) (newIterator (s_partitionList s))) ((a, r1) # (b, r2) # zs) None"
    using rep by (simp add: represents_def newIterator_def)
  have "pl_size (s_partitionList s) = int (length ((a, r1) # (b, r2) # zs))" using rep by (simp add: represents_def pl_size_def)
  thus "min (nat (pl_size (s_partitionList s))) writablePartitionsNum = Suc (Suc 0)" by (simp add: writablePartitionsNum_def)
qed

text \<open>The batch reaches the head partition, which is active; what it gives back goes on.\<close>

lemma insert_rows_head:
  assumes ok: "list_ok s ((a, r1) # (b, r2) # zs)" and m1: "s_parts s r1 = MemP m1" "mp_once m1" "mem_active m1"
    and rows: "rows \<noteq> []" "clock_ok (clock r1)" "wal_works (s_wal s, s_fs s)" "int (size (mp_points m1) + length rows) < 2 ^ 63"
  shows "\<exists>w fs m1'. any_append R rows (s_wal s, s_fs s) = (Inr (), w, fs) \<and> wal_works (w, fs) \<and> mp_ok m1' \<and> mp_points m1' = mp_points m1 + taken R (clock r1) m1 rows \<and>
    insert_rows R clock rows s = insert_loop R clock (Suc 0) (At (Some a)) (outdated m1 rows)
      (s\<lparr>s_wal := w, s_fs := fs, s_parts := (s_parts s)(r1 := MemP m1')\<rparr>) \<and>
    seg (pl_nodes (s_partitionList s)) (ahead (s_partitionList s) (At (Some a))) ((b, r2) # zs) None"
proof -
  note start = insert_loop_start [OF ok]
  have "mp_ok m1" using ok m1(1) by (auto simp: list_ok_def)
  from any_insertRows_mem [OF this m1(2) rows, of R] obtain w fs m1' where ins:
    "any_insertRows R (clock r1) rows (s_wal s, s_fs s) (s_parts s r1) = (Inr (outdated m1 rows), (w, fs), MemP m1')"
    "wal_works (w, fs)" "mp_ok m1'" "mp_points m1' = mp_points m1 + taken R (clock r1) m1 rows"
    "any_append R rows (s_wal s, s_fs s) = (Inr (), w, fs)"
    using m1(1) by auto
  note step = insert_loop_step [where clock = clock, OF start(1) ins(1) rows(1)]
  have "getHead (s_partitionList s) = Some r1" using pl_repr_head [OF list_ok_repr [OF ok]] by simp
  hence "ensureActiveHead s = (Inr (), s)" using m1(1,3) by (simp add: ensureActiveHead_def)
  hence "insert_rows R clock rows s = insert_loop R clock (Suc 0) (At (Some a)) (outdated m1 rows)
      (s\<lparr>s_wal := w, s_fs := fs, s_parts := (s_parts s)(r1 := MemP m1')\<rparr>)"
    using step(1) start(2) by (simp add: insert_rows_def)
  thus ?thesis using ins(2-5) step(2) by (intro exI [of _ w] exI [of _ fs] exI [of _ m1']) simp
qed

text \<open>The log after a batch: its rows, and once more those that go to the partition behind the head.\<close>

definition log_batch :: "Runtime \<Rightarrow> Row list \<Rightarrow> Row list \<Rightarrow> wal \<times> meta filesys \<Rightarrow> wal \<times> meta filesys" where
  "log_batch R rows late st =
     (let st = snd (any_append R rows st) in if late = [] then st else snd (any_append R late st))"

lemma insert_rows_two:
  assumes ok: "list_ok s ((a, r1) # (b, r2) # zs)" and m1: "s_parts s r1 = MemP m1" "mp_once m1" "mem_active m1"
    and m2: "s_parts s r2 = MemP m2" "mp_once m2"
    and rows: "rows \<noteq> []" "clock_ok (clock r1)" "clock_ok (clock r2)" "wal_works (s_wal s, s_fs s)"
      "int (size (mp_points m1) + length rows) < 2 ^ 63" "int (size (mp_points m2) + length rows) < 2 ^ 63"
  shows "\<exists>w fs m1' m2'. insert_rows R clock rows s =
      (Inr (), s\<lparr>s_wal := w, s_fs := fs, s_parts := (s_parts s)(r1 := MemP m1', r2 := MemP m2')\<rparr>) \<and> mp_ok m1' \<and> mp_ok m2' \<and>
    (w, fs) = log_batch R rows (outdated m1 rows) (s_wal s, s_fs s) \<and>
    mp_points m1' = mp_points m1 + taken R (clock r1) m1 rows \<and>
    mp_points m2' = mp_points m2 + taken R (clock r2) m2 (outdated m1 rows)"
proof -
  obtain w fs m1' where h: "wal_works (w, fs)" "mp_ok m1'" "mp_points m1' = mp_points m1 + taken R (clock r1) m1 rows"
    "insert_rows R clock rows s = insert_loop R clock (Suc 0) (At (Some a)) (outdated m1 rows)
      (s\<lparr>s_wal := w, s_fs := fs, s_parts := (s_parts s)(r1 := MemP m1')\<rparr>)"
    "seg (pl_nodes (s_partitionList s)) (ahead (s_partitionList s) (At (Some a))) ((b, r2) # zs) None"
    "any_append R rows (s_wal s, s_fs s) = (Inr (), w, fs)"
    using insert_rows_head [where clock = clock, OF ok m1 rows(1,2,4,5), of R] by blast
  let ?s1 = "s\<lparr>s_wal := w, s_fs := fs, s_parts := (s_parts s)(r1 := MemP m1')\<rparr>"
  have m: "mp_ok m2" "r2 \<noteq> r1" using ok m2(1) by (auto simp: list_ok_def)
  show ?thesis
  proof (cases "outdated m1 rows = []")
    case True
    have "(s_parts s)(r1 := MemP m1') = (s_parts s)(r1 := MemP m1', r2 := MemP m2)" using m2(1) m(2) by auto
    thus ?thesis using h(2-4,6) m(1) True unfolding True insert_loop_done
      by (intro exI [of _ w] exI [of _ fs] exI [of _ m1'] exI [of _ m2]) (simp add: log_batch_def)
  next
    case False
    have "int (size (mp_points m2) + length (outdated m1 rows)) < 2 ^ 63"
      using rows(6) length_filter_le [of "\<lambda>r. row_Timestamp r < mp_minT m1" rows] by linarith
    from any_insertRows_mem [OF m(1) m2(2) False rows(3) h(1) this, of R] obtain st m2' where ins:
      "any_insertRows R (clock r2) (outdated m1 rows) (s_wal ?s1, s_fs ?s1) (s_parts ?s1 r2) = (Inr (outdated m2 (outdated m1 rows)), st, MemP m2')"
      "mp_ok m2'" "mp_points m2' = mp_points m2 + taken R (clock r2) m2 (outdated m1 rows)"
      "any_append R (outdated m1 rows) (w, fs) = (Inr (), st)"
      using m2(1) m(2) by auto
    have seg: "seg (pl_nodes (s_partitionList ?s1)) (ahead (s_partitionList ?s1) (At (Some a))) ((b, r2) # zs) None" using h(5) by simp
    have "insert_rows R clock rows s = (Inr (), s\<lparr>s_wal := fst st, s_fs := snd st, s_parts := (s_parts s)(r1 := MemP m1', r2 := MemP m2')\<rparr>)"
      unfolding h(4) using insert_loop_step(1) [where clock = clock, OF seg ins(1) False, of 0] by simp
    moreover have "(fst st, snd st) = log_batch R rows (outdated m1 rows) (s_wal s, s_fs s)"
      using h(6) ins(4) False by (simp add: log_batch_def)
    ultimately show ?thesis using h(2,3) ins(2,3) by blast
  qed
qed

lemma with_token_insert:
  assumes "s_workers s < s_workersLimit s" "insert_rows R clock rows (s\<lparr>s_workers := s_workers s + 1\<rparr>) = (res, s')"
  shows "InsertRows R clock freed rows s = (res, s'\<lparr>s_workers := s_workers s' - 1\<rparr>)"
  using assms by (simp add: InsertRows_def with_token_def)

lemma storage_ok_two:
  assumes "storage_ok s" "pl_values (s_partitionList s) = Some (r1 # r2 # rs)"
  obtains a b zs where "list_ok s ((a, r1) # (b, r2) # zs)" "rs = map snd zs"
proof -
  obtain avs where avs: "list_ok s avs" using assms(1) by (auto simp: storage_ok_def)
  hence "map snd avs = r1 # r2 # rs" using list_ok_values assms(2) by fastforce
  thus ?thesis using that avs by (auto simp: Cons_eq_map_conv)
qed

section \<open>Properties\<close>

text \<open>
  C9: A batch is distributed over the two newest partitions as the comment at the loop says. With
  an active head partition and a memory partition behind it, both of which have taken rows before,
  a log that works, a free worker and no overflow of the counters, \<open>InsertRows\<close> succeeds, and adds exactly
  these points: to the head the rows that are not older than it, to the next partition the others
  that are not older than that one. Rows older than both are dropped. The log gets the rows, and
  once more those that went to the next partition; no other partition and no other field of the
  storage changes.
\<close>

theorem InsertRows_routes:
  assumes "storage_ok s" and "pl_values (s_partitionList s) = Some (r1 # r2 # rs)"
    and "s_parts s r1 = MemP m1" and "mp_once m1" and "mem_active m1" and "s_parts s r2 = MemP m2" and "mp_once m2"
    and "rows \<noteq> []" and "clock_ok (clock r1)" and "clock_ok (clock r2)" and "wal_works (s_wal s, s_fs s)"
    and "int (size (mp_points m1) + length rows) < 2 ^ 63" and "int (size (mp_points m2) + length rows) < 2 ^ 63"
    and "s_workers s < s_workersLimit s"
  shows "\<exists>s' w fs m1' m2'. InsertRows R clock freed rows s = (Inr (), s') \<and> storage_ok s' \<and>
    s' = s\<lparr>s_wal := w, s_fs := fs, s_parts := (s_parts s)(r1 := MemP m1', r2 := MemP m2')\<rparr> \<and>
    (w, fs) = log_batch R rows (filter (\<lambda>r. row_Timestamp r < mp_minT m1) rows) (s_wal s, s_fs s) \<and>
    mp_points m1' = mp_points m1 + mset (accepted R (clock r1) (mp_timestampPrecision m1) (mp_minT m1) 0 rows) \<and>
    mp_points m2' = mp_points m2 + mset (accepted R (clock r2) (mp_timestampPrecision m2) (mp_minT m2) 0
      (filter (\<lambda>r. row_Timestamp r < mp_minT m1) rows))"
proof -
  obtain a b zs where ok: "list_ok s ((a, r1) # (b, r2) # zs)" "rs = map snd zs" by (rule storage_ok_two [OF assms(1,2)])
  let ?s = "s\<lparr>s_workers := s_workers s + 1\<rparr>"
  have ok1: "list_ok ?s ((a, r1) # (b, r2) # zs)" using ok(1) by (simp add: list_ok_def)
  obtain w fs m1' m2' where ins: "insert_rows R clock rows ?s =
      (Inr (), ?s\<lparr>s_wal := w, s_fs := fs, s_parts := (s_parts ?s)(r1 := MemP m1', r2 := MemP m2')\<rparr>)" "mp_ok m1'" "mp_ok m2'"
    "(w, fs) = log_batch R rows (outdated m1 rows) (s_wal s, s_fs s)" "mp_points m1' = mp_points m1 + taken R (clock r1) m1 rows"
    "mp_points m2' = mp_points m2 + taken R (clock r2) m2 (outdated m1 rows)"
    using insert_rows_two [where clock = clock and R = R, OF ok1, of m1 m2 rows] assms(3-13) by auto
  let ?s' = "s\<lparr>s_wal := w, s_fs := fs, s_parts := (s_parts s)(r1 := MemP m1', r2 := MemP m2')\<rparr>"
  have "InsertRows R clock freed rows s = (Inr (), ?s')" using with_token_insert [OF assms(14) ins(1)] by simp
  moreover have "list_ok ?s' ((a, r1) # (b, r2) # zs)" using ok(1) ins(2,3) by (auto simp: list_ok_def)
  hence "storage_ok ?s'" by (auto simp: storage_ok_def)
  ultimately show ?thesis using ins(4-6)
    by (intro exI [of _ ?s'] exI [of _ w] exI [of _ fs] exI [of _ m1'] exI [of _ m2']) simp
qed

text \<open>Two partitions, from 3 to 9 and from 20 on.\<close>

definition newer_partition :: memoryPartition where
  "newer_partition = \<lparr>mp_numPoints = 1, mp_minT = 20, mp_maxT = 20, mp_metrics =
     [(''a'', \<lparr>mm_name = ''a'', mm_size = 1, mm_minTimestamp = 20, mm_maxTimestamp = 20, mm_points = [point 20 1],
        mm_outOfOrderPoints = []\<rparr>)],
     mp_partitionDuration = 3600, mp_timestampPrecision = Seconds, mp_once = True\<rparr>"

definition two_storage :: "partition \<Rightarrow> storage" where
  "two_storage p = snd (newPartition (Some (MemP newer_partition)) False (snd (newPartition (Some p) False (default_storage 1 empty_fs))))"

lemma newer_partition_active: "mem_active newer_partition"
  by code_simp

lemma newer_partition_ok: "mp_ok newer_partition" "mp_once newer_partition" "mem_active newer_partition"
  "size (mp_points newer_partition) = 1" "mp_timestampPrecision newer_partition = Seconds" "mp_minT newer_partition = 20"
  using newer_partition_active by (simp_all add: newer_partition_def mp_ok_def metrics_ok_def metric_ok_def metric_points_def points_of_def)

lemma two_storage_ok:
  assumes "part_ok p"
  shows "storage_ok (two_storage p)" "pl_values (s_partitionList (two_storage p)) = Some [1, 0]"
    "s_parts (two_storage p) 0 = p" "s_parts (two_storage p) 1 = MemP newer_partition" "s_wal (two_storage p) = NopWAL"
    "s_workers (two_storage p) < s_workersLimit (two_storage p)"
proof -
  note defs = two_storage_def newPartition_def new_ref_def default_storage_def pl_insert_def new_node_def setHead_def newPartitionList_def
  have "list_ok (two_storage p) [(1, 1), (0, 0)]"
    using assms newer_partition_ok(1) by (simp add: list_ok_def represents_def defs Let_def int64_range_def)
  thus "storage_ok (two_storage p)" "pl_values (s_partitionList (two_storage p)) = Some [1, 0]"
    using list_ok_values [of "two_storage p" "[(1, 1), (0, 0)]"] by (auto simp: storage_ok_def)
  show "s_parts (two_storage p) 0 = p" "s_parts (two_storage p) 1 = MemP newer_partition" "s_wal (two_storage p) = NopWAL"
    "s_workers (two_storage p) < s_workersLimit (two_storage p)" by (simp_all add: defs Let_def)
qed

theorem InsertRows_routes_witness:
  "\<exists>s' m1' m2'. InsertRows stable_runtime (\<lambda>_ _. 5) True [row ''a'' 25 1, row ''a'' 8 2, row ''a'' 1 3] (two_storage (MemP sample_partition)) =
      (Inr (), s') \<and> s_parts s' 1 = MemP m1' \<and> s_parts s' 0 = MemP m2' \<and>
    mp_points m1' = mp_points newer_partition + {#(''a'', point 25 1)#} \<and> mp_points m2' = mp_points sample_partition + {#(''a'', point 8 2)#}"
proof -
  have sample: "mp_ok sample_partition" "mp_once sample_partition" "mp_timestampPrecision sample_partition = Seconds" "mp_minT sample_partition = 3"
    "size (mp_points sample_partition) = 3"
    using sample_partition_ok(1) by (simp_all add: flushable_def sample_partition_def metric_points_def)
  have part: "part_ok (MemP sample_partition)" using sample(1) by simp
  have name: "metricName (sortLabels stable_runtime) ''a'' [] = ''a''" by code_simp
  show ?thesis
    using InsertRows_routes [OF two_storage_ok(1,2) [OF part] two_storage_ok(4) [OF part] newer_partition_ok(2,3) two_storage_ok(3) [OF part] sample(2),
      of "[row ''a'' 25 1, row ''a'' 8 2, row ''a'' 1 3]" "\<lambda>_ _. 5" stable_runtime True] two_storage_ok(5,6) [OF part] newer_partition_ok(4-6) sample(3-5) name
    by (auto simp: clock_ok_def stamp_def)
qed

text \<open>
  C26: A row that is older than the head partition makes the whole batch fail when the partition behind
  the head is one on disk, as it is after a restart: a disk partition takes no rows, and its error is
  handed on instead of the row being dropped, although the rows that the head takes have been
  inserted.
\<close>

theorem late_row_fails_on_disk_partition:
  assumes "storage_ok s" and "pl_values (s_partitionList s) = Some (r1 # r2 # rs)"
    and "s_parts s r1 = MemP m1" and "mp_once m1" and "mem_active m1" and "s_parts s r2 = DiskP d"
    and "clock_ok (clock r1)" and "wal_works (s_wal s, s_fs s)"
    and "int (size (mp_points m1) + length rows) < 2 ^ 63" and "s_workers s < s_workersLimit s"
    and "r \<in> set rows" and "row_Timestamp r < mp_minT m1"
  shows "\<exists>err s' m1'. InsertRows R clock freed rows s = (Inl err, s') \<and> \<not> is_panic err \<and> s_parts s' = (s_parts s)(r1 := MemP m1') \<and>
    mp_points m1' = mp_points m1 + mset (accepted R (clock r1) (mp_timestampPrecision m1) (mp_minT m1) 0 rows)"
proof -
  obtain a b zs where ok: "list_ok s ((a, r1) # (b, r2) # zs)" "rs = map snd zs" by (rule storage_ok_two [OF assms(1,2)])
  let ?s = "s\<lparr>s_workers := s_workers s + 1\<rparr>"
  have ok1: "list_ok ?s ((a, r1) # (b, r2) # zs)" using ok(1) by (simp add: list_ok_def)
  have ne: "rows \<noteq> []" "outdated m1 rows \<noteq> []" using assms(11,12) by (auto simp: filter_empty_conv)
  obtain w fs m1' where h: "mp_points m1' = mp_points m1 + taken R (clock r1) m1 rows"
    "insert_rows R clock rows ?s = insert_loop R clock (Suc 0) (At (Some a)) (outdated m1 rows)
      (?s\<lparr>s_wal := w, s_fs := fs, s_parts := (s_parts ?s)(r1 := MemP m1')\<rparr>)"
    "seg (pl_nodes (s_partitionList ?s)) (ahead (s_partitionList ?s) (At (Some a))) ((b, r2) # zs) None"
    using insert_rows_head [where clock = clock and R = R, OF ok1, of m1 rows] assms(3-5,7-9) ne(1) by auto
  let ?s1 = "?s\<lparr>s_wal := w, s_fs := fs, s_parts := (s_parts ?s)(r1 := MemP m1')\<rparr>"
  have neq: "r2 \<noteq> r1" using ok(1) by (simp add: list_ok_def)
  hence ins: "any_insertRows R (clock r2) (outdated m1 rows) (s_wal ?s1, s_fs ?s1) (s_parts ?s1 r2) =
      (dk_insertRows (outdated m1 rows), (s_wal ?s1, s_fs ?s1), s_parts ?s1 r2)" using assms(6) by simp
  have seg: "seg (pl_nodes (s_partitionList ?s1)) (ahead (s_partitionList ?s1) (At (Some a))) ((b, r2) # zs) None" using h(3) by simp
  obtain e where e: "dk_insertRows (outdated m1 rows) = Inl e" "\<not> is_panic e" by (simp add: dk_insertRows_def is_panic_def)
  have "insert_rows R clock rows ?s = (Inl (wrap ''failed to insert rows'' e), ?s1)"
    unfolding h(2) using insert_loop_step(1) [where clock = clock, OF seg ins ne(2), of 0] e(1) neq
    by (simp add: fun_upd_idem del: insert_loop.simps)
  from with_token_insert [OF assms(10) this] h(1) e(2) show ?thesis by (auto simp: wrap_def is_panic_def)
qed

theorem late_row_fails_on_disk_partition_witness:
  "\<exists>err s' m1'. InsertRows stable_runtime (\<lambda>_ _. 5) True [row ''a'' 25 1, row ''a'' 8 2]
      (two_storage (DiskP (written_partition stable_runtime 5 [''p''] 100 sample_partition))) = (Inl err, s') \<and>
    s_parts s' 1 = MemP m1' \<and> mp_points m1' = mp_points newer_partition + {#(''a'', point 25 1)#}"
proof -
  let ?d = "written_partition stable_runtime 5 [''p''] 100 sample_partition"
  have part: "part_ok (DiskP ?d)" by simp
  have name: "metricName (sortLabels stable_runtime) ''a'' [] = ''a''" by code_simp
  show ?thesis
    using late_row_fails_on_disk_partition [OF two_storage_ok(1,2) [OF part] two_storage_ok(4) [OF part] newer_partition_ok(2,3) two_storage_ok(3) [OF part],
      of "\<lambda>_ _. 5" "[row ''a'' 25 1, row ''a'' 8 2]" "row ''a'' 8 2" stable_runtime True] two_storage_ok(5,6) [OF part] newer_partition_ok(4-6) name
    by (auto simp: clock_ok_def stamp_def)
qed

end
