(* ===== verification/Storage_Expiry.thy ===== *)
theory Storage_Expiry
  imports Storage_Insert
begin

text \<open>
  The removal of expired partitions, which runs periodically and when the storage is closed: exactly the
  partitions whose retention has passed leave the list, and their directories the disk.
\<close>

section \<open>Cleaning up without faults\<close>

text \<open>The paths that belong to a partition.\<close>

fun under :: "partition \<Rightarrow> path \<Rightarrow> bool" where
  "under (DiskP d) q = prefix (dk_dirPath d) q"
| "under _ q = False"

definition without :: "partition set \<Rightarrow> 'j filesys \<Rightarrow> 'j filesys" where
  "without ps fs = fs\<lparr>fs_entries := filter (\<lambda>(q, e). \<forall>p \<in> ps. \<not> under p q) (fs_entries fs)\<rparr>"

lemma without_fields [simp]: "fs_faults (without ps fs) = fs_faults fs" "without {} fs = fs"
  by (simp_all add: without_def case_prod_unfold)

lemma without_insert: "without ps (without {p} fs) = without (insert p ps) fs"
proof -
  have "filter (\<lambda>(q, e). \<forall>p \<in> ps. \<not> under p q) (filter (\<lambda>(q, e). \<forall>x \<in> {p}. \<not> under x q) es) =
    filter (\<lambda>(q, e). \<forall>x \<in> insert p ps. \<not> under x q) es" for es :: "(path \<times> entry) list" by (induction es) auto
  thus ?thesis by (simp add: without_def)
qed

lemma clean_no_faults:
  assumes "fs_faults fs = []"
  shows "clean p fs = (Inr (), without {p} fs)"
  using assms by (cases p) (simp_all add: mem_clean_def dk_clean_def RemoveAll_def without_def case_prod_unfold)

section \<open>Removing\<close>

lemma list_remove_exact:
  assumes ok: "list_ok s (ys @ (a, r) # zs)" "few_partitions s" "fs_faults (s_fs s) = []"
    and mins: "\<forall>u \<in> snd ` set ys. ref_minT s u \<noteq> ref_minT s r"
  shows "\<exists>l. list_remove r s = Some (Inr (), s\<lparr>s_fs := without {s_parts s r} (s_fs s), s_partitionList := l\<rparr>) \<and>
    list_ok (s\<lparr>s_fs := without {s_parts s r} (s_fs s), s_partitionList := l\<rparr>) (ys @ zs)"
proof -
  obtain us b v ws res s' where at: "ys @ [(a, r)] = us @ (b, v) # ws" "ref_minT s v = ref_minT s r"
    "list_remove r s = Some (res, s')" "list_ok s' (us @ ws @ zs)" "s' = s\<lparr>s_fs := s_fs s', s_partitionList := s_partitionList s'\<rparr>"
    "s_fs s' = snd (clean (s_parts s v) (s_fs s))" "res = Inr () \<longleftrightarrow> fst (clean (s_parts s v) (s_fs s)) = Inr ()"
    using ok(1,2) by (rule list_remove_at)
  have eq: "us = ys" "ws = []" "v = r" using found_last [OF at(1,2) mins] by simp_all
  have "res = Inr ()" "s_fs s' = without {s_parts s r} (s_fs s)" using at(6,7) eq clean_no_faults [OF ok(3)] by simp_all
  thus ?thesis using at(3-5) eq by (intro exI [of _ "s_partitionList s'"]) simp
qed

lemma remove_refs_exact:
  assumes "list_ok s avs" "few_partitions s" "fs_faults (s_fs s) = []" "distinct rs" "set rs \<subseteq> snd ` set avs"
    "distinct (map (ref_minT s) (map snd avs))"
  shows "\<exists>s' avs'. remove_refs rs s = Some (Inr (), s') \<and> list_ok s' avs' \<and> map snd avs' = filter (\<lambda>r. r \<notin> set rs) (map snd avs) \<and>
    s_parts s' = s_parts s \<and> s_wal s' = s_wal s \<and> s_fs s' = without (s_parts s ` set rs) (s_fs s)"
  using assms
proof (induction rs arbitrary: s avs)
  case Nil
  thus ?case by (intro exI [of _ s] exI [of _ avs]) simp
next
  case (Cons r rs)
  obtain ys a zs where avs: "avs = ys @ (a, r) # zs" using Cons.prems(5) by (auto dest!: split_list)
  have mins: "\<forall>u \<in> snd ` set ys. ref_minT s u \<noteq> ref_minT s r" using Cons.prems(6) avs by (auto simp: image_iff)
  let ?s = "\<lambda>l. s\<lparr>s_fs := without {s_parts s r} (s_fs s), s_partitionList := l\<rparr>"
  obtain l where l: "list_remove r s = Some (Inr (), ?s l)" "list_ok (?s l) (ys @ zs)"
    using list_remove_exact [OF Cons.prems(1) [unfolded avs] Cons.prems(2,3) mins] by blast
  have refs: "ref_minT (?s l) = ref_minT s" by (simp add: ref_minT_def fun_eq_iff)
  have "distinct (map snd avs)" using Cons.prems(1) by (simp add: list_ok_def)
  hence r: "r \<notin> snd ` set ys" "r \<notin> snd ` set zs" using avs by auto
  have "\<exists>s' avs'. remove_refs rs (?s l) = Some (Inr (), s') \<and> list_ok s' avs' \<and>
      map snd avs' = filter (\<lambda>r. r \<notin> set rs) (map snd (ys @ zs)) \<and> s_parts s' = s_parts (?s l) \<and> s_wal s' = s_wal (?s l) \<and>
      s_fs s' = without (s_parts (?s l) ` set rs) (s_fs (?s l))"
    by (rule Cons.IH [OF l(2)]) (use Cons.prems avs refs in auto)
  moreover have "filter (\<lambda>x. x \<notin> set rs) (map snd (ys @ zs)) = filter (\<lambda>x. x \<notin> set (r # rs)) (map snd avs)"
  proof -
    have "filter (\<lambda>x. x \<noteq> r \<and> x \<notin> set rs) xs = filter (\<lambda>x. x \<notin> set rs) xs" if "r \<notin> set xs" for xs
      by (rule filter_cong) (use that in auto)
    thus ?thesis using r by (simp add: avs)
  qed
  ultimately show ?case using l(1) by (auto simp: without_insert)
qed

section \<open>Properties\<close>

text \<open>
  C10: The retention is kept. When no two partitions have the same minimum timestamp, removing the
  expired partitions succeeds without faults, whatever partitions there are: exactly the partitions
  that are not expired stay in the list, in their order; of the disk exactly the directories of
  the expired ones disappear with all their files; no partition and no log changes.
\<close>

theorem removeExpiredPartitions_exact:
  assumes "storage_ok s" and "pl_values (s_partitionList s) = Some refs" and "s_nextRef s < 2 ^ 62" and "fs_faults (s_fs s) = []"
    and "distinct (map (\<lambda>r. minTimestamp (s_parts s r)) refs)"
  shows "\<exists>s'. removeExpiredPartitions clock s = Some (Inr (), s') \<and> storage_ok s' \<and>
    pl_values (s_partitionList s') = Some (filter (\<lambda>r. \<not> expired (clock r) (s_parts s r)) refs) \<and>
    s_parts s' = s_parts s \<and> s_wal s' = s_wal s \<and>
    fs_entries (s_fs s') = filter (\<lambda>(q, e). \<not> (\<exists>r \<in> set refs. \<exists>d. s_parts s r = DiskP d \<and> dk_expired (clock r) d \<and>
      prefix (dk_dirPath d) q)) (fs_entries (s_fs s))"
proof -
  obtain avs where avs: "list_ok s avs" using assms(1) by (auto simp: storage_ok_def)
  have refs: "refs = map snd avs" using list_ok_values [OF avs] assms(2) by simp
  let ?rs = "filter (\<lambda>r. expired (clock r) (s_parts s r)) refs"
  have rs: "distinct ?rs" "set ?rs \<subseteq> snd ` set avs" using avs refs by (auto simp: list_ok_def)
  have mins: "distinct (map (ref_minT s) (map snd avs))" using assms(5) refs by (simp add: ref_minT_def comp_def)
  obtain s' avs' where s': "remove_refs ?rs s = Some (Inr (), s')" "list_ok s' avs'" "map snd avs' = filter (\<lambda>r. r \<notin> set ?rs) refs"
    "s_parts s' = s_parts s" "s_wal s' = s_wal s" "s_fs s' = without (s_parts s ` set ?rs) (s_fs s)"
    using remove_refs_exact [OF avs assms(3,4) rs mins] refs by auto
  have keep: "filter (\<lambda>r. r \<notin> set ?rs) refs = filter (\<lambda>r. \<not> expired (clock r) (s_parts s r)) refs"
    by (rule filter_cong) auto
  have under: "(\<forall>p \<in> s_parts s ` set ?rs. \<not> under p q) \<longleftrightarrow>
      \<not> (\<exists>r \<in> set refs. \<exists>d. s_parts s r = DiskP d \<and> dk_expired (clock r) d \<and> prefix (dk_dirPath d) q)" for q
    by (auto elim!: under.elims)
  have "removeExpiredPartitions clock s = Some (Inr (), s')" using s'(1) assms(2) by (simp add: removeExpiredPartitions_def)
  moreover have "pl_values (s_partitionList s') = Some (filter (\<lambda>r. \<not> expired (clock r) (s_parts s r)) refs)"
    using list_ok_values [OF s'(2)] s'(3) keep by simp
  moreover have "fs_entries (s_fs s') = filter (\<lambda>(q, e). \<not> (\<exists>r \<in> set refs. \<exists>d. s_parts s r = DiskP d \<and> dk_expired (clock r) d \<and>
      prefix (dk_dirPath d) q)) (fs_entries (s_fs s))"
    unfolding s'(6) without_def under by simp
  ultimately show ?thesis using s'(2,4,5) by (auto simp: storage_ok_def)
qed

definition expired_storage :: storage where
  "expired_storage = (two_storage (DiskP (written_partition stable_runtime 5 [''p''] 100 sample_partition)))
     \<lparr>s_fs := empty_fs\<lparr>fs_entries := [([''p''], Dir), ([''p'', ''data''], File 0), ([''q''], Dir)]\<rparr>\<rparr>"

theorem removeExpiredPartitions_exact_witness:
  "\<exists>s'. removeExpiredPartitions (\<lambda>_. 200) expired_storage = Some (Inr (), s') \<and> pl_values (s_partitionList s') = Some [1] \<and>
    fs_entries (s_fs s') = [([''q''], Dir)]"
proof -
  let ?d = "written_partition stable_runtime 5 [''p''] 100 sample_partition"
  have part: "part_ok (DiskP ?d)" by simp
  note two = two_storage_ok [OF part]
  have s: "storage_ok expired_storage" "pl_values (s_partitionList expired_storage) = Some [1, 0]" "s_nextRef expired_storage < 2 ^ 62"
    "fs_faults (s_fs expired_storage) = []" "s_parts expired_storage 0 = DiskP ?d" "s_parts expired_storage 1 = MemP newer_partition"
    "fs_entries (s_fs expired_storage) = [([''p''], Dir), ([''p'', ''data''], File 0), ([''q''], Dir)]"
    using two(1-4)
    by (auto simp: expired_storage_def storage_ok_def list_ok_def empty_fs_def two_storage_def newPartition_def new_ref_def default_storage_def)
  have d: "dk_minTimestamp ?d = 3" "dk_dirPath ?d = [''p'']" "dk_expired 200 ?d"
    by (simp_all add: written_partition_def dk_minTimestamp_def json_meta_def disk_meta_def sample_partition_def dk_expired_def time_Since_def)
  show ?thesis
    using removeExpiredPartitions_exact [OF s(1-4), of "\<lambda>_. 200"] s(5-7) d newer_partition_ok(6)
    by (simp add: mem_expired_def) blast
qed

end
