(* ===== verification/Metric_Concurrency.thy ===== *)
theory Metric_Concurrency
  imports Memory_Metric "HOL-Library.Sublist"
begin

text \<open>
  \<open>memoryMetric\<close> of \<open>src/memory_partition.go\<close> under concurrent goroutines. Every \<open>insertPoint\<close>
  and \<open>selectPoints\<close> is a goroutine that takes one atomic action at a time: a load or a store of
  \<open>sync/atomic\<close>, or what it does with the slices while it holds the mutex. The loads of
  \<open>insertPoint\<close> and \<open>selectPoints\<close> happen before the mutex is taken, so other goroutines run in
  between; the stores of \<open>insertPoint\<close> are seen one by one by the loads of others.

  A goroutine's action is a function (\<open>goroutine_step\<close>), the interleaving an inductive relation
  that lets any goroutine move. For every interleaving: nothing panics, no point is lost, there is
  no deadlock and all calls return. What is lost is the order of the points.
\<close>

section \<open>Goroutines\<close>

text \<open>
  The program points of the two methods, with the local variables alive there.
  \<open>StoreMin\<close>, \<open>StoreMax\<close> and \<open>AddSize\<close> are inside the critical section of the writer.
\<close>

datatype goroutine =
    InsertPoint DataPoint
  | InsertLoaded int64 DataPoint
  | StoreMin DataPoint
  | StoreMax DataPoint
  | AddSize
  | Inserted "unit result"
  | SelectPoints int64 int64
  | SelectSize int64 int64 int64
  | SelectMin int64 int64 int64 int64
  | SelectMax int64 int64 int64 int64 int64
  | Selected "DataPoint list result"

text \<open>The part of \<open>selectPoints\<close> under the read lock, with the loaded values.\<close>

definition select_locked ::
  "int64 \<Rightarrow> int64 \<Rightarrow> int64 \<Rightarrow> int64 \<Rightarrow> int64 \<Rightarrow> DataPoint list \<Rightarrow> DataPoint list result" where
  "select_locked sz minT maxT start end ps =
     (case (if start \<le> minT then Inr 0 else searchTimestamp ps sz start) of
        Inl e \<Rightarrow> Inl e
      | Inr startIdx \<Rightarrow>
          (case (if maxT \<le> end then Inr (nat sz) else searchTimestamp ps sz end) of
             Inl e \<Rightarrow> Inl e
           | Inr endIdx \<Rightarrow> slice_points ps startIdx endIdx))"

text \<open>
  One action of a goroutine: whether a writer holds the mutex, the metric and the goroutine after
  it; \<open>None\<close> when it waits for the mutex or has returned.
\<close>

fun goroutine_step :: "bool \<Rightarrow> memoryMetric \<Rightarrow> goroutine \<Rightarrow> (bool \<times> memoryMetric \<times> goroutine) option" where
  "goroutine_step locked m (InsertPoint p) = Some (locked, m, InsertLoaded (mm_size m) p)"
| "goroutine_step locked m (InsertLoaded sz p) =
     (if locked then None
      else if sz = 0 then Some (True, m\<lparr>mm_points := mm_points m @ [p]\<rparr>, StoreMin p)
      else case timestamp_at (mm_points m) (sz - 1) of
        Inl e \<Rightarrow> Some (False, m, Inserted (Inl e))
      | Inr t \<Rightarrow>
          if t < dp_Timestamp p then Some (True, m\<lparr>mm_points := mm_points m @ [p]\<rparr>, StoreMax p)
          else Some (False, m\<lparr>mm_outOfOrderPoints := mm_outOfOrderPoints m @ [p]\<rparr>, Inserted (Inr ())))"
| "goroutine_step locked m (StoreMin p) = Some (True, m\<lparr>mm_minTimestamp := dp_Timestamp p\<rparr>, StoreMax p)"
| "goroutine_step locked m (StoreMax p) = Some (True, m\<lparr>mm_maxTimestamp := dp_Timestamp p\<rparr>, AddSize)"
| "goroutine_step locked m AddSize = Some (False, m\<lparr>mm_size := wrap64 (mm_size m + 1)\<rparr>, Inserted (Inr ()))"
| "goroutine_step locked m (Inserted r) = None"
| "goroutine_step locked m (SelectPoints start end) = Some (locked, m, SelectSize (mm_size m) start end)"
| "goroutine_step locked m (SelectSize sz start end) = Some (locked, m, SelectMin sz (mm_minTimestamp m) start end)"
| "goroutine_step locked m (SelectMin sz minT start end) =
     Some (locked, m, SelectMax sz minT (mm_maxTimestamp m) start end)"
| "goroutine_step locked m (SelectMax sz minT maxT start end) =
     (if end \<le> minT then Some (locked, m, Selected (Inr []))
      else if locked then None
      else Some (False, m, Selected (select_locked sz minT maxT start end (mm_points m))))"
| "goroutine_step locked m (Selected r) = None"

type_synonym run_state = "bool \<times> memoryMetric \<times> goroutine list"

inductive interleave :: "run_state \<Rightarrow> run_state \<Rightarrow> bool" where
  move: "\<lbrakk>i < length gs; goroutine_step locked m (gs ! i) = Some (locked', m', g)\<rbrakk> \<Longrightarrow>
     interleave (locked, m, gs) (locked', m', gs[i := g])"

inductive_cases interleaveE: "interleave (locked, m, gs) s"

text \<open>A schedule names the goroutine that moves next.\<close>

fun run_schedule :: "nat list \<Rightarrow> run_state \<Rightarrow> run_state option" where
  "run_schedule [] s = Some s"
| "run_schedule (i # is) (locked, m, gs) =
     (if i < length gs then
        (case goroutine_step locked m (gs ! i) of
           None \<Rightarrow> None
         | Some (locked', m', g) \<Rightarrow> run_schedule is (locked', m', gs[i := g]))
      else None)"

lemma run_schedule_interleave: "run_schedule is s = Some s' \<Longrightarrow> interleave\<^sup>*\<^sup>* s s'"
proof (induction "is" s rule: run_schedule.induct)
  case (2 i "is" locked m gs)
  from "2.prems" obtain locked' m' g where
    i: "i < length gs" and st: "goroutine_step locked m (gs ! i) = Some (locked', m', g)"
    and run: "run_schedule is (locked', m', gs[i := g]) = Some s'"
    by (auto split: if_splits option.splits)
  have "interleave\<^sup>*\<^sup>* (locked', m', gs[i := g]) s'" by (rule "2.IH" [OF i st _ _ run]) simp_all
  thus ?case using move [OF i st] by (rule converse_rtranclp_into_rtranclp [rotated])
qed simp

section \<open>What a goroutine knows and owes\<close>

text \<open>Goroutines as they are called, and those that have returned.\<close>

fun called :: "goroutine \<Rightarrow> bool" where
  "called (InsertPoint p) = True"
| "called (SelectPoints start end) = True"
| "called _ = False"

fun returned :: "goroutine \<Rightarrow> bool" where
  "returned (Inserted r) = True"
| "returned (Selected r) = True"
| "returned _ = False"

text \<open>The point a goroutine has still to put into the metric.\<close>

fun owed :: "goroutine \<Rightarrow> DataPoint multiset" where
  "owed (InsertPoint p) = {#p#}"
| "owed (InsertLoaded sz p) = {#p#}"
| "owed _ = {#}"

text \<open>Whether it holds the mutex as a writer, and how many actions it takes at most.\<close>

fun writing :: "goroutine \<Rightarrow> bool" where
  "writing (StoreMin p) = True"
| "writing (StoreMax p) = True"
| "writing AddSize = True"
| "writing _ = False"

fun actions :: "goroutine \<Rightarrow> nat" where
  "actions (InsertPoint p) = 5"
| "actions (InsertLoaded sz p) = 4"
| "actions (StoreMin p) = 3"
| "actions (StoreMax p) = 2"
| "actions AddSize = 1"
| "actions (Inserted r) = 0"
| "actions (SelectPoints start end) = 4"
| "actions (SelectSize sz start end) = 3"
| "actions (SelectMin sz minT start end) = 2"
| "actions (SelectMax sz minT maxT start end) = 1"
| "actions (Selected r) = 0"

text \<open>A loaded size is not newer than the metric, and a result is no panic.\<close>

fun local_ok :: "memoryMetric \<Rightarrow> goroutine \<Rightarrow> bool" where
  "local_ok m (InsertLoaded sz p) \<longleftrightarrow> 0 \<le> sz \<and> sz \<le> mm_size m"
| "local_ok m (SelectSize sz start end) \<longleftrightarrow> 0 \<le> sz \<and> sz \<le> mm_size m \<and> start < end"
| "local_ok m (SelectMin sz minT start end) \<longleftrightarrow> 0 \<le> sz \<and> sz \<le> mm_size m \<and> start < end"
| "local_ok m (SelectMax sz minT maxT start end) \<longleftrightarrow> 0 \<le> sz \<and> sz \<le> mm_size m \<and> start < end"
| "local_ok m (SelectPoints start end) \<longleftrightarrow> start < end"
| "local_ok m (Inserted r) \<longleftrightarrow> r = Inr ()"
| "local_ok m (Selected r) \<longleftrightarrow> (\<exists>ps. r = Inr ps \<and> sublist ps (mm_points m))"
| "local_ok m _ \<longleftrightarrow> True"

definition sum_over :: "(goroutine \<Rightarrow> 'a::comm_monoid_add) \<Rightarrow> goroutine list \<Rightarrow> 'a" where
  "sum_over f gs = sum_list (map f gs)"

definition run_ok :: "run_state \<Rightarrow> bool" where
  "run_ok s \<longleftrightarrow>
     (case s of (locked, m, gs) \<Rightarrow>
        sum_over (\<lambda>g. of_bool (writing g)) gs = (of_bool locked :: nat) \<and>
        0 \<le> mm_size m \<and>
        mm_size m + of_bool locked = int (length (mm_points m)) \<and>
        int (length (mm_points m)) + int (size (sum_over owed gs)) < 2 ^ 63 \<and>
        (\<forall>g \<in> set gs. local_ok m g))"

section \<open>Selecting from points in any order\<close>

text \<open>
  A binary search on points in any order ends within its bounds, and a search for a later time
  does not end before one for an earlier time: the slice expression never panics.
\<close>

lemma search_loop_total:
  assumes "\<And>k. k < j \<Longrightarrow> f k = Inr (P k)" "i \<le> j"
  shows "\<exists>a. search_loop f i j = Inr a \<and> i \<le> a \<and> a \<le> j"
  using assms
proof (induction f i j rule: search_loop.induct)
  case (1 f i j)
  show ?case
  proof (cases "i < j")
    case True
    let ?h = "(i + j) div 2"
    have h: "i \<le> ?h" "?h < j" using True by auto
    have fh: "f ?h = Inr (P ?h)" using "1.prems"(1) h by simp
    show ?thesis
    proof (cases "P ?h")
      case P: True
      have "\<exists>a. search_loop f i ?h = Inr a \<and> i \<le> a \<and> a \<le> ?h"
        by (rule "1.IH"(2) [OF True refl fh]) (use P h "1.prems"(1) in auto)
      thus ?thesis using True fh P h by (subst search_loop.simps) (auto simp: Let_def)
    next
      case nP: False
      have "\<exists>a. search_loop f (?h + 1) j = Inr a \<and> ?h + 1 \<le> a \<and> a \<le> j"
        by (rule "1.IH"(1) [OF True refl fh]) (use nP h "1.prems"(1) in auto)
      thus ?thesis using True fh nP h by (subst search_loop.simps) (auto simp: Let_def)
    qed
  next
    case False
    thus ?thesis using "1.prems" by (subst search_loop.simps) simp
  qed
qed

lemma search_loop_mono:
  assumes "\<And>k. k < j \<Longrightarrow> f k = Inr (P k)" "\<And>k. k < j \<Longrightarrow> g k = Inr (Q k)"
    "\<And>k. k < j \<Longrightarrow> Q k \<Longrightarrow> P k" "i \<le> j"
  shows "\<exists>a b. search_loop f i j = Inr a \<and> search_loop g i j = Inr b \<and> a \<le> b \<and> b \<le> j"
  using assms
proof (induction f i j rule: search_loop.induct)
  case (1 f i j)
  show ?case
  proof (cases "i < j")
    case True
    let ?h = "(i + j) div 2"
    have h: "i \<le> ?h" "?h < j" using True by auto
    have fh: "f ?h = Inr (P ?h)" and gh: "g ?h = Inr (Q ?h)" using "1.prems"(1,2) h by auto
    have unfold: "search_loop f' i j = (if \<not> p then search_loop f' (?h + 1) j else search_loop f' i ?h)"
      if "f' ?h = Inr p" for f' p
      using True that by (subst search_loop.simps) (simp add: Let_def)
    consider "Q ?h" "P ?h" | "\<not> Q ?h" "\<not> P ?h" | "P ?h" "\<not> Q ?h" using "1.prems"(3) h by auto
    thus ?thesis
    proof cases
      case 1
      have "\<exists>a b. search_loop f i ?h = Inr a \<and> search_loop g i ?h = Inr b \<and> a \<le> b \<and> b \<le> ?h"
        by (rule "1.IH"(2) [OF True refl fh]) (use 1 h "1.prems" in auto)
      thus ?thesis using unfold [of f, OF fh] unfold [of g, OF gh] 1 h by auto
    next
      case 2
      have "\<exists>a b. search_loop f (?h + 1) j = Inr a \<and> search_loop g (?h + 1) j = Inr b \<and> a \<le> b \<and> b \<le> j"
        by (rule "1.IH"(1) [OF True refl fh]) (use 2 h "1.prems" in auto)
      thus ?thesis using unfold [of f, OF fh] unfold [of g, OF gh] 2 by auto
    next
      case 3
      have "\<exists>a. search_loop f i ?h = Inr a \<and> i \<le> a \<and> a \<le> ?h"
        by (rule search_loop_total [where P = P]) (use h "1.prems"(1) in auto)
      moreover have "\<exists>b. search_loop g (?h + 1) j = Inr b \<and> ?h + 1 \<le> b \<and> b \<le> j"
        by (rule search_loop_total [where P = Q]) (use h "1.prems"(2) in auto)
      ultimately show ?thesis using unfold [of f, OF fh] unfold [of g, OF gh] 3 by auto
    qed
  next
    case False
    thus ?thesis using "1.prems" by (simp add: search_loop.simps)
  qed
qed

lemma searchTimestamp_mono:
  assumes "0 \<le> sz" "sz \<le> int (length ps)" "s \<le> t"
  shows "\<exists>a b. searchTimestamp ps sz s = Inr a \<and> searchTimestamp ps sz t = Inr b \<and> a \<le> b \<and> b \<le> nat sz"
  unfolding searchTimestamp_def sort_Search_def
  by (rule search_loop_mono [where P = "\<lambda>k. s \<le> dp_Timestamp (ps ! k)" and Q = "\<lambda>k. t \<le> dp_Timestamp (ps ! k)"])
    (use assms in \<open>auto simp: timestamp_at_def\<close>)

lemma select_locked_total:
  assumes "0 \<le> sz" "sz \<le> int (length ps)" "start < end"
  shows "\<exists>qs. select_locked sz minT maxT start end ps = Inr qs \<and> sublist qs ps"
proof -
  obtain a b where search: "searchTimestamp ps sz start = Inr a" "searchTimestamp ps sz end = Inr b"
    and "a \<le> b" "b \<le> nat sz" using searchTimestamp_mono [OF assms(1,2), of start "end"] assms(3) by auto
  have slice: "\<exists>qs. slice_points ps i j = Inr qs \<and> sublist qs ps" if "i \<le> j" "j \<le> length ps" for i j
    using that by (auto simp: slice_points_def intro: sublist_order.order.trans [OF sublist_drop sublist_take])
  show ?thesis
    using search \<open>a \<le> b\<close> \<open>b \<le> nat sz\<close> assms(2)
    by (auto simp: select_locked_def intro!: slice)
qed

section \<open>The invariant of all interleavings\<close>

lemma sum_over_update:
  fixes f :: "goroutine \<Rightarrow> 'a::cancel_comm_monoid_add"
  assumes "i < length gs"
  shows "sum_over f (gs[i := g]) + f (gs ! i) = sum_over f gs + f g"
proof -
  have "gs = take i gs @ gs ! i # drop (Suc i) gs" using assms by (rule id_take_nth_drop)
  hence "sum_over f gs = sum_over f (take i gs) + f (gs ! i) + sum_over f (drop (Suc i) gs)"
    unfolding sum_over_def by (metis (no_types, lifting) add.assoc list.simps(9) map_append sum_list.Cons sum_list.append)
  moreover have "sum_over f (gs[i := g]) = sum_over f (take i gs) + f g + sum_over f (drop (Suc i) gs)"
    using assms by (simp add: sum_over_def upd_conv_take_nth_drop ac_simps)
  ultimately show ?thesis by (simp add: ac_simps)
qed

lemma sum_over_ge: "i < length gs \<Longrightarrow> f (gs ! i) \<le> sum_over f gs" for f :: "goroutine \<Rightarrow> nat"
  unfolding sum_over_def by (rule member_le_sum_list) simp_all

lemma size_sum_over_owed:
  assumes "i < length gs"
  shows "size (owed (gs ! i)) \<le> size (sum_over owed gs)"
  using arg_cong [OF sum_over_update [OF assms, of owed "Inserted (Inr ())"], of size] by simp

lemma local_ok_mono:
  assumes "local_ok m g" "mm_size m \<le> mm_size m'" "prefix (mm_points m) (mm_points m')"
  shows "local_ok m' g"
  using assms by (cases g) (auto dest: prefix_imp_sublist intro: sublist_order.order.trans)

text \<open>What one action of a goroutine does, from a state in which it holds the mutex or nobody does.\<close>

lemma goroutine_step_ok:
  assumes step: "goroutine_step locked m g = Some (locked', m', g')"
    and lock: "writing g \<Longrightarrow> locked" and loc: "local_ok m g" and pos: "0 \<le> mm_size m"
    and sz: "mm_size m + of_bool locked = int (length (mm_points m))"
    and room: "int (length (mm_points m)) + int (size (owed g)) < 2 ^ 63"
  shows "of_bool (writing g') + of_bool locked = (of_bool (writing g) + of_bool locked' :: nat)"
    and "mm_size m \<le> mm_size m'"
    and "mm_size m' + of_bool locked' = int (length (mm_points m'))"
    and "length (mm_points m') + size (owed g') \<le> length (mm_points m) + size (owed g)"
    and "local_ok m' g'"
    and "prefix (mm_points m) (mm_points m')"
    and "metric_points m' + owed g' = metric_points m + owed g"
    and "actions g' < actions g"
proof -
  have wr: "wrap64 (mm_size m + 1) = mm_size m + 1" if "writing g"
    by (rule wrap64_id) (use that lock pos sz room in \<open>simp add: int64_range_def\<close>)
  note defs = timestamp_at_def metric_points_def
  show "of_bool (writing g') + of_bool locked = (of_bool (writing g) + of_bool locked' :: nat)"
    using step lock by (cases g) (auto split: if_splits sum.splits)
  show "mm_size m \<le> mm_size m'" using step wr by (cases g) (auto split: if_splits sum.splits)
  show "mm_size m' + of_bool locked' = int (length (mm_points m'))"
    using step wr lock sz by (cases g) (auto split: if_splits sum.splits)
  show "length (mm_points m') + size (owed g') \<le> length (mm_points m) + size (owed g)"
    using step by (cases g) (auto split: if_splits sum.splits)
  show "prefix (mm_points m) (mm_points m')" using step by (cases g) (auto split: if_splits sum.splits)
  show "metric_points m' + owed g' = metric_points m + owed g"
    using step loc sz by (cases g) (auto simp: defs split: if_splits sum.splits)
  show "actions g' < actions g" using step by (cases g) (auto split: if_splits sum.splits)
  show "local_ok m' g'"
    using step loc pos sz select_locked_total [of _ "mm_points m"]
    by (cases g) (auto simp: defs split: if_splits sum.splits)
qed

lemma run_ok_step:
  assumes ok: "run_ok (locked, m, gs)" and step: "interleave (locked, m, gs) (locked', m', gs')"
  shows "run_ok (locked', m', gs')"
    and "metric_points m' + sum_over owed gs' = metric_points m + sum_over owed gs"
    and "sum_over actions gs' < sum_over actions gs"
    and "length gs' = length gs"
proof -
  from step obtain i g where i: "i < length gs" and gs': "gs' = gs[i := g]"
    and st: "goroutine_step locked m (gs ! i) = Some (locked', m', g)"
    by (auto elim: interleaveE)
  let ?w = "\<lambda>g. of_bool (writing g) :: nat"
  have w: "sum_over ?w gs = of_bool locked" and pos: "0 \<le> mm_size m"
    and sz: "mm_size m + of_bool locked = int (length (mm_points m))"
    and room: "int (length (mm_points m)) + int (size (sum_over owed gs)) < 2 ^ 63"
    and loc: "\<And>g. g \<in> set gs \<Longrightarrow> local_ok m g"
    using ok by (auto simp: run_ok_def)
  have lock: "locked" if "writing (gs ! i)" using sum_over_ge [OF i, of ?w] that w by (cases locked) auto
  have room1: "int (length (mm_points m)) + int (size (owed (gs ! i))) < 2 ^ 63"
    using room size_sum_over_owed [OF i] by linarith
  note one = goroutine_step_ok [OF st lock loc [OF nth_mem [OF i]] pos sz room1]
  note upd = sum_over_update [OF i, where g = g, folded gs']
  have "sum_over ?w gs' = of_bool locked'" using one(1) upd [of ?w] w by simp
  moreover have "int (length (mm_points m')) + int (size (sum_over owed gs')) < 2 ^ 63"
    using one(4) arg_cong [OF upd [of owed], of size] room by simp
  moreover have "local_ok m' h" if "h \<in> set gs'" for h
    using that one(5) local_ok_mono [OF loc one(2,6)] unfolding gs' by (auto dest!: set_update_subset_insert [THEN subsetD])
  ultimately show "run_ok (locked', m', gs')" using one(2,3) pos by (simp add: run_ok_def)
  have "metric_points m' + sum_over owed gs' + owed (gs ! i) = metric_points m' + owed g + sum_over owed gs"
    using upd [of owed] by (simp add: ac_simps)
  thus "metric_points m' + sum_over owed gs' = metric_points m + sum_over owed gs"
    using one(7) by (simp add: ac_simps)
  show "sum_over actions gs' < sum_over actions gs" using upd [of actions] one(8) by simp
  show "length gs' = length gs" using gs' by simp
qed

lemma run_ok_run:
  assumes "(interleave ^^ n) (locked, m, gs) (locked', m', gs')" "run_ok (locked, m, gs)"
  shows "run_ok (locked', m', gs') \<and>
    metric_points m' + sum_over owed gs' = metric_points m + sum_over owed gs \<and>
    n + sum_over actions gs' \<le> sum_over actions gs \<and> length gs' = length gs"
  using assms
proof (induction n arbitrary: locked' m' gs')
  case (Suc n)
  from Suc.prems(1) obtain l1 m1 gs1 where run: "(interleave ^^ n) (locked, m, gs) (l1, m1, gs1)"
    and step: "interleave (l1, m1, gs1) (locked', m', gs')" by (auto elim!: relpowp_Suc_E)
  note IH = Suc.IH [OF run Suc.prems(2)]
  note st = run_ok_step [OF IH [THEN conjunct1] step]
  show ?case using IH st by simp
qed simp

text \<open>Goroutines that have just been called, on a metric with its invariant.\<close>

definition calls_ok :: "memoryMetric \<Rightarrow> goroutine list \<Rightarrow> bool" where
  "calls_ok m gs \<longleftrightarrow> metric_ok m \<and> list_all called gs \<and>
     list_all (\<lambda>g. case g of SelectPoints start end \<Rightarrow> start < end | _ \<Rightarrow> True) gs \<and>
     int (length (mm_points m)) + int (length gs) < 2 ^ 63"

lemma called_sums:
  "list_all called gs \<Longrightarrow> sum_over (\<lambda>g. of_bool (writing g)) gs = (0 :: nat) \<and>
     size (sum_over owed gs) \<le> length gs \<and> sum_over actions gs \<le> 5 * length gs"
proof (induction gs)
  case (Cons g gs)
  have "\<not> writing g \<and> size (owed g) \<le> 1 \<and> actions g \<le> 5" by (use Cons.prems in \<open>cases g\<close>) auto
  thus ?case using Cons by (simp add: sum_over_def)
qed (simp add: sum_over_def)

lemma run_ok_start:
  assumes "calls_ok m gs"
  shows "run_ok (False, m, gs)"
proof -
  have loc: "local_ok m g" if "g \<in> set gs" for g
    by (use assms that in \<open>cases g\<close>) (auto simp: calls_ok_def list_all_iff split: goroutine.splits)
  show ?thesis
    using assms called_sums [of gs] loc by (simp add: calls_ok_def run_ok_def metric_ok_def)
qed

text \<open>Somebody can always move: the holder of the mutex, or anybody when it is free.\<close>

lemma sum_over_witness: "sum_over f gs \<noteq> 0 \<Longrightarrow> \<exists>i < length gs. f (gs ! i) \<noteq> 0" for f :: "goroutine \<Rightarrow> nat"
  by (auto simp: sum_over_def in_set_conv_nth)

lemma progress:
  assumes ok: "run_ok (locked, m, gs)" and more: "\<not> list_all returned gs"
  shows "\<exists>s. interleave (locked, m, gs) s"
proof -
  have "\<exists>i < length gs. goroutine_step locked m (gs ! i) \<noteq> None"
  proof (cases locked)
    case True
    hence "\<exists>i < length gs. writing (gs ! i)"
      using ok sum_over_witness [of "\<lambda>g. of_bool (writing g)" gs] by (auto simp: run_ok_def)
    moreover have "goroutine_step locked m g \<noteq> None" if "writing g" for g using that by (cases g) auto
    ultimately show ?thesis by blast
  next
    case False
    obtain i where "i < length gs" "\<not> returned (gs ! i)" using more by (auto simp: list_all_length)
    moreover have "goroutine_step False m g \<noteq> None" if "\<not> returned g" for g
      using that by (cases g) (auto split: sum.splits)
    ultimately show ?thesis using False by auto
  qed
  thus ?thesis by (auto intro: move)
qed

lemma owed_returned: "list_all returned gs \<Longrightarrow> sum_over owed gs = {#}"
proof (induction gs)
  case (Cons g gs)
  thus ?case by (cases g) (auto simp: sum_over_def)
qed (simp add: sum_over_def)

lemma not_writing_returned: "list_all returned gs \<Longrightarrow> sum_over (\<lambda>g. of_bool (writing g)) gs = (0::nat)"
proof (induction gs)
  case (Cons g gs)
  thus ?case by (cases g) (auto simp: sum_over_def)
qed (simp add: sum_over_def)

text \<open>A goroutine that is not interrupted does what \<open>insertPoint\<close> and \<open>selectPoints\<close> do.\<close>

lemma select_locked_eq:
  "selectPoints m start end =
     (if end \<le> mm_minTimestamp m then Inr []
      else select_locked (mm_size m) (mm_minTimestamp m) (mm_maxTimestamp m) start end (mm_points m))"
  by (simp add: selectPoints_def select_locked_def Let_def)

lemma uninterrupted_insert:
  assumes i: "i < length gs" "gs ! i = InsertPoint p"
  shows "interleave\<^sup>*\<^sup>* (False, m, gs) (False, snd (insertPoint p m), gs[i := Inserted (fst (insertPoint p m))])"
proof -
  let ?long = "mm_size m = 0" and ?t = "timestamp_at (mm_points m) (mm_size m - 1)"
  consider "mm_size m = 0" | e where "mm_size m \<noteq> 0" "?t = Inl e"
    | t where "mm_size m \<noteq> 0" "?t = Inr t" "t < dp_Timestamp p"
    | t where "mm_size m \<noteq> 0" "?t = Inr t" "\<not> t < dp_Timestamp p" by (cases ?t) auto
  hence "\<exists>is. run_schedule is (False, m, gs) =
    Some (False, snd (insertPoint p m), gs[i := Inserted (fst (insertPoint p m))])"
  proof cases
    case 1
    show ?thesis by (rule exI [of _ "[i, i, i, i, i]"]) (use 1 i in \<open>simp add: insertPoint_def insertPoint_locked_def\<close>)
  next
    case 2
    show ?thesis by (rule exI [of _ "[i, i]"]) (use 2 i in \<open>simp add: insertPoint_def insertPoint_locked_def\<close>)
  next
    case 3
    show ?thesis by (rule exI [of _ "[i, i, i, i]"]) (use 3 i in \<open>simp add: insertPoint_def insertPoint_locked_def\<close>)
  next
    case 4
    show ?thesis by (rule exI [of _ "[i, i]"]) (use 4 i in \<open>simp add: insertPoint_def insertPoint_locked_def\<close>)
  qed
  thus ?thesis by (auto intro: run_schedule_interleave)
qed

lemma uninterrupted_select:
  assumes "i < length gs" "gs ! i = SelectPoints start end"
  shows "interleave\<^sup>*\<^sup>* (False, m, gs) (False, m, gs[i := Selected (selectPoints m start end)])"
  by (rule run_schedule_interleave [of "[i, i, i, i]"]) (use assms in \<open>simp add: select_locked_eq\<close>)

section \<open>Properties\<close>

text \<open>
  C11: Goroutines that insert into and select from a metric at the same time do not panic and lose
  nothing, in whatever order their atomic actions are interleaved: every call that has returned has
  a result and no panic, a selection has returned a contiguous piece of the metric's points, and
  once all have returned the metric holds exactly its points from before and the inserted ones,
  with the right size.
\<close>

theorem concurrent_no_loss:
  assumes calls: "calls_ok m gs" and run: "interleave\<^sup>*\<^sup>* (False, m, gs) (locked, m', gs')"
  shows "(\<forall>r. Inserted r \<in> set gs' \<longrightarrow> r = Inr ()) \<and>
    (\<forall>r. Selected r \<in> set gs' \<longrightarrow> (\<exists>ps. r = Inr ps \<and> sublist ps (mm_points m'))) \<and>
    (list_all returned gs' \<longrightarrow>
       metric_points m' = metric_points m + sum_over owed gs \<and> mm_size m' = int (length (mm_points m')))"
proof -
  obtain n where "(interleave ^^ n) (False, m, gs) (locked, m', gs')" using run by (auto dest: rtranclp_imp_relpowp)
  note res = run_ok_run [OF this run_ok_start [OF calls]]
  have loc: "\<forall>g \<in> set gs'. local_ok m' g" using res by (simp add: run_ok_def)
  have "mm_size m' = int (length (mm_points m'))" if "list_all returned gs'"
    using res not_writing_returned [OF that] by (cases locked) (simp_all add: run_ok_def)
  thus ?thesis using res loc owed_returned [of gs'] by (metis local_ok.simps(6,7) add_0_right)
qed

definition racing_calls :: "goroutine list" where
  "racing_calls = [InsertPoint (point 5 1), InsertPoint (point 3 2), SelectPoints 4 10]"

definition race :: "run_state option" where
  "race = run_schedule [0, 1, 0, 0, 0, 0, 1, 1, 1, 1, 2, 2, 2, 2] (False, new_memoryMetric ''m'', racing_calls)"

lemma raced_search:
  assumes "dp_Timestamp q < start"
  shows "searchTimestamp [p, q] 2 start = Inr 2"
  using assms by (simp add: searchTimestamp_def sort_Search_def search_loop.simps timestamp_at_def)

lemma race_eq:
  "race = Some (False, \<lparr>mm_name = ''m'', mm_size = 2, mm_minTimestamp = 3, mm_maxTimestamp = 3,
     mm_points = [point 5 1, point 3 2], mm_outOfOrderPoints = []\<rparr>, [Inserted (Inr ()), Inserted (Inr ()), Selected (Inr [])])"
  by (simp add: race_def racing_calls_def new_memoryMetric_def select_locked_def raced_search slice_points_def
    int64_range_def)

text \<open>The witness: two insertions and a selection that race, to the end.\<close>

theorem concurrent_no_loss_witness:
  "let m = new_memoryMetric ''m''; (locked, m', gs') = the race in
   calls_ok m racing_calls \<and> interleave\<^sup>*\<^sup>* (False, m, racing_calls) (locked, m', gs') \<and>
   metric_points m' = {#point 5 1, point 3 2#} \<and> mm_size m' = 2"
proof -
  let ?m = "new_memoryMetric ''m''" and ?m' = "\<lparr>mm_name = ''m'', mm_size = 2, mm_minTimestamp = 3,
    mm_maxTimestamp = 3, mm_points = [point 5 1, point 3 2], mm_outOfOrderPoints = []\<rparr>"
  have calls: "calls_ok ?m racing_calls"
    by (simp add: calls_ok_def racing_calls_def) (simp add: new_memoryMetric_def)
  have run: "interleave\<^sup>*\<^sup>* (False, ?m, racing_calls) (False, ?m', [Inserted (Inr ()), Inserted (Inr ()), Selected (Inr [])])"
    by (rule run_schedule_interleave [OF race_eq [unfolded race_def]])
  show ?thesis
    using calls run concurrent_no_loss [OF calls run]
    by (simp add: race_eq) (simp add: racing_calls_def sum_over_def)
qed

text \<open>
  C12: No deadlock and no endless wait: whatever the interleaving, n calls of \<open>insertPoint\<close> and
  \<open>selectPoints\<close> have all returned after at most 5 n atomic actions, and before that some
  goroutine can always move, although the goroutines wait for the mutex.
\<close>

theorem concurrent_calls_return:
  assumes calls: "calls_ok m gs" and run: "(interleave ^^ n) (False, m, gs) (locked, m', gs')"
  shows "n \<le> 5 * length gs \<and> (list_all returned gs' \<or> (\<exists>s. interleave (locked, m', gs') s))"
proof -
  note res = run_ok_run [OF run run_ok_start [OF calls]]
  have "sum_over actions gs \<le> 5 * length gs" using calls called_sums by (simp add: calls_ok_def)
  thus ?thesis using res progress [of locked m' gs'] by auto
qed

theorem concurrent_calls_return_witness:
  "calls_ok (new_memoryMetric ''m'') racing_calls \<and>
   (\<exists>s. interleave (False, new_memoryMetric ''m'', racing_calls) s)"
proof -
  have calls: "calls_ok (new_memoryMetric ''m'') racing_calls"
    by (simp add: calls_ok_def racing_calls_def) (simp add: new_memoryMetric_def)
  have "\<not> list_all returned racing_calls" by (simp add: racing_calls_def)
  thus ?thesis using calls concurrent_calls_return [OF calls, of 0 False "new_memoryMetric ''m''" racing_calls] by simp
qed

text \<open>
  C27: Concurrent insertions can break the order that selection relies on. For any two points with different timestamps, when
  two goroutines that insert them as the first points of a metric both load the size 0 before either
  takes the mutex and the later point is stored first, both calls return without an error, the
  earlier point overwrites minimum and maximum, and the points stay out of order (the comment of the
  field says they must be kept in order). Every selection of a range that starts after the earlier
  point and contains the later one then misses it, whether it ran concurrently or runs afterwards.
\<close>

theorem concurrent_insert_breaks_order:
  assumes "dp_Timestamp q < start" and "start \<le> dp_Timestamp p" and "dp_Timestamp p < end"
  shows "\<exists>m gs. interleave\<^sup>*\<^sup>* (False, new_memoryMetric name, [InsertPoint p, InsertPoint q, SelectPoints start end]) (False, m, gs) \<and>
     gs = [Inserted (Inr ()), Inserted (Inr ()), Selected (Inr [])] \<and>
     metric_points m = {#p, q#} \<and> \<not> sorted (map dp_Timestamp (mm_points m)) \<and> selectPoints m start end = Inr []"
proof -
  let ?calls = "[InsertPoint p, InsertPoint q, SelectPoints start end]"
  let ?m = "\<lparr>mm_name = name, mm_size = 2, mm_minTimestamp = dp_Timestamp q, mm_maxTimestamp = dp_Timestamp q,
    mm_points = [p, q], mm_outOfOrderPoints = []\<rparr>"
  have sel: "select_locked 2 (dp_Timestamp q) (dp_Timestamp q) start end [p, q] = Inr []"
    using raced_search [OF assms(1)] assms by (simp add: select_locked_def slice_points_def)
  have "run_schedule [0, 1, 0, 0, 0, 0, 1, 1, 1, 1, 2, 2, 2, 2] (False, new_memoryMetric name, ?calls) =
      Some (False, ?m, [Inserted (Inr ()), Inserted (Inr ()), Selected (Inr [])])"
    using sel assms by (simp add: new_memoryMetric_def int64_range_def)
  moreover have "selectPoints ?m start end = Inr []"
    using raced_search [OF assms(1)] assms by (simp add: selectPoints_def slice_points_def)
  ultimately show ?thesis using assms run_schedule_interleave by (fastforce simp: metric_points_def)
qed

theorem concurrent_insert_breaks_order_witness:
  "\<exists>m gs. interleave\<^sup>*\<^sup>* (False, new_memoryMetric ''m'', racing_calls) (False, m, gs) \<and>
     \<not> sorted (map dp_Timestamp (mm_points m)) \<and> selectPoints m 4 10 = Inr []"
  using concurrent_insert_breaks_order [of "point 3 2" 4 "point 5 1" 10 "''m''"] by (auto simp: racing_calls_def)

end
