(* ===== verification/Cgroup.thy ===== *)
theory Cgroup
  imports Go_Prelude "HOL-Library.Log_Nat"
begin

text \<open>
  \<open>src/internal/cgroup\<close>: reading the limits of the control group the process runs in, and the
  number of processors. The files of the operating system are an argument: \<open>readFile\<close> gives the
  contents of the file at the path with the given elements. \<open>strings.Split\<close>, \<open>strings.Contains\<close>,
  \<open>strings.TrimSpace\<close> and \<open>strconv.ParseInt\<close> are modelled after Go's library.
\<close>

section \<open>Strings\<close>

text \<open>\<open>strings.Split\<close> with a separator of one character; an empty string has one part.\<close>

fun Split :: "char \<Rightarrow> string \<Rightarrow> string list" where
  "Split c [] = [[]]"
| "Split c (x # xs) = (if x = c then [] # Split c xs else (x # hd (Split c xs)) # tl (Split c xs))"

text \<open>\<open>strings.Contains\<close>.\<close>

fun Contains :: "string \<Rightarrow> string \<Rightarrow> bool" where
  "Contains [] sub \<longleftrightarrow> sub = []"
| "Contains (x # xs) sub \<longleftrightarrow> prefix sub (x # xs) \<or> Contains xs sub"

text \<open>
  \<open>strings.TrimSpace\<close> on bytes: the white space of Unicode in UTF-8.
\<close>

definition space_seqs :: "string list" where
  "space_seqs = [
    [CHR 0x09], [CHR 0x0A], [CHR 0x0B], [CHR 0x0C], [CHR 0x0D], [CHR 0x20], [CHR 0xC2, CHR 0x85],
    [CHR 0xC2, CHR 0xA0], [CHR 0xE1, CHR 0x9A, CHR 0x80], [CHR 0xE2, CHR 0x80, CHR 0x80],
    [CHR 0xE2, CHR 0x80, CHR 0x81], [CHR 0xE2, CHR 0x80, CHR 0x82], [CHR 0xE2, CHR 0x80, CHR 0x83],
    [CHR 0xE2, CHR 0x80, CHR 0x84], [CHR 0xE2, CHR 0x80, CHR 0x85], [CHR 0xE2, CHR 0x80, CHR 0x86],
    [CHR 0xE2, CHR 0x80, CHR 0x87], [CHR 0xE2, CHR 0x80, CHR 0x88], [CHR 0xE2, CHR 0x80, CHR 0x89],
    [CHR 0xE2, CHR 0x80, CHR 0x8A], [CHR 0xE2, CHR 0x80, CHR 0xA8], [CHR 0xE2, CHR 0x80, CHR 0xA9],
    [CHR 0xE2, CHR 0x80, CHR 0xAF], [CHR 0xE2, CHR 0x81, CHR 0x9F], [CHR 0xE3, CHR 0x80, CHR 0x80]]"

function trim_left :: "string list \<Rightarrow> string \<Rightarrow> string" where
  "trim_left seqs s =
     (case filter (\<lambda>w. w \<noteq> [] \<and> prefix w s) seqs of [] \<Rightarrow> s | w # _ \<Rightarrow> trim_left seqs (drop (length w) s))"
  by pat_completeness auto
termination
proof (relation "measure (length \<circ> snd)")
  fix seqs s w ws
  assume "filter (\<lambda>w. w \<noteq> [] \<and> prefix w s) seqs = w # ws"
  hence "w \<in> set (filter (\<lambda>w. w \<noteq> [] \<and> prefix w s) seqs)" by simp
  hence "w \<noteq> [] \<and> prefix w s" by simp
  thus "((seqs, drop (length w) s), seqs, s) \<in> measure (length \<circ> snd)"
    using prefix_length_le [of w s] by (cases w) auto
qed simp

declare trim_left.simps [simp del]

definition TrimSpace :: "string \<Rightarrow> string" where
  "TrimSpace s = rev (trim_left (map rev space_seqs) (rev (trim_left space_seqs s)))"

text \<open>\<open>strconv.ParseInt(s, 10, 64)\<close>, which \<open>strconv.Atoi\<close> agrees with.\<close>

definition digits_value :: "string \<Rightarrow> nat" where
  "digits_value s = foldl (\<lambda>n c. 10 * n + (of_char c - 48)) 0 s"

definition ParseInt :: "string \<Rightarrow> int64 result" where
  "ParseInt s =
     (let neg = (s \<noteq> [] \<and> hd s = CHR ''-'');
          ds = (if s \<noteq> [] \<and> (hd s = CHR ''-'' \<or> hd s = CHR ''+'') then tl s else s)
      in if ds = [] \<or> \<not> list_all is_digit ds then Inl (Errorf ''invalid syntax'')
         else let n = int (digits_value ds) in
           if \<not> neg \<and> 2 ^ 63 \<le> n \<or> neg \<and> 2 ^ 63 < n then Inl (Errorf ''value out of range'')
           else Inr (if neg then - n else n))"

section \<open>Limits\<close>

text \<open>\<open>grepFirstMatch\<close>: the item of the first line that contains the match and has enough items.\<close>

fun grep_lines :: "string \<Rightarrow> nat \<Rightarrow> char \<Rightarrow> string list \<Rightarrow> string result" where
  "grep_lines match index delimiter [] = Inl (Errorf ''cannot find'')"
| "grep_lines match index delimiter (s # lines) =
     (if \<not> Contains s match then grep_lines match index delimiter lines
      else let parts = Split delimiter s in
        if index < length parts then Inr (TrimSpace (parts ! index)) else grep_lines match index delimiter lines)"

definition grepFirstMatch :: "string \<Rightarrow> string \<Rightarrow> nat \<Rightarrow> char \<Rightarrow> string result" where
  "grepFirstMatch data match index delimiter = grep_lines match index delimiter (Split (CHR 0x0A) data)"

type_synonym files = "string list \<Rightarrow> string result"

definition getFileContents :: "files \<Rightarrow> string \<Rightarrow> string \<Rightarrow> string \<Rightarrow> string \<Rightarrow> string result" where
  "getFileContents readFile statName sysfsPrefix cgroupPath cgroupGrepLine =
     (case readFile [sysfsPrefix, statName] of
        Inr data \<Rightarrow> Inr data
      | Inl _ \<Rightarrow>
          (case readFile [cgroupPath] of
             Inl err \<Rightarrow> Inl err
           | Inr cgroupData \<Rightarrow>
               (case grepFirstMatch cgroupData cgroupGrepLine 2 (CHR '':'') of
                  Inl err \<Rightarrow> Inl err
                | Inr subPath \<Rightarrow> readFile [sysfsPrefix, subPath, statName])))"

definition getStatGeneric :: "files \<Rightarrow> string \<Rightarrow> string \<Rightarrow> string \<Rightarrow> string \<Rightarrow> int64 result" where
  "getStatGeneric readFile statName sysfsPrefix cgroupPath cgroupGrepLine =
     (case getFileContents readFile statName sysfsPrefix cgroupPath cgroupGrepLine of
        Inl err \<Rightarrow> Inl err
      | Inr data \<Rightarrow> ParseInt data)"

definition getCPUStat :: "files \<Rightarrow> string \<Rightarrow> int64 result" where
  "getCPUStat readFile statName = getStatGeneric readFile statName ''/sys/fs/cgroup/cpu'' ''/proc/self/cgroup'' ''cpu,''"



definition getHierarchicalMemoryLimit :: "files \<Rightarrow> string \<Rightarrow> string \<Rightarrow> int64 result" where
  "getHierarchicalMemoryLimit readFile sysfsPrefix cgroupPath =
     (case getFileContents readFile ''memory.stat'' sysfsPrefix cgroupPath ''memory'' of
        Inl err \<Rightarrow> Inl err
      | Inr data \<Rightarrow>
          (case grepFirstMatch data ''hierarchical_memory_limit'' 1 (CHR '' '') of
             Inl err \<Rightarrow> Inl err
           | Inr memStat \<Rightarrow> ParseInt memStat))"

definition GetHierarchicalMemoryLimit :: "files \<Rightarrow> int64" where
  "GetHierarchicalMemoryLimit readFile =
     (case getHierarchicalMemoryLimit readFile ''/sys/fs/cgroup/memory'' ''/proc/self/cgroup'' of Inl _ \<Rightarrow> 0 | Inr n \<Rightarrow> n)"

section \<open>Processors\<close>

fun count_parts :: "int64 \<Rightarrow> string list \<Rightarrow> int64" where
  "count_parts n [] = n"
| "count_parts n (s # ss) =
     (let n = wrap64 (n + 1) in
      if \<not> Contains s ''-'' then (case ParseInt s of Inl _ \<Rightarrow> -1 | Inr _ \<Rightarrow> count_parts n ss)
      else case Split (CHR ''-'') s of
        [lo, hi] \<Rightarrow>
          (case ParseInt lo of
             Inl _ \<Rightarrow> -1
           | Inr start \<Rightarrow>
               (case ParseInt hi of
                  Inl _ \<Rightarrow> -1
                | Inr end \<Rightarrow> count_parts (wrap64 (n + wrap64 (end - start))) ss))
      | _ \<Rightarrow> -1)"

definition countCPUs :: "string \<Rightarrow> int64" where
  "countCPUs data = count_parts 0 (Split (CHR '','') (TrimSpace data))"

text \<open>
  Floating point: a finite \<open>float64\<close> is the rational it stands for. The numbers here are quotients of
  \<open>int64\<close> values, so they neither overflow nor underflow; \<open>round53\<close> rounds to 53 significant bits, to
  even on ties. Dividing a positive number by zero is infinite.
\<close>

datatype f64 = Fin rat | Inf

definition floor_log2 :: "rat \<Rightarrow> int" where
  "floor_log2 x =
     (if 1 \<le> x then int (floorlog 2 (nat \<lfloor>x\<rfloor>)) - 1 else - int (floorlog 2 (nat (\<lceil>1 / x\<rceil> - 1))))"

definition round_even :: "rat \<Rightarrow> int" where
  "round_even x =
     (let k = \<lfloor>x\<rfloor>; d = x - of_int k
      in if d < 1 / 2 then k else if d > 1 / 2 then k + 1 else if even k then k else k + 1)"

definition pow2 :: "int \<Rightarrow> rat" where
  "pow2 e = (if 0 \<le> e then 2 ^ nat e else 1 / 2 ^ nat (- e))"

definition round53 :: "rat \<Rightarrow> rat" where
  "round53 x =
     (if x = 0 then 0
      else let u = pow2 (52 - floor_log2 \<bar>x\<bar>) in sgn x * of_int (round_even (\<bar>x\<bar> * u)) / u)"

definition f64_of_int :: "int64 \<Rightarrow> f64" where
  "f64_of_int n = Fin (round53 (of_int n))"

fun f64_div :: "f64 \<Rightarrow> f64 \<Rightarrow> f64" where
  "f64_div (Fin x) (Fin y) = (if y = 0 then Inf else Fin (round53 (x / y)))"
| "f64_div _ _ = Inf"

fun f64_pos :: "f64 \<Rightarrow> bool" where
  "f64_pos (Fin x) \<longleftrightarrow> 0 < x"
| "f64_pos Inf \<longleftrightarrow> True"

text \<open>\<open>int(q + 0.5)\<close> of a positive number; what a value out of range becomes depends on the machine.\<close>

fun int_plus_half :: "int64 \<Rightarrow> f64 \<Rightarrow> int64" where
  "int_plus_half out_of_range (Fin x) =
     (let y = round53 (x + 1 / 2) in if y < 2 ^ 63 then \<lfloor>y\<rfloor> else out_of_range)"
| "int_plus_half out_of_range Inf = out_of_range"

definition getOnlineCPUCount :: "files \<Rightarrow> f64" where
  "getOnlineCPUCount readFile =
     (case readFile [''/sys/devices/system/cpu/online''] of
        Inl _ \<Rightarrow> Fin (-1)
      | Inr data \<Rightarrow> let n = f64_of_int (countCPUs data) in if \<not> f64_pos n then Fin (-1) else n)"

definition getCPUQuota :: "files \<Rightarrow> f64" where
  "getCPUQuota readFile =
     (case getCPUStat readFile ''cpu.cfs_quota_us'' of
        Inl _ \<Rightarrow> Fin 0
      | Inr quotaUS \<Rightarrow>
          if quotaUS \<le> 0 then getOnlineCPUCount readFile
          else case getCPUStat readFile ''cpu.cfs_period_us'' of
            Inl _ \<Rightarrow> Fin 0
          | Inr periodUS \<Rightarrow> f64_div (f64_of_int quotaUS) (f64_of_int periodUS))"

text \<open>
  The process: whether the update has been done, and the value of \<open>runtime.GOMAXPROCS\<close>. What the
  machine gives is the number of processors, the environment variable and the conversion of values
  out of range.
\<close>

record machine =
  mc_NumCPU :: int
  mc_GOMAXPROCS :: string
  mc_out_of_range :: int64

record process =
  pr_once :: bool
  pr_procs :: int

definition updateGOMAXPROCSToCPUQuota :: "machine \<Rightarrow> files \<Rightarrow> process \<Rightarrow> process" where
  "updateGOMAXPROCSToCPUQuota mc readFile pr =
     (if mc_GOMAXPROCS mc \<noteq> '''' then pr
      else
        let q = getCPUQuota readFile in
        if \<not> f64_pos q then pr
        else
          let gomaxprocs = int_plus_half (mc_out_of_range mc) q in
          if mc_NumCPU mc < gomaxprocs then pr
          else pr\<lparr>pr_procs := (if gomaxprocs \<le> 0 then 1 else gomaxprocs)\<rparr>)"

definition AvailableCPUs :: "machine \<Rightarrow> files \<Rightarrow> process \<Rightarrow> int \<times> process" where
  "AvailableCPUs mc readFile pr =
     (let pr = (if pr_once pr then pr else (updateGOMAXPROCSToCPUQuota mc readFile pr)\<lparr>pr_once := True\<rparr>)
      in (pr_procs pr, pr))"

section \<open>Printed numbers and lists\<close>

lemma digits_value_itoa: "digits_value (itoa n) = n"
proof (induction n rule: itoa.induct)
  case (1 n)
  show ?case
  proof (cases "n < 10")
    case False
    thus ?thesis using 1 by (subst itoa.simps) (simp add: digits_value_def)
  qed (subst itoa.simps, simp add: digits_value_def)
qed

lemma ParseInt_itoa: "n < 2 ^ 63 \<Longrightarrow> ParseInt (itoa n) = Inr (int n)"
proof -
  assume n: "n < 2 ^ 63"
  have hd: "hd (itoa n) \<noteq> CHR ''-'' \<and> hd (itoa n) \<noteq> CHR ''+''"
    using itoa_chars [of "hd (itoa n)" n] itoa_digits [of n] by auto
  have "int n < 2 ^ 63" using n by simp
  thus ?thesis using hd itoa_digits [of n] by (simp add: ParseInt_def digits_value_itoa Let_def)
qed

lemma Contains_single: "Contains s [c] \<longleftrightarrow> c \<in> set s"
  by (induction s) auto

fun join :: "char \<Rightarrow> string list \<Rightarrow> string" where
  "join c [] = []"
| "join c [s] = s"
| "join c (s # t # ss) = s @ c # join c (t # ss)"

lemma Split_absent: "c \<notin> set s \<Longrightarrow> Split c s = [s]"
  by (induction s) auto

lemma Split_append: "c \<notin> set s \<Longrightarrow> Split c (s @ c # t) = s # Split c t"
  by (induction s) auto

lemma Split_join: "ss \<noteq> [] \<Longrightarrow> \<forall>s \<in> set ss. c \<notin> set s \<Longrightarrow> Split c (join c ss) = ss"
  by (induction c ss rule: join.induct) (auto simp: Split_absent Split_append)

text \<open>White space at the end of a line of digits, commas and the like is trimmed.\<close>

lemma trim_left_none: "filter (\<lambda>w. w \<noteq> [] \<and> prefix w s) seqs = [] \<Longrightarrow> trim_left seqs s = s"
  by (subst trim_left.simps) simp

lemma no_space_prefix:
  assumes "s \<noteq> []" "is_digit (hd s)"
  shows "filter (\<lambda>w. w \<noteq> [] \<and> prefix w s) space_seqs = []" "filter (\<lambda>w. w \<noteq> [] \<and> prefix w s) (map rev space_seqs) = []"
proof -
  have hd: "\<forall>w \<in> set space_seqs \<union> set (map rev space_seqs). \<not> is_digit (hd w)" by code_simp
  have "\<not> prefix w s" if "w \<noteq> []" "\<not> is_digit (hd w)" for w
    using that assms by (cases w; cases s) auto
  thus "filter (\<lambda>w. w \<noteq> [] \<and> prefix w s) space_seqs = []" "filter (\<lambda>w. w \<noteq> [] \<and> prefix w s) (map rev space_seqs) = []"
    using hd by (auto simp: filter_empty_conv)
qed

lemma trim_newline: "trim_left (map rev space_seqs) (CHR 0x0A # s) = trim_left (map rev space_seqs) s"
proof -
  have only: "\<forall>w \<in> set (map rev space_seqs). w = [CHR 0x0A] \<or> w = [] \<or> hd w \<noteq> CHR 0x0A" by code_simp
  have "filter (\<lambda>w. w \<noteq> [] \<and> prefix w (CHR 0x0A # s)) (map rev space_seqs) = filter (\<lambda>w. w = [CHR 0x0A]) (map rev space_seqs)"
  proof (rule filter_cong [OF refl])
    fix w
    assume "w \<in> set (map rev space_seqs)"
    with only have "w = [CHR 0x0A] \<or> w = [] \<or> hd w \<noteq> CHR 0x0A" by (rule bspec)
    moreover have "prefix w (CHR 0x0A # s) \<longleftrightarrow> w = [] \<or> hd w = CHR 0x0A \<and> prefix (tl w) s" by (cases w) auto
    ultimately show "(w \<noteq> [] \<and> prefix w (CHR 0x0A # s)) = (w = [CHR 0x0A])" by (elim disjE) auto
  qed
  also have "\<dots> = [[CHR 0x0A]]" by code_simp
  finally have one: "filter (\<lambda>w. w \<noteq> [] \<and> prefix w (CHR 0x0A # s)) (map rev space_seqs) = [[CHR 0x0A]]" .
  show ?thesis
    by (subst trim_left.simps) (simp only: one list.case, simp)
qed

lemma TrimSpace_line:
  assumes "s \<noteq> []" "is_digit (hd s)" "is_digit (last s)"
  shows "TrimSpace (s @ [CHR 0x0A]) = s"
proof -
  have "trim_left space_seqs (s @ [CHR 0x0A]) = s @ [CHR 0x0A]"
    by (rule trim_left_none [OF no_space_prefix(1)]) (use assms in auto)
  moreover have "trim_left (map rev space_seqs) (rev s) = rev s"
    by (rule trim_left_none [OF no_space_prefix(2)]) (use assms in \<open>auto simp: hd_rev\<close>)
  ultimately show ?thesis by (simp add: TrimSpace_def trim_newline)
qed

text \<open>A list of processors as the kernel prints it.\<close>

datatype cpus = One nat | Range nat nat

fun print_cpus :: "cpus \<Rightarrow> string" where
  "print_cpus (One k) = itoa k"
| "print_cpus (Range a b) = itoa a @ ''-'' @ itoa b"

fun cpus_ok :: "cpus \<Rightarrow> bool" where
  "cpus_ok (One k) \<longleftrightarrow> k < 2 ^ 63"
| "cpus_ok (Range a b) \<longleftrightarrow> a \<le> b \<and> b < 2 ^ 63"

fun cpus_number :: "cpus \<Rightarrow> nat" where
  "cpus_number (One k) = 1"
| "cpus_number (Range a b) = b - a + 1"

lemma count_parts_printed:
  assumes "\<forall>c \<in> set cs. cpus_ok c" "0 \<le> n" "n + int (sum_list (map cpus_number cs)) < 2 ^ 63"
  shows "count_parts n (map print_cpus cs) = n + int (sum_list (map cpus_number cs))"
  using assms
proof (induction cs arbitrary: n)
  case (Cons c cs)
  have w: "wrap64 k = k" if "0 \<le> k" "k < 2 ^ 63" for k by (rule wrap64_id) (use that in \<open>simp add: int64_range_def\<close>)
  have minus: "CHR ''-'' \<notin> set (itoa k)" for k using itoa_chars by fastforce
  show ?case
  proof (cases c)
    case (One k)
    have "wrap64 (n + 1) = n + 1" by (rule w) (use Cons.prems One in simp_all)
    thus ?thesis using Cons One minus [of k] by (simp add: Contains_single ParseInt_itoa Let_def)
  next
    case (Range a b)
    have ok: "a \<le> b" "b < 2 ^ 63" "a < 2 ^ 63" using Cons.prems(1) Range by auto
    have ws: "wrap64 (n + 1) = n + 1" "wrap64 (int b - int a) = int b - int a"
      "wrap64 (n + 1 + (int b - int a)) = n + 1 + (int b - int a)"
      by (rule w; use Cons.prems Range ok in \<open>simp add: of_nat_diff\<close>)+
    have "Split (CHR ''-'') (itoa a @ CHR ''-'' # itoa b) = [itoa a, itoa b]"
      using minus by (simp add: Split_append Split_absent)
    hence "count_parts n (map print_cpus (c # cs)) = count_parts (n + 1 + (int b - int a)) (map print_cpus cs)"
      using Range ok ws by (simp add: Contains_single ParseInt_itoa Let_def)
    also have "\<dots> = n + 1 + (int b - int a) + int (sum_list (map cpus_number cs))"
      by (rule Cons.IH) (use Cons.prems Range ok in \<open>simp_all add: of_nat_diff\<close>)
    finally show ?thesis using Range ok by (simp add: of_nat_diff)
  qed
qed simp

section \<open>Rounding\<close>

lemma floor_log2_less:
  assumes "0 < x" "x < 2 ^ Suc n"
  shows "floor_log2 x \<le> int n"
proof (cases "1 \<le> x")
  case True
  hence "0 < nat \<lfloor>x\<rfloor>" by simp
  have "\<lfloor>x\<rfloor> < 2 ^ Suc n" using assms(2) by (simp add: floor_less_iff)
  hence "nat \<lfloor>x\<rfloor> < 2 ^ Suc n" using True by (subst nat_less_iff) simp_all
  hence "floorlog 2 (nat \<lfloor>x\<rfloor>) \<le> Suc n" by (rule floorlog_leI) simp_all
  thus ?thesis using True by (simp add: floor_log2_def)
qed (simp add: floor_log2_def)

lemma round_even_int [simp]: "round_even (of_int k) = k"
  by (simp add: round_even_def Let_def)

text \<open>Halves below \<open>2 ^ 52\<close> are exact.\<close>

lemma round53_half:
  assumes "0 < a" "a < 2 ^ 53"
  shows "round53 (of_int a / 2) = of_int a / 2"
proof -
  let ?x = "of_int a / 2 :: rat"
  have x: "0 < ?x" using assms(1) by simp
  have "(of_int a :: rat) < of_int (2 ^ 53)" using assms(2) by (subst of_int_less_iff)
  hence "?x < 2 ^ Suc 51" by simp
  from floor_log2_less [OF x this] have e: "floor_log2 ?x \<le> 51" by simp
  let ?j = "nat (52 - floor_log2 ?x)"
  obtain i where i: "?j = Suc i" using e by (cases ?j) auto
  have u: "pow2 (52 - floor_log2 ?x) = 2 * 2 ^ i" using e i by (simp add: pow2_def)
  have "?x * (2 * 2 ^ i) = of_int (a * 2 ^ i)" by simp
  hence "round_even (?x * (2 * 2 ^ i)) = a * 2 ^ i" by (simp only: round_even_int)
  thus ?thesis using x u by (simp add: round53_def Let_def)
qed

lemma round53_int: "0 < k \<Longrightarrow> k < 2 ^ 52 \<Longrightarrow> round53 (of_int k) = of_int k"
  using round53_half [of "2 * k"] by simp

lemma print_cpus_ends: "print_cpus c \<noteq> [] \<and> is_digit (hd (print_cpus c)) \<and> is_digit (last (print_cpus c)) \<and> CHR '','' \<notin> set (print_cpus c)"
proof -
  have ends: "itoa k \<noteq> []" "is_digit (hd (itoa k))" "is_digit (last (itoa k))" "CHR '','' \<notin> set (itoa k)" for k
    using itoa_digits [of k] itoa_chars [of "CHR '',''" k] by (auto simp: list_all_iff)
  thus ?thesis by (cases c) (auto simp: ends)
qed

lemma join_ends:
  "ss \<noteq> [] \<Longrightarrow> \<forall>s \<in> set ss. s \<noteq> [] \<Longrightarrow> join c ss \<noteq> [] \<and> hd (join c ss) = hd (hd ss) \<and> last (join c ss) = last (last ss)"
  by (induction c ss rule: join.induct) auto


section \<open>Properties\<close>

text \<open>
  C36: The number of processors is read correctly: from a list of numbers and ranges as the kernel
  prints it, ended by a new line, \<open>countCPUs\<close> computes how many processors are listed.
\<close>

theorem countCPUs_printed:
  assumes "cs \<noteq> []" and "\<forall>c \<in> set cs. cpus_ok c" and "int (sum_list (map cpus_number cs)) < 2 ^ 63"
  shows "countCPUs (join (CHR '','') (map print_cpus cs) @ [CHR 0x0A]) = int (sum_list (map cpus_number cs))"
proof -
  let ?ss = "map print_cpus cs" and ?s = "join (CHR '','') (map print_cpus cs)"
  have ss: "?ss \<noteq> []" "\<forall>s \<in> set ?ss. s \<noteq> []" "\<forall>s \<in> set ?ss. CHR '','' \<notin> set s"
    using assms(1) print_cpus_ends by auto
  have "is_digit (hd ?s)" "is_digit (last ?s)"
    using join_ends [OF ss(1,2), of "CHR '',''"] assms(1) print_cpus_ends by (simp_all add: hd_map last_map)
  hence "TrimSpace (?s @ [CHR 0x0A]) = ?s" using join_ends [OF ss(1,2)] by (intro TrimSpace_line) auto
  thus ?thesis using Split_join [OF ss(1,3)] count_parts_printed [OF assms(2), of 0] assms(3) by (simp add: countCPUs_def)
qed

theorem countCPUs_printed_witness: "countCPUs (''1-2,3,5-9,200-210'' @ [CHR 0x0A]) = 19"
proof -
  have "join (CHR '','') (map print_cpus [Range 1 2, One 3, Range 5 9, Range 200 210]) = ''1-2,3,5-9,200-210''" by code_simp
  thus ?thesis using countCPUs_printed [of "[Range 1 2, One 3, Range 5 9, Range 200 210]"] by simp
qed


definition kernel_files :: "string \<Rightarrow> files" where
  "kernel_files nl p =
     (if p = [''/sys/fs/cgroup/cpu'', ''cpu.cfs_quota_us''] then Inr (''30'' @ nl)
      else if p = [''/sys/fs/cgroup/cpu'', ''cpu.cfs_period_us''] then Inr (''10'' @ nl)
      else Inr (''1'' @ nl))"

definition machine8 :: machine where
  "machine8 = \<lparr>mc_NumCPU = 8, mc_GOMAXPROCS = '''', mc_out_of_range = - (2 ^ 63)\<rparr>"


text \<open>
  C37: A quota of whole processors is honoured exactly when the files end without a new line: with a
  quota of \<open>k\<close> periods and at least \<open>k\<close> processors, the process runs on \<open>k\<close>; the floating-point
  division and rounding are exact. Asking again does not change the answer.
\<close>

theorem whole_quota_honoured:
  assumes "mc_GOMAXPROCS mc = ''''" and "\<not> pr_once pr" and "0 < k" and "int k \<le> mc_NumCPU mc" and "0 < period" and "k * period < 2 ^ 51"
    and "readFile [''/sys/fs/cgroup/cpu'', ''cpu.cfs_quota_us''] = Inr (itoa (k * period))"
    and "readFile [''/sys/fs/cgroup/cpu'', ''cpu.cfs_period_us''] = Inr (itoa period)"
  shows "AvailableCPUs mc readFile pr = (int k, pr\<lparr>pr_procs := int k, pr_once := True\<rparr>) \<and>
    AvailableCPUs mc readFile' (pr\<lparr>pr_procs := int k, pr_once := True\<rparr>) = (int k, pr\<lparr>pr_procs := int k, pr_once := True\<rparr>)"
proof -
  have small: "k \<le> k * period" "period \<le> k * period" using assms(3,5) by auto
  have "int (k * period) < int (2 ^ 51)" using assms(6) by (subst of_nat_less_iff)
  moreover have "int k \<le> int (k * period)" "int period \<le> int (k * period)" using small by (simp_all only: of_nat_le_iff)
  ultimately have lt: "int (k * period) < 2 ^ 52" "int period < 2 ^ 52" "int k < 2 ^ 52" "2 * int k + 1 < 2 ^ 53" by simp_all
  have stats: "getCPUStat readFile ''cpu.cfs_quota_us'' = Inr (int (k * period))"
    "getCPUStat readFile ''cpu.cfs_period_us'' = Inr (int period)"
    using assms(6-8) lt ParseInt_itoa [of "k * period"] ParseInt_itoa [of period]
    by (simp_all add: getCPUStat_def getStatGeneric_def getFileContents_def)
  have r: "round53 (of_int (int (k * period))) = of_int (int (k * period))" "round53 (of_int (int period)) = of_int (int period)"
    "round53 (of_int (int k)) = of_int (int k)"
    using lt assms(3,5) by (intro round53_int; simp)+
  have "of_int (int (k * period)) / of_int (int period) = (of_int (int k) :: rat)" using assms(5) by simp
  moreover have "\<not> int k * int period \<le> 0" using assms(3,5) by (simp add: not_le)
  ultimately have q: "getCPUQuota readFile = Fin (of_int (int k))"
    using stats r assms(5) by (simp add: getCPUQuota_def f64_of_int_def)
  have eq: "(of_nat k + 1 / 2 :: rat) = of_int (2 * int k + 1) / 2" by (simp add: field_simps)
  have half: "round53 (of_nat k + 1 / 2) = of_nat k + 1 / 2" unfolding eq by (rule round53_half) (use lt(4) in simp_all)
  have "(of_nat k :: rat) + 1 / 2 < 2 ^ 63"
  proof -
    have "(of_nat k :: rat) \<le> of_nat (2 ^ 51)" using assms(6) small by (subst of_nat_le_iff) linarith
    thus ?thesis by simp
  qed
  moreover have "\<lfloor>(of_nat k :: rat) + 1 / 2\<rfloor> = int k" by (simp add: floor_unique)
  ultimately have "int_plus_half (mc_out_of_range mc) (Fin (of_int (int k))) = int k" using half by (simp add: Let_def)
  thus ?thesis using assms(1-4) q by (simp add: AvailableCPUs_def updateGOMAXPROCSToCPUQuota_def Let_def)
qed

theorem whole_quota_honoured_witness:
  "fst (AvailableCPUs machine8 (kernel_files []) \<lparr>pr_once = False, pr_procs = 8\<rparr>) = 3"
proof -
  have "itoa (3 * 10) = ''30''" "itoa 10 = ''10''" by code_simp+
  thus ?thesis
    using whole_quota_honoured [of machine8 "\<lparr>pr_once = False, pr_procs = 8\<rparr>" 3 10 "kernel_files []" "kernel_files []"]
    by (simp add: machine8_def kernel_files_def)
qed

end
