(* ===== verification/Timer_Pool.thy ===== *)
theory Timer_Pool
  imports Go_Prelude
begin

text \<open>
  \<open>src/internal/timerpool/timerpool.go\<close>: a pool of timers, which \<open>InsertRows\<close> uses to wait for a worker.

  A timer is active until it expires or is stopped. When it expires the runtime takes it off its
  heap and then sends on the channel, which has room for one value and drops a second one; between the two
  the timer is not active any more and the value is not in the channel yet. The runtime acts at any time, so
  the pool is a transition system of the calls of \<open>Get\<close> and \<open>Put\<close>, the receiving of values and the two steps
  of the runtime. Which timer \<open>sync.Pool\<close> gives back, if any, is left open, and it may drop any.
\<close>

section \<open>Timers\<close>

record timer =
  tm_active :: bool
  tm_sending :: nat
  tm_C :: bool

definition NewTimer :: timer where
  "NewTimer = \<lparr>tm_active = True, tm_sending = 0, tm_C = False\<rparr>"

definition Reset :: "timer \<Rightarrow> bool \<times> timer" where
  "Reset t = (tm_active t, t\<lparr>tm_active := True\<rparr>)"

definition Stop :: "timer \<Rightarrow> bool \<times> timer" where
  "Stop t = (tm_active t, t\<lparr>tm_active := False\<rparr>)"

section \<open>The pool\<close>

record pool =
  tp_timers :: "nat \<Rightarrow> timer"
  tp_fresh_timer :: nat
  tp_pooled :: "nat list"
  tp_held :: "nat list"

definition empty_pool :: pool where
  "empty_pool = \<lparr>tp_timers = (\<lambda>_. NewTimer), tp_fresh_timer = 0, tp_pooled = [], tp_held = []\<rparr>"

definition set_timer :: "nat \<Rightarrow> timer \<Rightarrow> pool \<Rightarrow> pool" where
  "set_timer r t p = p\<lparr>tp_timers := (tp_timers p)(r := t)\<rparr>"

text \<open>\<open>pick\<close> is what \<open>sync.Pool\<close> returns: a pooled timer, or nil.\<close>

definition pool_Get :: "nat option \<Rightarrow> pool \<Rightarrow> nat result \<times> pool" where
  "pool_Get pick p =
     (case pick of
        Some r \<Rightarrow>
          let p = p\<lparr>tp_pooled := remove1 r (tp_pooled p)\<rparr>; (was_active, t) = Reset (tp_timers p r); p = set_timer r t p
          in if was_active then (Inl (Panic ''active timer trapped to the pool!''), p)
             else (Inr r, p\<lparr>tp_held := r # tp_held p\<rparr>)
      | None \<Rightarrow>
          let r = tp_fresh_timer p
          in (Inr r, (set_timer r NewTimer p)\<lparr>tp_fresh_timer := r + 1, tp_held := r # tp_held p\<rparr>))"

definition pool_Put :: "nat \<Rightarrow> pool \<Rightarrow> pool" where
  "pool_Put r p =
     (let (stopped, t) = Stop (tp_timers p r);
          t = (if \<not> stopped \<and> tm_C t then t\<lparr>tm_C := False\<rparr> else t)
      in (set_timer r t p)\<lparr>tp_held := remove1 r (tp_held p), tp_pooled := r # tp_pooled p\<rparr>)"

text \<open>Calls and the runtime. A call of \<open>Get\<close> that panics ends the process.\<close>

inductive pool_step :: "pool \<Rightarrow> pool \<Rightarrow> bool" where
  get: "\<lbrakk>pick = None \<or> (\<exists>r \<in> set (tp_pooled p). pick = Some r); pool_Get pick p = (Inr r, p')\<rbrakk> \<Longrightarrow> pool_step p p'"
| put: "r \<in> set (tp_held p) \<Longrightarrow> pool_step p (pool_Put r p)"
| receive: "\<lbrakk>r \<in> set (tp_held p); tm_C (tp_timers p r)\<rbrakk> \<Longrightarrow> pool_step p (set_timer r ((tp_timers p r)\<lparr>tm_C := False\<rparr>) p)"
| drop_pooled: "r \<in> set (tp_pooled p) \<Longrightarrow> pool_step p (p\<lparr>tp_pooled := remove1 r (tp_pooled p)\<rparr>)"
| expire: "tm_active (tp_timers p r) \<Longrightarrow> pool_step p
     (set_timer r ((tp_timers p r)\<lparr>tm_active := False, tm_sending := tm_sending (tp_timers p r) + 1\<rparr>) p)"
| deliver: "0 < tm_sending (tp_timers p r) \<Longrightarrow> pool_step p
     (set_timer r ((tp_timers p r)\<lparr>tm_sending := tm_sending (tp_timers p r) - 1, tm_C := True\<rparr>) p)"

inductive_cases pool_stepE: "pool_step p p'"

section \<open>The invariant\<close>

text \<open>
  Every timer is in one place, and a pooled timer is not active.
\<close>

definition pool_ok :: "pool \<Rightarrow> bool" where
  "pool_ok p \<longleftrightarrow> distinct (tp_pooled p @ tp_held p) \<and> (\<forall>r \<in> set (tp_pooled p @ tp_held p). r < tp_fresh_timer p) \<and>
     (\<forall>r \<in> set (tp_pooled p). \<not> tm_active (tp_timers p r))"

lemma pool_ok_empty: "pool_ok empty_pool"
  by (simp add: pool_ok_def empty_pool_def)

lemma set_timer_fields [simp]:
  "tp_pooled (set_timer r t p) = tp_pooled p" "tp_held (set_timer r t p) = tp_held p"
  "tp_fresh_timer (set_timer r t p) = tp_fresh_timer p" "tp_timers (set_timer r t p) = (tp_timers p)(r := t)"
  by (simp_all add: set_timer_def)

lemma pool_Get_ok:
  assumes "pool_ok p" "pick = None \<or> (\<exists>r \<in> set (tp_pooled p). pick = Some r)"
  shows "\<exists>r p'. pool_Get pick p = (Inr r, p') \<and> pool_ok p' \<and> tm_active (tp_timers p' r) \<and> r \<in> set (tp_held p')"
proof (cases pick)
  case None
  thus ?thesis using assms(1) by (auto simp: pool_Get_def pool_ok_def Let_def NewTimer_def less_Suc_eq)
next
  case (Some r)
  hence "r \<in> set (tp_pooled p)" using assms(2) by auto
  thus ?thesis using assms(1) Some
    by (auto simp: pool_Get_def pool_ok_def Let_def Reset_def set_remove1_eq dest: notin_set_remove1)
qed

lemma pool_step_ok: "pool_step p p' \<Longrightarrow> pool_ok p \<Longrightarrow> pool_ok p'"
proof (induction rule: pool_step.induct)
  case (get pick p r p')
  thus ?case using pool_Get_ok [of p pick] by auto
next
  case (put r p)
  thus ?case by (auto simp: pool_Put_def pool_ok_def Stop_def Let_def set_remove1_eq)
qed (auto simp: pool_ok_def set_remove1_eq dest: notin_set_remove1)

lemma pool_reachable_ok: "pool_step\<^sup>*\<^sup>* empty_pool p \<Longrightarrow> pool_ok p"
  by (induction rule: rtranclp_induct) (auto simp: pool_ok_empty intro: pool_step_ok)

section \<open>Properties\<close>

text \<open>
  C38: The pool never hands out an active timer: in every state that calls of \<open>Get\<close> and \<open>Put\<close> and
  timers that expire at any moment can reach, a further \<open>Get\<close> returns a timer that is then active
  and in nobody else's hands, and never panics.
\<close>

theorem timer_pool_no_panic:
  assumes "pool_step\<^sup>*\<^sup>* empty_pool p" and "pick = None \<or> (\<exists>r \<in> set (tp_pooled p). pick = Some r)"
  shows "\<exists>r p'. pool_Get pick p = (Inr r, p') \<and> tm_active (tp_timers p' r) \<and> r \<in> set (tp_held p') \<and> distinct (tp_pooled p' @ tp_held p')"
  using pool_Get_ok [OF pool_reachable_ok [OF assms(1)] assms(2)] by (auto simp: pool_ok_def)

text \<open>A timer is got, expires, and is put back before the runtime has sent its value.\<close>

definition one_timer :: pool where
  "one_timer = snd (pool_Get None empty_pool)"

definition expired_timer :: pool where
  "expired_timer = set_timer 0 \<lparr>tm_active = False, tm_sending = 1, tm_C = False\<rparr> one_timer"

lemma expired_reachable: "pool_step\<^sup>*\<^sup>* empty_pool (pool_Put 0 expired_timer)"
proof -
  have "pool_step empty_pool one_timer"
    by (rule get [of None _ 0]) (simp_all add: one_timer_def pool_Get_def empty_pool_def Let_def)
  moreover have "pool_step one_timer expired_timer"
    using expire [of one_timer 0] by (simp add: expired_timer_def one_timer_def pool_Get_def empty_pool_def Let_def NewTimer_def)
  moreover have "pool_step expired_timer (pool_Put 0 expired_timer)"
    by (rule put) (simp add: expired_timer_def one_timer_def pool_Get_def empty_pool_def Let_def)
  ultimately show ?thesis by (meson rtranclp.rtrancl_into_rtrancl rtranclp.rtrancl_refl)
qed

theorem timer_pool_no_panic_witness:
  "\<exists>r p'. pool_Get (Some 0) (pool_Put 0 expired_timer) = (Inr r, p') \<and> tm_active (tp_timers p' r)"
proof -
  have "0 \<in> set (tp_pooled (pool_Put 0 expired_timer))" by (simp add: pool_Put_def Stop_def Let_def)
  thus ?thesis using timer_pool_no_panic [OF expired_reachable, of "Some 0"] by auto
qed

text \<open>
  A timer from the pool can fire for an earlier call. \<open>Put\<close> drains the channel of an expired timer,
  but the value may not have been sent yet; it is delivered to the caller who gets the timer
  next, whose wait ends although its own time has not passed.
\<close>

theorem stale_expiry_delivered:
  "\<exists>p. pool_step\<^sup>*\<^sup>* empty_pool p \<and> tp_held p = [0] \<and> tm_active (tp_timers p 0) \<and> tm_C (tp_timers p 0)"
proof -
  let ?p1 = "pool_Put 0 expired_timer" and ?p2 = "snd (pool_Get (Some 0) (pool_Put 0 expired_timer))"
  let ?p3 = "set_timer 0 ((tp_timers ?p2 0)\<lparr>tm_sending := tm_sending (tp_timers ?p2 0) - 1, tm_C := True\<rparr>) ?p2"
  note defs = pool_Put_def expired_timer_def one_timer_def pool_Get_def empty_pool_def Let_def Stop_def Reset_def
  have "pool_step ?p1 ?p2" by (rule get [of "Some 0" _ 0]) (simp_all add: defs)
  moreover have "pool_step ?p2 ?p3" by (rule deliver) (simp add: defs)
  ultimately have "pool_step\<^sup>*\<^sup>* empty_pool ?p3" using expired_reachable by (meson rtranclp.rtrancl_into_rtrancl)
  thus ?thesis by (intro exI [of _ ?p3]) (simp add: defs)
qed

end
