(* ===== verification/Memory_Mapping.thy ===== *)
theory Memory_Mapping
  imports Go_Prelude
begin

text \<open>
  \<open>src/internal/syscall\<close>: mapping a file into memory, on Unix and on Windows. The system calls
  are parameters. On Windows the size is handed over in two halves of 32 bits, and the mapped
  bytes are a slice of an array of \<open>maxMapSize\<close> bytes at the address of the view; the contents
  of the memory are a function from addresses to bytes.

  The lemmas show that the halves make up the size, that the bytes of the file are returned, and
  that every failure is reported.
\<close>

section \<open>Unix\<close>

datatype mmap_prot = PROT_READ | PROT_WRITE
datatype mmap_flags = MAP_SHARED | MAP_PRIVATE

definition mmap_unix ::
  "(nat \<Rightarrow> int \<Rightarrow> int \<Rightarrow> mmap_prot \<Rightarrow> mmap_flags \<Rightarrow> byte list result) \<Rightarrow> nat \<Rightarrow> int \<Rightarrow> byte list result" where
  "mmap_unix syscall_Mmap fd len = syscall_Mmap fd 0 len PROT_READ MAP_SHARED"

text \<open>\<open>Mmap\<close> hands on to the \<open>mmap\<close> of the platform.\<close>

definition Mmap :: "(nat \<Rightarrow> int \<Rightarrow> byte list result) \<Rightarrow> nat \<Rightarrow> int \<Rightarrow> byte list result" where
  "Mmap mmap fd len = mmap fd len"

section \<open>Windows\<close>

definition maxMapSize_amd64 :: int where "maxMapSize_amd64 = 0xFFFFFFFFFFFF"
definition maxMapSize_386 :: int where "maxMapSize_386 = 0x7FFFFFFF"
definition maxMapSize_arm :: int where "maxMapSize_arm = 0x7FFFFFFF"

text \<open>The calls give a handle or an address, 0 when they fail, and an error; \<open>CloseHandle\<close> an error.\<close>

record windows =
  CreateFileMapping :: "nat \<Rightarrow> uint32 \<Rightarrow> uint32 \<Rightarrow> nat \<times> go_error"
  MapViewOfFile :: "nat \<Rightarrow> uint64 \<Rightarrow> uint64 \<times> go_error"
  CloseHandle :: "nat \<Rightarrow> go_error option"
  memory :: "uint64 \<Rightarrow> byte"

text \<open>\<open>(*[maxMapSize]byte)(unsafe.Pointer(addr))[:size]\<close>.\<close>

definition array_slice :: "(uint64 \<Rightarrow> byte) \<Rightarrow> int \<Rightarrow> uint64 \<Rightarrow> int \<Rightarrow> byte list result" where
  "array_slice mem maxMapSize addr sz =
     (if sz < 0 \<or> maxMapSize < sz then Inl (Panic ''slice bounds out of range'')
      else Inr (map (\<lambda>k. mem (addr + of_nat k)) [0..<nat sz]))"

definition mmap_windows :: "windows \<Rightarrow> int \<Rightarrow> nat \<Rightarrow> int64 \<Rightarrow> byte list result" where
  "mmap_windows W maxMapSize fd sz =
     (let low = of_int sz; high = of_int (drop_bit 32 sz);
          (h, errno) = CreateFileMapping W fd high low
      in if h = 0 then Inl (Wrapf ''CreateFileMapping'' errno)
         else
           let (addr, errno) = MapViewOfFile W h (of_int sz) in
           if addr = 0 then Inl (Wrapf ''MapViewOfFile'' errno)
           else case CloseHandle W h of
             Some err \<Rightarrow> Inl (Wrapf ''CloseHandle'' err)
           | None \<Rightarrow> array_slice (memory W) maxMapSize addr sz)"

section \<open>Lemmas\<close>

text \<open>No bit of the size is lost.\<close>

lemma size_halves:
  fixes sz :: int
  assumes "0 \<le> sz" "sz < 2 ^ 63"
  shows "uint (of_int (drop_bit 32 sz) :: uint32) * 2 ^ 32 + uint (of_int sz :: uint32) = sz"
proof -
  have "uint (of_int sz :: uint32) = sz mod 2 ^ 32" by (simp add: uint_word_of_int take_bit_eq_mod)
  moreover have "uint (of_int (drop_bit 32 sz) :: uint32) = sz div 2 ^ 32"
  proof -
    have "sz div 2 ^ 32 < 2 ^ 31 + 1" using zdiv_mono1 [of sz "2 ^ 63" "2 ^ 32"] assms(2) by simp
    moreover have "0 \<le> sz div 2 ^ 32" using assms(1) by (simp add: pos_imp_zdiv_nonneg_iff)
    ultimately show ?thesis by (simp add: uint_word_of_int take_bit_eq_mod drop_bit_eq_div)
  qed
  ultimately show ?thesis by simp
qed

text \<open>
  When the calls behave as documented (a mapping of the size given by the two halves, a view of
  it at an address, the handle closed), the bytes of the file are returned, up to the largest
  size of the platform; beyond it the slice panics.
\<close>

definition maps_file :: "windows \<Rightarrow> nat \<Rightarrow> byte list \<Rightarrow> bool" where
  "maps_file W fd bs \<longleftrightarrow> (\<exists>h addr. h \<noteq> 0 \<and> addr \<noteq> 0 \<and>
     (\<forall>high low. uint high * 2 ^ 32 + uint low = int (length bs) \<longrightarrow> fst (CreateFileMapping W fd high low) = h) \<and>
     fst (MapViewOfFile W h (of_nat (length bs))) = addr \<and> CloseHandle W h = None \<and>
     (\<forall>k < length bs. memory W (addr + of_nat k) = bs ! k))"

lemma mmap_windows_file:
  assumes "maps_file W fd bs" "int (length bs) < 2 ^ 63"
  shows "mmap_windows W maxMapSize fd (int (length bs)) =
    (if int (length bs) \<le> maxMapSize then Inr bs else Inl (Panic ''slice bounds out of range''))"
proof -
  obtain h addr where W: "h \<noteq> 0" "addr \<noteq> 0"
    "\<forall>high low. uint high * 2 ^ 32 + uint low = int (length bs) \<longrightarrow> fst (CreateFileMapping W fd high low) = h"
    "fst (MapViewOfFile W h (of_nat (length bs))) = addr" "CloseHandle W h = None"
    "\<forall>k < length bs. memory W (addr + of_nat k) = bs ! k"
    using assms(1) by (auto simp: maps_file_def)
  have "uint (of_int (drop_bit 32 (int (length bs))) :: uint32) * 2 ^ 32 + uint (of_int (int (length bs)) :: uint32) = int (length bs)"
    using size_halves [of "int (length bs)"] assms(2) by simp
  hence "fst (CreateFileMapping W fd (of_int (drop_bit 32 (int (length bs)))) (of_int (int (length bs)))) = h" using W(3) by blast
  moreover have "map (\<lambda>k. memory W (addr + of_nat k)) [0..<length bs] = bs"
    using W(6) by (intro nth_equalityI) simp_all
  ultimately show ?thesis using W(1,2,4,5) by (simp add: mmap_windows_def array_slice_def split_beta Let_def)
qed

text \<open>Every failure of a call is handed on.\<close>

lemma mmap_windows_error:
  assumes "mmap_windows W maxMapSize fd sz = Inr bs"
  shows "0 \<le> sz \<and> sz \<le> maxMapSize \<and> length bs = nat sz \<and>
    (\<exists>h. h \<noteq> 0 \<and> fst (CreateFileMapping W fd (of_int (drop_bit 32 sz)) (of_int sz)) = h \<and>
       fst (MapViewOfFile W h (of_int sz)) \<noteq> 0 \<and> CloseHandle W h = None)"
  using assms
  by (auto simp: mmap_windows_def array_slice_def split_beta Let_def split: if_splits option.splits)

end
