(* ===== verification/Spec2Isabelle.thy ===== *)
theory Spec2Isabelle
  imports Flush_Faults Storage_Expiry Metric_Concurrency Cgroup Timer_Pool Memory_Mapping
begin

text \<open>
  tstorage is an embedded time-series database in Go. This development models it and proves what
  it promises, and where the code breaks a promise it proves that too. All of Go's semantics that
  the code relies on is written out: 64-bit integers as \<open>int\<close> with \<open>wrap64\<close> or as words, float64
  values as their 64 bits, slices with their bounds checks, panics as values, errors as values of
  \<open>go_error\<close> with \<open>errors.Is\<close>.

  \<^bold>\<open>The program.\<close> A \<^emph>\<open>storage\<close> (\<open>storage.go\<close>) holds a linked list of \<^emph>\<open>partitions\<close>
  (\<open>partition_list.go\<close>), newest first, each for a range of time. The newest two are
  \<^emph>\<open>memory partitions\<close> (\<open>memory_partition.go\<close>), which take rows: a row goes to the newest
  partition whose minimum timestamp it does not undercut. Every batch is first appended to the
  \<^emph>\<open>write-ahead log\<close> (\<open>disk_wal.go\<close>), a directory of segment files. When the head partition is full a new one is put
  before it, and older memory partitions are flushed: every series is compressed with the Gorilla
  scheme (\<open>encoding.go\<close>) on a stream of bits (\<open>bstream.go\<close>) into a data file, described by a JSON meta file,
  which together are a \<^emph>\<open>disk partition\<close> (\<open>disk_partition.go\<close>) that takes the place of the memory
  partition in the list. A series is named by its metric and labels (\<open>label.go\<close>). A selection
  goes through the partitions and puts together the points of the range. At the start the
  partitions on disk are opened and the rows of the log inserted again.

  \<^bold>\<open>The theories\<close>, in the order of their imports.

  \<^item> \<open>Go_Prelude\<close>: results and errors, \<open>wrap64\<close>, sequencing, the collections of lemmas.
  \<^item> \<open>Bit_Stream\<close> (\<open>src/bstream.go\<close>): writer and reader of bits; \<open>bstream\<close> and \<open>bstreamReader\<close> are
    the structs. What is written is read back at any bit offset; a truncated stream can be read
    past its end without an error.
  \<^item> \<open>Go_Varint\<close>: \<open>encoding/binary\<close>'s varints, on any reader of bytes (locale \<open>byte_reader\<close>,
    interpreted on the bit stream and on the bytes of a file).
  \<^item> \<open>Data_Model\<close> (types of \<open>src/storage.go\<close>): points, rows, labels, precision, and the library functions of
    the runtime that sort, as a record \<open>Runtime\<close>.
  \<^item> \<open>Gorilla\<close>, \<open>Gorilla_Series\<close> (\<open>src/encoding.go\<close>): encoder and decoder, then whole series: the
    round trip, the cost of regular series, and two flaws of the encoder: values are not compressed,
    and a series that starts at timestamp 0 is not read back.
  \<^item> \<open>Labels\<close> (\<open>src/label.go\<close>, \<open>src/internal/encoding/int.go\<close>): \<open>marshalMetricName\<close> and what it
    identifies.
  \<^item> \<open>Memory_Metric\<close>, \<open>Memory_Partition\<close> (\<open>src/memory_partition.go\<close>) with \<open>Go_Time\<close>: the points
    of a series and the partition; invariants \<open>metric_ok\<close> and \<open>mp_ok\<close>; locale \<open>series_encoder\<close>
    for the interface that \<open>encodeAllPoints\<close> uses, interpreted on the Gorilla encoder and on the
    fake of the tests.
  \<^item> \<open>Metric_Concurrency\<close> (\<open>insertPoint\<close> and \<open>selectPoints\<close> of the same file): goroutines as
    functions from one atomic action to the next, interleaved by an inductive relation; for every
    interleaving no panic, no lost point, no deadlock, and a bound on the number of actions; but
    not the order of the points, which any two first points can lose.
  \<^item> \<open>Partition_List\<close> (\<open>src/partition_list.go\<close>): the linked list on an explicit heap of nodes,
    refining operations on lists; also iterating while nodes are unlinked and replaced.
  \<^item> \<open>Go_OS\<close>: a file system with inodes, descriptors and faults at any system call, and the
    buffered writer (locale \<open>log_writer\<close>). \<open>Go_JSON\<close>: the part of \<open>encoding/json\<close> that touches
    strings and the meta file.
  \<^item> \<open>Write_Ahead_Log\<close> (\<open>src/disk_wal.go\<close>, \<open>src/wal.go\<close>): segments, appending, reading back after
    a crash at any write.
  \<^item> \<open>Disk_Partition\<close> (\<open>src/disk_partition.go\<close>) and \<open>Flush\<close> (\<open>storage.flush\<close>): writing a memory
    partition and opening it again gives a partition that selects the same points.
  \<^item> \<open>Storage\<close> (\<open>src/storage.go\<close>, \<open>src/partition.go\<close>, \<open>src/fake_partition.go\<close>): the whole storage. Partitions are reached through
    references, \<open>s_parts\<close> is the heap they point into, the list holds references.
  \<^item> \<open>Storage_State\<close>: the invariant \<open>storage_ok\<close>, the transition system of all operations and
    faults (\<open>storage_step\<close>, \<open>reachable\<close>), and that every operation returns and keeps the invariant; what
    a flush does, also when partitions have the same minimum timestamp.
  \<^item> \<open>Storage_Select\<close>: the contract of a partition towards \<open>Select\<close> as the locale \<open>selectable\<close>,
    interpreted on the partitions of the model, and that selections are exact.
  \<^item> \<open>Storage_Recovery\<close>: starting on the disk a crashed process has left.
  \<^item> \<open>Storage_Insert\<close>: how a batch is distributed over the two newest partitions and what is logged of it.
  \<^item> \<open>Storage_Expiry\<close>: the removal of expired partitions and their directories.
  \<^item> \<open>Storage_Close\<close>: closing a storage, what it leaves on the disk, and starting on it again.
  \<^item> \<open>Flush_Faults\<close>: what is on the disk, and whether a storage starts on it, after a flush in which a write
    of a series or of the meta file fails.
  \<^item> \<open>Cgroup\<close> (\<open>src/internal/cgroup\<close>): the number of workers and the memory limit, from the files
    of the operating system (a function from path to contents), with \<open>float64\<close> division and
    rounding. Lists of processors and whole quotas are read exactly; a newline hides every limit.
  \<^item> \<open>Timer_Pool\<close> (\<open>src/internal/timerpool\<close>): the pool of timers of the write timeout, with the
    runtime's expiry and send as separate steps. It never hands out an active timer, but can hand
    out one that an earlier expiry still fires.
  \<^item> \<open>Memory_Mapping\<close> (\<open>src/internal/syscall\<close>): mapping a file on Unix and Windows over the system
    calls as parameters: no bit of the size is lost on Windows, and the bytes of the file are returned.

  \<^bold>\<open>Bounds and fuel.\<close> Loops along the list have the fuel \<open>pl_fuel\<close>, one more than the number of nodes
  ever allocated; \<open>storage_operations_return\<close> shows it is enough. The counters of the code are
  \<open>int64\<close>: the theorems ask for fewer than \<open>2 ^ 63\<close> points in a partition and fewer than \<open>2 ^ 60\<close> or
  \<open>2 ^ 62\<close> partitions, and names shorter than \<open>2 ^ 48\<close> bytes, which is all that an address space
  holds; a series on disk is read when it has at most \<open>2 ^ 45\<close> points, the largest slice of
  pointers that Go can make. Timestamps are any \<open>int64\<close> unless a statement says that they are not 0.

  \<^bold>\<open>Concurrency.\<close> The storage's operations are steps of a transition system; each is atomic there,
  and the goroutines that the code starts (the flush after a new head, the periodic removal) are
  operations of their own. So the theorems on storages hold for operations that run one after the
  other. In the code they may overlap: the partition list takes its mutex for single reads and writes
  of its fields and not for the whole of \<open>remove\<close> and \<open>swap\<close>, and what overlapping calls do to the list
  is not modelled. Inside an operation the finest interleaving is modelled for the metric.

  \<^bold>\<open>Not modelled.\<close> The passing of time while a write waits for a worker: whether it gets one in time is
  an argument of \<open>InsertRows\<close>, and the number of workers, which \<open>AvailableCPUs\<close> computes, an
  argument of \<open>NewStorage\<close>. A disk partition takes the bytes of its file for the mapping, as
  \<open>Memory_Mapping\<close> returns them; pages that change or fail under a mapping are not looked at. The logger, which has no effect on
  the state. The text of JSON documents: a document is the value it was marshalled from, after
  the coercion of strings to UTF-8, and a write of it that fails after some bytes leaves a text cut
  short, which does not decode. A read of an open segment ends with its bytes and fails in no other way.
  The cleaning of paths by \<open>filepath.Join\<close>: a path is the list of its components. That
  \<open>marshalMetricName\<close> sorts and truncates the labels of the caller in place, which a second use of the
  same labels would find done already.
\<close>

end
